(* ===== verification/Prelude.thy ===== *)
theory Prelude
  imports
    Main
    "HOL-Library.Word"
    "HOL-Library.Char_ord"
    "HOL-Library.List_Lexorder"
    "HOL-Library.Multiset"
begin

text \<open>
  Shared vocabulary of the development: the machine integers of the sources, C++ exceptions and
  failures as values of a result type, the operations of \<open>std::string\<close> and of the C string
  functions that the sources call, and the lemmas on lists and results that every component uses.

  A computation that can throw, fail an \<open>assert\<close>, dereference something that is not there or
  run forever returns \<open>'a res\<close>: \<open>Inl\<close> carries the reason, \<open>Inr\<close> the value.
  \<^item> \<open>Assertion\<close> is a failed \<open>assert\<close> (the checked build);
  \<^item> \<open>Undefined\<close> is behaviour the C++ standard leaves undefined (a read outside a buffer,
    \<open>get\<close> on an empty \<open>boost::optional\<close>, a null dereference);
  \<^item> \<open>No_return\<close> is a loop that makes no progress and never returns;
  \<^item> \<open>Exit\<close> is a call of \<open>exit\<close>.
\<close>

type_synonym byte = "8 word"
type_synonym u32 = "32 word"
type_synonym u64 = "64 word"

datatype exn =
    Logic_error string
  | Runtime_error string
  | Invalid_argument string
  | Length_error string
  | Overflow_error string
  | Out_of_range string
  | Vpack_exception string
  | Thrown_error u32
  | Assertion string
  | Undefined string
  | No_return
  | Exit int

type_synonym 'a res = "exn + 'a"

named_theorems wire_simps \<open>byte layout of words and chunk headers\<close>
named_theorems frame_simps \<open>fields an operation leaves unchanged\<close>
named_theorems inv_intros \<open>operations preserve an invariant\<close>

section \<open>Results\<close>

definition bind_res :: "'a res \<Rightarrow> ('a \<Rightarrow> 'b res) \<Rightarrow> 'b res" where
  "bind_res r f = (case r of Inl e \<Rightarrow> Inl e | Inr x \<Rightarrow> f x)"

definition check :: "bool \<Rightarrow> exn \<Rightarrow> unit res" where
  "check b e = (if b then Inr () else Inl e)"

definition opt_get :: "'a option \<Rightarrow> 'a res" where
  "opt_get x = (case x of None \<Rightarrow> Inl (Undefined ''boost::optional::get'') | Some v \<Rightarrow> Inr v)"

fun map_res :: "('a \<Rightarrow> 'b res) \<Rightarrow> 'a list \<Rightarrow> 'b list res" where
  "map_res f [] = Inr []"
| "map_res f (x # xs) = bind_res (f x) (\<lambda>y. bind_res (map_res f xs) (\<lambda>ys. Inr (y # ys)))"

text \<open>The failures of an execution that a C++ program cannot survive; the others are exceptions.\<close>

fun fatal :: "exn \<Rightarrow> bool" where
  "fatal (Assertion m) = True"
| "fatal (Undefined m) = True"
| "fatal No_return = True"
| "fatal (Exit i) = True"
| "fatal _ = False"

section \<open>Strings\<close>

text \<open>\<open>c_str ()\<close> read by a C function ends at the first NUL.\<close>

definition c_str :: "string \<Rightarrow> string" where
  "c_str s = takeWhile (\<lambda>c. c \<noteq> CHR 0x00) s"

text \<open>\<open>::tolower\<close> in the C locale, which the library never leaves.\<close>

definition tolower :: "char \<Rightarrow> char" where
  "tolower c = (if CHR ''A'' \<le> c \<and> c \<le> CHR ''Z'' then char_of (of_char c + (32::nat)) else c)"

definition strcasecmp_eq :: "string \<Rightarrow> string \<Rightarrow> bool" where
  "strcasecmp_eq p q = (map tolower (c_str p) = map tolower (c_str q))"

fun find_sub :: "string \<Rightarrow> string \<Rightarrow> nat option" where
  "find_sub n [] = (if n = [] then Some 0 else None)"
| "find_sub n (c # cs) =
     (if take (length n) (c # cs) = n then Some 0 else map_option Suc (find_sub n cs))"

text \<open>\<open>str_find needle s pos\<close> is \<open>s.find(needle, pos)\<close>, with \<open>None\<close> for \<open>npos\<close>.\<close>

definition str_find :: "string \<Rightarrow> string \<Rightarrow> nat \<Rightarrow> nat option" where
  "str_find n s pos =
     (if pos \<le> length s then map_option (\<lambda>i. pos + i) (find_sub n (drop pos s)) else None)"

definition str_contains :: "string \<Rightarrow> string \<Rightarrow> bool" where
  "str_contains s n = (str_find n s 0 \<noteq> None)"

text \<open>\<open>substr(pos, n)\<close> throws \<open>std::out_of_range\<close> when \<open>pos\<close> is past the end.\<close>

definition substr :: "string \<Rightarrow> nat \<Rightarrow> nat \<Rightarrow> string res" where
  "substr s pos n =
     (if length s < pos then Inl (Out_of_range ''basic_string::substr'')
      else Inr (take n (drop pos s)))"

text \<open>Decimal output of an unsigned number, as \<open>operator<<\<close> and \<open>std::to_string\<close> print it.\<close>

fun show_nat :: "nat \<Rightarrow> string" where
  "show_nat n =
     (if n < 10 then [char_of (48 + n)] else show_nat (n div 10) @ [char_of (48 + n mod 10)])"

declare show_nat.simps [simp del]

definition show_int :: "int \<Rightarrow> string" where
  "show_int i = (if i < 0 then CHR ''-'' # show_nat (nat (- i)) else show_nat (nat i))"

abbreviation endl :: string where
  "endl \<equiv> [CHR 0x0A]"

text \<open>\<open>boost::split\<close> at one separator character, without compressing adjacent ones.\<close>

fun split_on :: "char \<Rightarrow> string \<Rightarrow> string list" where
  "split_on sep [] = [[]]"
| "split_on sep (c # cs) =
     (if c = sep then [] # split_on sep cs
      else (c # hd (split_on sep cs)) # tl (split_on sep cs))"

section \<open>Lemmas on results\<close>

lemma bind_res_simps [simp]:
  "bind_res (Inl e) f = Inl e"
  "bind_res (Inr x) f = f x"
  by (simp_all add: bind_res_def)

lemma bind_res_eq_Inr [simp]:
  "bind_res r f = Inr y \<longleftrightarrow> (\<exists>x. r = Inr x \<and> f x = Inr y)"
  by (cases r) (simp_all add: bind_res_def)

lemma bind_res_eq_Inl:
  "bind_res r f = Inl e \<longleftrightarrow> r = Inl e \<or> (\<exists>x. r = Inr x \<and> f x = Inl e)"
  by (cases r) (simp_all add: bind_res_def)

lemma bind_res_assoc: "bind_res (bind_res r f) g = bind_res r (\<lambda>x. bind_res (f x) g)"
  by (cases r) (simp_all add: bind_res_def)

lemma check_simps [simp]:
  "check True e = Inr ()"
  "check False e = Inl e"
  "check b e = Inr u \<longleftrightarrow> b"
  by (simp_all add: check_def)

lemma opt_get_simps [simp]:
  "opt_get (Some v) = Inr v"
  "opt_get None = Inl (Undefined ''boost::optional::get'')"
  "opt_get x = Inr v \<longleftrightarrow> x = Some v"
  by (auto simp: opt_get_def split: option.splits)

lemma map_res_Inr_iff:
  "map_res f xs = Inr ys \<longleftrightarrow> list_all2 (\<lambda>x y. f x = Inr y) xs ys"
proof (induction xs arbitrary: ys)
  case Nil
  then show ?case by auto
next
  case (Cons x xs)
  then show ?case by (cases ys) auto
qed

lemma map_res_total: "(\<And>x. x \<in> set xs \<Longrightarrow> f x = Inr (g x)) \<Longrightarrow> map_res f xs = Inr (map g xs)"
  by (induction xs) auto

lemma map_res_append:
  "map_res f (xs @ ys) =
     bind_res (map_res f xs) (\<lambda>as. bind_res (map_res f ys) (\<lambda>bs. Inr (as @ bs)))"
  by (induction xs) (auto simp: bind_res_def split: sum.splits)

section \<open>Lemmas on strings\<close>

lemma c_str_id: "CHR 0x00 \<notin> set s \<Longrightarrow> c_str s = s"
  unfolding c_str_def by (rule takeWhile_eq_all_conv [THEN iffD2]) auto

lemma find_sub_Some:
  "find_sub n s = Some i \<Longrightarrow> i + length n \<le> length s \<and> take (length n) (drop i s) = n"
proof (induction s arbitrary: i)
  case Nil
  then show ?case by (auto split: if_splits)
next
  case (Cons c cs)
  show ?case
  proof (cases "take (length n) (c # cs) = n")
    case True
    then have "length n \<le> length (c # cs)"
      by (metis length_take min.cobounded1)
    with True Cons.prems show ?thesis by auto
  next
    case False
    with Cons.prems obtain j where "find_sub n cs = Some j" and "i = Suc j"
      by auto
    with Cons.IH show ?thesis by simp
  qed
qed

lemma find_sub_least:
  "find_sub n s = Some i \<Longrightarrow> j < i \<Longrightarrow> take (length n) (drop j s) \<noteq> n"
proof (induction s arbitrary: i j)
  case Nil
  then show ?case by (auto split: if_splits)
next
  case (Cons c cs)
  then show ?case by (cases j) (auto split: if_splits)
qed

lemma find_sub_None:
  "find_sub n s = None \<Longrightarrow> take (length n) (drop j s) = n \<Longrightarrow> j \<le> length s \<Longrightarrow> False"
proof (induction s arbitrary: j)
  case Nil
  then show ?case by (auto split: if_splits)
next
  case (Cons c cs)
  then show ?case by (cases j) (auto split: if_splits)
qed

lemma str_contains_refl [simp]: "str_contains s s"
proof -
  have "find_sub s s \<noteq> None"
    using find_sub_None [of s s 0] by auto
  then show ?thesis by (simp add: str_contains_def str_find_def)
qed

lemma substr_Inr: "pos \<le> length s \<Longrightarrow> substr s pos n = Inr (take n (drop pos s))"
  by (simp add: substr_def)

lemma split_on_plain: "sep \<notin> set s \<Longrightarrow> split_on sep s = [s]"
  by (induction s) auto

lemma split_on_append: "sep \<notin> set s \<Longrightarrow> split_on sep (s @ sep # t) = s # split_on sep t"
  by (induction s) auto

lemma split_on_nonempty [simp]: "split_on sep s \<noteq> []"
  by (induction s) auto

section \<open>Lemmas on words\<close>

lemma unat_ucast_u32 [simp]: "unat (ucast (w :: u32) :: u64) = unat w"
  by transfer (simp add: take_bit_eq_mod)

lemma unat_of_nat_u32: "n < 2 ^ 32 \<Longrightarrow> unat (of_nat n :: u32) = n"
  by (simp add: unat_of_nat take_bit_nat_eq_self)

lemma unat_of_nat_u64: "n < 2 ^ 64 \<Longrightarrow> unat (of_nat n :: u64) = n"
  by (simp add: unat_of_nat take_bit_nat_eq_self)

lemma odd_unat_u32: "and (w :: u32) 1 = 1 \<longleftrightarrow> odd (unat w)"
proof -
  have "and w 1 = 1 \<longleftrightarrow> bit w 0"
    by (simp add: and_one_eq mod_2_eq_odd bit_0)
  also have "\<dots> \<longleftrightarrow> odd (unat w)"
    by (simp add: bit_unsigned_iff flip: bit_0)
  finally show ?thesis .
qed

lemma unat_half_u32: "unat (drop_bit (Suc 0) (w :: u32)) = unat w div 2"
  by (subst unat_drop_bit_eq) (simp add: drop_bit_Suc)

lemma push_bit_of_nat_u32: "push_bit (Suc 0) (of_nat n :: u32) = of_nat (2 * n)"
  by (simp add: push_bit_eq_mult)

section \<open>Lemmas on lists\<close>

lemma take_drop_split: "i \<le> n \<Longrightarrow> take i xs @ take (n - i) (drop i xs) = take n xs"
  by (metis le_add_diff_inverse take_add)

lemma sum_list_replicate_le:
  "(\<And>x. x \<in> set xs \<Longrightarrow> f x \<le> (k::nat)) \<Longrightarrow> sum_list (map f xs) \<le> length xs * k"
  by (induction xs) (auto simp: add_mono)

lemma sorted_map_unique:
  assumes "sorted (map f xs)" and "sorted (map f ys)" and "mset xs = mset ys"
    and "distinct (map f xs)"
  shows "xs = ys"
proof (rule map_sorted_distinct_set_unique)
  have st: "set xs = set ys"
    using assms(3) by (rule mset_eq_setD)
  then show "set xs = set ys" .
  show "inj_on f (set xs \<union> set ys)"
    using assms(4) st by (simp add: distinct_map)
  have "mset (map f xs) = mset (map f ys)"
    using assms(3) by simp
  then show "distinct (map f ys)"
    using assms(4) mset_eq_imp_distinct_iff by blast
qed (use assms in auto)

end
