(* ===== verification/StdMap.thy ===== *)
theory StdMap
  imports Prelude
begin

text \<open>
  \<open>std::map\<close> as the sources use it: an association list in strictly increasing key order, so
  that iteration visits the keys in the order the C++ container does.
  \<^item> \<open>map_assign\<close> is \<open>m[k] = v\<close>; \<open>map_emplace\<close> is \<open>emplace\<close> and \<open>insert\<close>, which keep an
    entry that is already there; \<open>map_erase\<close> is \<open>erase(k)\<close>; \<open>map_find\<close> is \<open>find(k)\<close>.
  \<^item> \<open>ordered_map\<close> is the contract these operations offer to the headers, the message store
    and the socket table; it is interpreted on the list model below.
\<close>

type_synonym ('k, 'v) std_map = "('k \<times> 'v) list"

definition map_inv :: "('k::linorder, 'v) std_map \<Rightarrow> bool" where
  "map_inv m = sorted_wrt (<) (map fst m)"

definition map_find :: "('k, 'v) std_map \<Rightarrow> 'k \<Rightarrow> 'v option" where
  "map_find m k = map_of m k"

fun map_assign :: "'k::linorder \<Rightarrow> 'v \<Rightarrow> ('k, 'v) std_map \<Rightarrow> ('k, 'v) std_map" where
  "map_assign k v [] = [(k, v)]"
| "map_assign k v ((k', v') # m) =
     (if k < k' then (k, v) # (k', v') # m
      else if k = k' then (k, v) # m
      else (k', v') # map_assign k v m)"

fun map_emplace :: "'k::linorder \<Rightarrow> 'v \<Rightarrow> ('k, 'v) std_map \<Rightarrow> ('k, 'v) std_map" where
  "map_emplace k v [] = [(k, v)]"
| "map_emplace k v ((k', v') # m) =
     (if k < k' then (k, v) # (k', v') # m
      else if k = k' then (k', v') # m
      else (k', v') # map_emplace k v m)"

fun map_erase :: "'k::linorder \<Rightarrow> ('k, 'v) std_map \<Rightarrow> ('k, 'v) std_map" where
  "map_erase k [] = []"
| "map_erase k ((k', v') # m) = (if k = k' then m else (k', v') # map_erase k m)"

section \<open>The contract of an ordered map\<close>

locale ordered_map =
  fixes empty :: 'm
    and find :: "'m \<Rightarrow> 'k::linorder \<Rightarrow> 'v option"
    and assign :: "'k \<Rightarrow> 'v \<Rightarrow> 'm \<Rightarrow> 'm"
    and emplace :: "'k \<Rightarrow> 'v \<Rightarrow> 'm \<Rightarrow> 'm"
    and erase :: "'k \<Rightarrow> 'm \<Rightarrow> 'm"
    and entries :: "'m \<Rightarrow> ('k \<times> 'v) list"
    and invar :: "'m \<Rightarrow> bool"
  assumes find_empty: "find empty = (\<lambda>_. None)"
    and find_assign: "invar m \<Longrightarrow> find (assign k v m) = (find m)(k \<mapsto> v)"
    and find_emplace:
      "invar m \<Longrightarrow> find (emplace k v m) = (if find m k = None then (find m)(k \<mapsto> v) else find m)"
    and find_erase: "invar m \<Longrightarrow> find (erase k m) = (find m)(k := None)"
    and invar_empty: "invar empty"
    and invar_assign: "invar m \<Longrightarrow> invar (assign k v m)"
    and invar_emplace: "invar m \<Longrightarrow> invar (emplace k v m)"
    and invar_erase: "invar m \<Longrightarrow> invar (erase k m)"
    and entries_sorted: "invar m \<Longrightarrow> sorted_wrt (<) (map fst (entries m))"
    and entries_find: "invar m \<Longrightarrow> (k, v) \<in> set (entries m) \<longleftrightarrow> find m k = Some v"
begin

lemmas map_specs = find_empty find_assign find_emplace find_erase
  invar_empty invar_assign invar_emplace invar_erase

lemma entries_distinct: "invar m \<Longrightarrow> distinct (map fst (entries m))"
  using entries_sorted strict_sorted_iff by blast

lemma entries_map_of: "invar m \<Longrightarrow> map_of (entries m) = find m"
proof
  fix k
  assume inv: "invar m"
  show "map_of (entries m) k = find m k"
  proof (cases "find m k")
    case None
    with inv have "k \<notin> fst ` set (entries m)"
      by (auto simp: entries_find)
    with None show ?thesis by (simp add: map_of_eq_None_iff)
  next
    case (Some v)
    with inv have "(k, v) \<in> set (entries m)"
      by (simp add: entries_find)
    with inv Some show ?thesis
      by (simp add: entries_distinct map_of_is_SomeI)
  qed
qed

lemma entries_unique:
  assumes "invar m" and "invar m'" and "find m = find m'"
  shows "entries m = entries m'"
proof (rule map_sorted_distinct_set_unique [of fst])
  have eq: "set (entries m) = set (entries m')"
    using assms by (auto simp: entries_find)
  then show "set (entries m) = set (entries m')" .
  show "inj_on fst (set (entries m) \<union> set (entries m'))"
    using eq entries_distinct [OF assms(1)] by (simp add: distinct_map)
qed (use assms entries_sorted entries_distinct in \<open>auto intro: strict_sorted_imp_sorted\<close>)

lemma erase_emplace:
  "invar m \<Longrightarrow> find m k = None \<Longrightarrow> entries (erase k (emplace k v m)) = entries m"
  by (rule entries_unique) (auto simp: map_specs fun_eq_iff)

lemma assign_assign:
  "invar m \<Longrightarrow> entries (assign k v (assign k w m)) = entries (assign k v m)"
  by (rule entries_unique) (auto simp: map_specs)

lemma assign_commute:
  "invar m \<Longrightarrow> k \<noteq> k' \<Longrightarrow>
     entries (assign k v (assign k' v' m)) = entries (assign k' v' (assign k v m))"
  by (rule entries_unique) (auto simp: map_specs)

lemma dom_emplace: "invar m \<Longrightarrow> dom (find (emplace k v m)) = insert k (dom (find m))"
  by (auto simp: map_specs split: if_splits)

lemma keys_entries: "invar m \<Longrightarrow> fst ` set (entries m) = dom (find m)"
  using dom_map_of_conv_image_fst [of "entries m"] by (simp add: entries_map_of)

lemma finite_dom_find: "invar m \<Longrightarrow> finite (dom (find m))"
  by (metis entries_map_of finite_dom_map_of)

lemma size_entries: "invar m \<Longrightarrow> length (entries m) = card (dom (find m))"
  by (metis distinct_card entries_distinct keys_entries length_map set_map)

lemma size_emplace:
  "invar m \<Longrightarrow> length (entries (emplace k v m)) =
     (if find m k = None then Suc (length (entries m)) else length (entries m))"
  by (auto simp: size_entries map_specs finite_dom_find card_insert_if domIff)

lemma size_erase:
  "invar m \<Longrightarrow> length (entries (erase k m)) =
     (if find m k = None then length (entries m) else length (entries m) - 1)"
  by (auto simp: size_entries map_specs finite_dom_find card_Diff_singleton domIff)

end

section \<open>The list model satisfies the contract\<close>

lemma map_assign_keys: "set (map fst (map_assign k v m)) = insert k (set (map fst m))"
  by (induction k v m rule: map_assign.induct) auto

lemma map_emplace_keys: "set (map fst (map_emplace k v m)) = insert k (set (map fst m))"
  by (induction k v m rule: map_emplace.induct) auto

lemma map_erase_keys: "set (map fst (map_erase k m)) \<subseteq> set (map fst m)"
  by (induction k m rule: map_erase.induct) auto

lemma map_inv_Cons:
  "map_inv ((k, v) # m) \<longleftrightarrow> (\<forall>k' \<in> set (map fst m). k < k') \<and> map_inv m"
  by (simp add: map_inv_def)

lemma map_inv_Nil [simp]: "map_inv []"
  by (simp add: map_inv_def)

lemma map_inv_assign [simp]: "map_inv m \<Longrightarrow> map_inv (map_assign k v m)"
proof (induction k v m rule: map_assign.induct)
  case (2 k v k' v' m)
  then show ?case
    using map_assign_keys [of k v m] by (auto simp: map_inv_Cons)
qed (simp add: map_inv_def)

lemma map_inv_emplace [simp]: "map_inv m \<Longrightarrow> map_inv (map_emplace k v m)"
proof (induction k v m rule: map_emplace.induct)
  case (2 k v k' v' m)
  then show ?case
    using map_emplace_keys [of k v m] by (auto simp: map_inv_Cons)
qed (simp add: map_inv_def)

lemma map_inv_erase [simp]: "map_inv m \<Longrightarrow> map_inv (map_erase k m)"
proof (induction k m rule: map_erase.induct)
  case (2 k k' v' m)
  then show ?case
    using map_erase_keys [of k m] by (fastforce simp: map_inv_Cons)
qed simp

lemma map_of_absent: "\<forall>k' \<in> set (map fst m). k < k' \<Longrightarrow> map_of m (k::'k::linorder) = None"
  by (auto simp: map_of_eq_None_iff)

lemma map_of_assign: "map_inv m \<Longrightarrow> map_of (map_assign k v m) = (map_of m)(k \<mapsto> v)"
  by (induction k v m rule: map_assign.induct) (auto simp: map_inv_Cons fun_eq_iff)

lemma map_of_emplace:
  "map_inv m \<Longrightarrow> map_of (map_emplace k v m) = (if map_of m k = None then (map_of m)(k \<mapsto> v) else map_of m)"
proof (induction k v m rule: map_emplace.induct)
  case (2 k v k' v' m)
  have "k < k' \<Longrightarrow> map_of m k = None"
    using 2 by (intro map_of_absent) (auto simp: map_inv_Cons)
  with 2 show ?case by (auto simp: map_inv_Cons fun_eq_iff)
qed (simp add: map_inv_def)

lemma map_of_erase: "map_inv m \<Longrightarrow> map_of (map_erase k m) = (map_of m)(k := None)"
proof (induction k m rule: map_erase.induct)
  case (2 k k' v' m)
  then have "map_of m k' = None"
    by (intro map_of_absent) (auto simp: map_inv_Cons)
  with 2 show ?case by (auto simp: map_inv_Cons fun_eq_iff)
qed simp

lemma map_inv_distinct: "map_inv m \<Longrightarrow> distinct (map fst m)"
  using strict_sorted_iff by (auto simp: map_inv_def)

interpretation std: ordered_map "[]" map_find map_assign map_emplace map_erase "\<lambda>m. m" map_inv
proof (unfold_locales, goal_cases)
  case 1 show ?case by (simp add: map_find_def fun_eq_iff)
next
  case 2 then show ?case by (simp add: map_find_def map_of_assign fun_eq_iff)
next
  case 3 then show ?case by (simp add: map_find_def map_of_emplace fun_eq_iff)
next
  case 4 then show ?case by (simp add: map_find_def map_of_erase fun_eq_iff)
next
  case 9 then show ?case by (simp add: map_inv_def)
next
  case 10 then show ?case by (simp add: map_find_def map_inv_distinct)
qed simp_all

lemma map_assign_idem [simp]: "map_inv m \<Longrightarrow> map_assign k v (map_assign k w m) = map_assign k v m"
  by (rule std.assign_assign)

lemma emplace_mset: "map_find m k = None \<Longrightarrow> mset (map_emplace k v m) = add_mset (k, v) (mset m)"
  by (induction k v m rule: map_emplace.induct) (auto simp: map_find_def split: if_splits)

lemma erase_mset: "map_find m k = Some v \<Longrightarrow> mset m = add_mset (k, v) (mset (map_erase k m))"
  by (induction k m rule: map_erase.induct) (auto simp: map_find_def split: if_splits)

lemma emplace_present: "map_inv m \<Longrightarrow> map_find m k = Some w \<Longrightarrow> map_emplace k v m = m"
  by (induction k v m rule: map_emplace.induct)
    (auto simp: map_find_def map_inv_Cons split: if_splits, fastforce dest: map_of_SomeD)

lemma erase_absent: "map_find m k = None \<Longrightarrow> map_erase k m = m"
  by (induction k m rule: map_erase.induct) (auto simp: map_find_def split: if_splits)

lemma set_emplace: "set (map_emplace k v m) \<subseteq> insert (k, v) (set m)"
  by (induction k v m rule: map_emplace.induct) auto

lemma set_erase: "set (map_erase k m) \<subseteq> set m"
  by (induction k m rule: map_erase.induct) auto

end
