(* ===== verification/Types.thy ===== *)
theory Types
  imports StdMap
begin

text \<open>
  \<open>src/include/fuerte/types.h\<close> and \<open>src/src/types.cpp\<close>: the enumerations of the library, their
  conversions to and from strings and integers, and the connection configuration.

  An \<open>enum class\<close> object over \<open>int\<close> can hold any \<open>int\<close>: where the sources cast a number received
  from the network to \<open>MessageType\<close> or \<open>RestVerb\<close>, the value need not be an enumerator.
  The constructors \<open>Other_MessageType\<close> and \<open>Other_RestVerb\<close> hold such values, and the
  conversions below treat them as the code after each \<open>switch\<close> does.
\<close>

type_synonym Error = u32
type_synonym MessageID = u64
type_synonym StatusCode = u32
type_synonym StringMap = "(string, string) std_map"

section \<open>Errors\<close>

datatype ErrorCondition =
    NoError | ErrorCastError
  | ConnectionError | CouldNotConnect | Timeout
  | VstReadError | VstWriteError | CanceledDuringReset | MalformedURL
  | CurlError

fun errorToInt :: "ErrorCondition \<Rightarrow> Error" where
  "errorToInt NoError = 0"
| "errorToInt ErrorCastError = 1"
| "errorToInt ConnectionError = 1000"
| "errorToInt CouldNotConnect = 1001"
| "errorToInt Timeout = 1002"
| "errorToInt VstReadError = 1102"
| "errorToInt VstWriteError = 1103"
| "errorToInt CanceledDuringReset = 1104"
| "errorToInt MalformedURL = 1105"
| "errorToInt CurlError = 3000"

text \<open>\<open>valid\<close> pairs each number of the source's vector with the enumerator that
  \<open>static_cast\<close> makes of it. \<open>devbuild\<close> is \<open>FUERTE_DEVBUILD\<close>.\<close>

definition intToError_valid :: "(Error \<times> ErrorCondition) list" where
  "intToError_valid =
     [(0, NoError), (1000, ConnectionError), (1001, CouldNotConnect), (1002, Timeout),
      (1102, VstReadError), (1103, VstWriteError), (1104, CanceledDuringReset),
      (1105, MalformedURL), (3000, CurlError)]"

definition intToError :: "bool \<Rightarrow> Error \<Rightarrow> ErrorCondition res" where
  "intToError devbuild integral =
     (case map_of intToError_valid integral of
        Some e \<Rightarrow> Inr e
      | None \<Rightarrow>
          (if devbuild
           then Inl (Logic_error (''Error: casting int to ErrorCondition: '' @ show_nat (unat integral)))
           else Inr ErrorCastError))"

fun to_string_ErrorCondition :: "ErrorCondition \<Rightarrow> string" where
  "to_string_ErrorCondition NoError = ''No Error''"
| "to_string_ErrorCondition ErrorCastError = ''Error: casting int to ErrorCondition''"
| "to_string_ErrorCondition ConnectionError = ''Error: in connection''"
| "to_string_ErrorCondition CouldNotConnect = ''Error: unable to connect''"
| "to_string_ErrorCondition Timeout = ''Error: timeout''"
| "to_string_ErrorCondition VstReadError = ''Error: reading vst''"
| "to_string_ErrorCondition VstWriteError = ''Error: writing vst''"
| "to_string_ErrorCondition CanceledDuringReset = ''Error: cancel as result of other error''"
| "to_string_ErrorCondition MalformedURL = ''Error: malformed URL''"
| "to_string_ErrorCondition CurlError = ''Error: in curl''"

section \<open>Verbs, message types, transports\<close>

datatype RestVerb =
    Illegal | Delete | Get | Post | Put | Head | Patch | Options | Other_RestVerb int

fun RestVerb_to_int :: "RestVerb \<Rightarrow> int" where
  "RestVerb_to_int Illegal = -1"
| "RestVerb_to_int Delete = 0"
| "RestVerb_to_int Get = 1"
| "RestVerb_to_int Post = 2"
| "RestVerb_to_int Put = 3"
| "RestVerb_to_int Head = 4"
| "RestVerb_to_int Patch = 5"
| "RestVerb_to_int Options = 6"
| "RestVerb_to_int (Other_RestVerb i) = i"

definition RestVerb_of_int :: "int \<Rightarrow> RestVerb" where
  "RestVerb_of_int i =
     (if i = -1 then Illegal else if i = 0 then Delete else if i = 1 then Get
      else if i = 2 then Post else if i = 3 then Put else if i = 4 then Head
      else if i = 5 then Patch else if i = 6 then Options else Other_RestVerb i)"

definition to_RestVerb :: "string \<Rightarrow> RestVerb" where
  "to_RestVerb val =
     (let p = map tolower val in
      if strcasecmp_eq p ''delete'' then Delete
      else if strcasecmp_eq p ''get'' then Get
      else if strcasecmp_eq p ''post'' then Post
      else if strcasecmp_eq p ''put'' then Put
      else if strcasecmp_eq p ''head'' then Head
      else if strcasecmp_eq p ''patch'' then Patch
      else if strcasecmp_eq p ''options'' then Options
      else Illegal)"

fun to_string_RestVerb :: "RestVerb \<Rightarrow> string" where
  "to_string_RestVerb Illegal = ''illegal''"
| "to_string_RestVerb Delete = ''delete''"
| "to_string_RestVerb Get = ''get''"
| "to_string_RestVerb Post = ''post''"
| "to_string_RestVerb Put = ''put''"
| "to_string_RestVerb Head = ''head''"
| "to_string_RestVerb Patch = ''patch''"
| "to_string_RestVerb Options = ''options''"
| "to_string_RestVerb (Other_RestVerb i) = ''undefined''"

datatype MessageType =
    Undefined_Type | Request_Type | Response_Type | ResponseUnfinished | Authentication
  | Other_MessageType int

fun MessageType_to_int :: "MessageType \<Rightarrow> int" where
  "MessageType_to_int Undefined_Type = 0"
| "MessageType_to_int Request_Type = 1"
| "MessageType_to_int Response_Type = 2"
| "MessageType_to_int ResponseUnfinished = 3"
| "MessageType_to_int Authentication = 1000"
| "MessageType_to_int (Other_MessageType i) = i"

definition MessageType_of_int :: "int \<Rightarrow> MessageType" where
  "MessageType_of_int i =
     (if i = 0 then Undefined_Type else if i = 1 then Request_Type else if i = 2 then Response_Type
      else if i = 3 then ResponseUnfinished else if i = 1000 then Authentication
      else Other_MessageType i)"

fun to_string_MessageType :: "MessageType \<Rightarrow> string" where
  "to_string_MessageType Undefined_Type = ''undefined''"
| "to_string_MessageType Request_Type = ''request''"
| "to_string_MessageType Response_Type = ''response''"
| "to_string_MessageType ResponseUnfinished = ''unfinised response''"
| "to_string_MessageType Authentication = ''authentication''"
| "to_string_MessageType (Other_MessageType i) = ''undefined''"

datatype TransportType = Undefined_Transport | Http | Vst

fun to_string_TransportType :: "TransportType \<Rightarrow> string" where
  "to_string_TransportType Undefined_Transport = ''undefined''"
| "to_string_TransportType Http = ''http''"
| "to_string_TransportType Vst = ''vst''"

section \<open>Content types\<close>

datatype ContentType = Unset | Custom | VPack | Dump | Json | Html | Text

definition fu_content_type_unset :: string where
  "fu_content_type_unset = ''unset''"
definition fu_content_type_vpack :: string where
  "fu_content_type_vpack = ''application/x-velocypack''"
definition fu_content_type_json :: string where
  "fu_content_type_json = ''application/json''"
definition fu_content_type_html :: string where
  "fu_content_type_html = ''text/html''"
definition fu_content_type_text :: string where
  "fu_content_type_text = ''text/plain''"
definition fu_content_type_dump :: string where
  "fu_content_type_dump = ''application/x-arango-dump''"

lemmas fu_content_type_defs =
  fu_content_type_unset_def fu_content_type_vpack_def fu_content_type_json_def
  fu_content_type_html_def fu_content_type_text_def fu_content_type_dump_def

definition to_ContentType :: "string \<Rightarrow> ContentType" where
  "to_ContentType val =
     (if strcasecmp_eq val '''' then Unset
      else if str_contains val fu_content_type_unset then Unset
      else if str_contains val fu_content_type_vpack then VPack
      else if str_contains val fu_content_type_json then Json
      else if str_contains val fu_content_type_html then Html
      else if str_contains val fu_content_type_text then Text
      else if str_contains val fu_content_type_dump then Dump
      else Custom)"

fun to_string_ContentType :: "ContentType \<Rightarrow> string res" where
  "to_string_ContentType Unset = Inr fu_content_type_unset"
| "to_string_ContentType VPack = Inr fu_content_type_vpack"
| "to_string_ContentType Json = Inr fu_content_type_json"
| "to_string_ContentType Html = Inr fu_content_type_html"
| "to_string_ContentType Text = Inr fu_content_type_text"
| "to_string_ContentType Dump = Inr fu_content_type_dump"
| "to_string_ContentType Custom =
     Inl (Logic_error (''custom content type could take different '' @
                       ''values and is therefor not convertible to string''))"

section \<open>Authentication, versions, configuration\<close>

datatype AuthenticationType = None_Auth | Basic | Jwt

fun to_string_AuthenticationType :: "AuthenticationType \<Rightarrow> string" where
  "to_string_AuthenticationType None_Auth = ''none''"
| "to_string_AuthenticationType Basic = ''basic''"
| "to_string_AuthenticationType Jwt = ''jwt''"

datatype VSTVersion = VST1_0 | VST1_1

text \<open>\<open>c_onFailure\<close> says whether a failure callback is installed; what it does is the user's.\<close>

record ConnectionConfiguration =
  c_connType :: TransportType
  c_ssl :: bool
  c_host :: string
  c_port :: string
  c_authenticationType :: AuthenticationType
  c_user :: string
  c_password :: string
  c_maxChunkSize :: u64
  c_vstVersion :: VSTVersion
  c_onFailure :: bool

definition ConnectionConfiguration_default :: ConnectionConfiguration where
  "ConnectionConfiguration_default =
     \<lparr>c_connType = Vst, c_ssl = True, c_host = ''localhost'', c_port = '''',
      c_authenticationType = None_Auth, c_user = '''', c_password = '''',
      c_maxChunkSize = 5000, c_vstVersion = VST1_0, c_onFailure = False\<rparr>"

definition StatusOK :: StatusCode where "StatusOK = 200"
definition StatusCreated :: StatusCode where "StatusCreated = 201"
definition StatusAccepted :: StatusCode where "StatusAccepted = 202"
definition StatusBadRequest :: StatusCode where "StatusBadRequest = 400"
definition StatusUnauthorized :: StatusCode where "StatusUnauthorized = 401"
definition StatusForbidden :: StatusCode where "StatusForbidden = 403"
definition StatusNotFound :: StatusCode where "StatusNotFound = 404"
definition StatusMethodNotAllowed :: StatusCode where "StatusMethodNotAllowed = 405"
definition StatusConflict :: StatusCode where "StatusConflict = 409"

section \<open>Properties\<close>

lemma MessageType_cast [simp]: "MessageType_of_int (MessageType_to_int t) =
    (case t of Other_MessageType i \<Rightarrow> MessageType_of_int i | _ \<Rightarrow> t)"
  by (cases t) (simp_all add: MessageType_of_int_def)

lemma MessageType_to_of_int [simp]: "MessageType_to_int (MessageType_of_int i) = i"
  by (simp add: MessageType_of_int_def)

lemma RestVerb_cast [simp]: "RestVerb_of_int (RestVerb_to_int v) =
    (case v of Other_RestVerb i \<Rightarrow> RestVerb_of_int i | _ \<Rightarrow> v)"
  by (cases v) (simp_all add: RestVerb_of_int_def)

lemma RestVerb_to_of_int [simp]: "RestVerb_to_int (RestVerb_of_int i) = i"
  by (simp add: RestVerb_of_int_def)

lemma tolower_idem [simp]: "tolower (tolower c) = tolower c"
proof (cases "CHR ''A'' \<le> c \<and> c \<le> CHR ''Z''")
  case True
  then have "65 \<le> (of_char c :: nat)" and "of_char c \<le> (90::nat)"
    by (simp_all add: less_eq_char_def)
  then have "\<not> char_of (of_char c + (32::nat)) \<le> CHR ''Z''"
    by (simp add: less_eq_char_def)
  with True show ?thesis by (simp add: tolower_def)
next
  case False
  then show ?thesis by (auto simp: tolower_def)
qed

lemma c_str_map_tolower: "c_str (map tolower s) = map tolower (c_str s)"
proof (induction s)
  case Nil
  then show ?case by (simp add: c_str_def)
next
  case (Cons c s)
  have "tolower c = CHR 0x00 \<longleftrightarrow> c = CHR 0x00"
  proof
    assume *: "tolower c = CHR 0x00"
    show "c = CHR 0x00"
    proof (cases "CHR ''A'' \<le> c \<and> c \<le> CHR ''Z''")
      case True
      then have "(of_char c :: nat) \<le> 90"
        by (simp add: less_eq_char_def)
      moreover from * True have "of_char (char_of (of_char c + (32::nat))) = (0::nat)"
        by (simp add: tolower_def)
      ultimately show ?thesis by simp
    next
      case False
      with * show ?thesis by (auto simp: tolower_def)
    qed
  next
    assume "c = CHR 0x00"
    then show "tolower c = CHR 0x00" by (simp add: tolower_def less_eq_char_def)
  qed
  with Cons show ?case by (simp add: c_str_def)
qed

lemma strcasecmp_eq_lower [simp]: "strcasecmp_eq (map tolower s) q \<longleftrightarrow> strcasecmp_eq s q"
  by (simp add: strcasecmp_eq_def c_str_map_tolower comp_def)

lemma to_RestVerb_cong:
  "strcasecmp_eq s t \<Longrightarrow> to_RestVerb s = to_RestVerb t"
  by (simp add: to_RestVerb_def strcasecmp_eq_def c_str_map_tolower comp_def Let_def)

lemma to_RestVerb_to_string:
  "to_RestVerb (to_string_RestVerb v) = (case v of Other_RestVerb i \<Rightarrow> Illegal | _ \<Rightarrow> v)"
  by (cases v) (simp_all add: to_RestVerb_def strcasecmp_eq_def c_str_def tolower_def less_eq_char_def Let_def)

lemma to_ContentType_constants:
  "to_ContentType fu_content_type_unset = Unset"
  "to_ContentType fu_content_type_vpack = VPack"
  "to_ContentType fu_content_type_json = Json"
  "to_ContentType fu_content_type_html = Html"
  "to_ContentType fu_content_type_text = Text"
  "to_ContentType fu_content_type_dump = Dump"
  by code_simp+

lemma to_ContentType_to_string:
  "to_string_ContentType t = Inr s \<Longrightarrow> to_ContentType s = t"
  by (cases t) (auto simp: to_ContentType_constants)

lemma intToError_errorToInt: "e \<noteq> ErrorCastError \<or> \<not> devbuild \<Longrightarrow> intToError devbuild (errorToInt e) = Inr e"
  by (cases e) (simp_all add: intToError_def intToError_valid_def)

lemma intToError_release_total:
  "intToError False i = Inr e \<Longrightarrow> e = ErrorCastError \<or> errorToInt e = i"
  by (auto simp: intToError_def intToError_valid_def split: option.splits if_splits)

end
