(* ===== verification/Velocypack.thy ===== *)
theory Velocypack
  imports Types
begin

text \<open>
  The boundary to the VelocyPack library, which is not part of the repository. Every function of
  it that the sources call is a field of the record \<open>velocypack\<close>, and every definition that uses
  the library takes such a record as an argument. What the library documents about these
  functions is the predicate \<open>vpack_ok\<close>, the named hypothesis of the theorems that need it.

  A \<open>VBuffer\<close> is the vector of its bytes. A \<open>VSlice\<close> is a pointer into memory: it is modelled by
  the bytes from its start to the end of the memory block it points into, so that a read past
  that end is visible. The bytes of the slice itself are the first \<open>byteSize\<close> ones.
  A \<open>boost::asio::const_buffer\<close> is likewise a start pointer and a size.
\<close>

type_synonym VBuffer = "byte list"
type_synonym VSlice = "byte list"

text \<open>The calls the sources make on a \<open>VBuilder\<close>.\<close>

datatype vb_call =
    OpenArray | OpenObject | CloseCompound
  | AddInt int | AddUInt u32 | AddString string | AddKeyString string string

text \<open>
  \<^item> \<open>vp_byteSize\<close>: \<open>Slice::byteSize()\<close>, which throws on a value it does not know;
  \<^item> \<open>vp_validate\<close>: \<open>Validator::validate(ptr, length, isSubPart = true)\<close>;
  \<^item> \<open>vp_build\<close>: a \<open>Builder\<close> on an empty buffer, the calls in order, then \<open>buffer.toString()\<close>;
  \<^item> \<open>vp_builder_add\<close>: \<open>Builder::add(Slice)\<close> on a builder over the given buffer;
  \<^item> \<open>vp_resetTo\<close>: \<open>Buffer::resetTo(position)\<close>;
  \<^item> the others are the \<open>Slice\<close> accessors of the same names; \<open>vp_members\<close> is \<open>ObjectIterator\<close>.
\<close>

record velocypack =
  vp_byteSize :: "VSlice \<Rightarrow> nat res"
  vp_validate :: "byte list \<Rightarrow> unit res"
  vp_build :: "vb_call list \<Rightarrow> VBuffer"
  vp_builder_add :: "VBuffer \<Rightarrow> VSlice \<Rightarrow> VBuffer"
  vp_resetTo :: "VBuffer \<Rightarrow> nat \<Rightarrow> VBuffer"
  vp_isArray :: "VSlice \<Rightarrow> bool"
  vp_isObject :: "VSlice \<Rightarrow> bool"
  vp_length :: "VSlice \<Rightarrow> nat"
  vp_at :: "VSlice \<Rightarrow> nat \<Rightarrow> VSlice res"
  vp_getNumber_int :: "VSlice \<Rightarrow> int res"
  vp_getInt :: "VSlice \<Rightarrow> int res"
  vp_getUInt :: "VSlice \<Rightarrow> u64 res"
  vp_copyString :: "VSlice \<Rightarrow> string res"
  vp_members :: "VSlice \<Rightarrow> (VSlice \<times> VSlice) list"
  vp_toJson :: "VSlice \<Rightarrow> string res"

record const_buffer =
  cb_mem :: "byte list"
  cb_size :: nat

definition const_buffer_empty :: const_buffer where
  "const_buffer_empty = \<lparr>cb_mem = [], cb_size = 0\<rparr>"

text \<open>Reading all bytes of a buffer is undefined when it extends past its memory block.\<close>

definition buffer_bytes :: "const_buffer \<Rightarrow> byte list res" where
  "buffer_bytes b =
     (if cb_size b \<le> length (cb_mem b) then Inr (take (cb_size b) (cb_mem b))
      else Inl (Undefined ''read past the end of a buffer''))"

text \<open>
  What the library documents: its functions return, a value occupies at least one byte, its size depends on its own
  bytes only, \<open>Builder::add\<close> appends a copy of the slice, \<open>resetTo\<close> to the current size changes
  nothing, and a finished builder holds exactly one value.
\<close>

definition vpack_ok :: "velocypack \<Rightarrow> bool" where
  "vpack_ok L \<longleftrightarrow>
     (\<forall>s. vp_byteSize L s \<noteq> Inl No_return \<and> vp_validate L s \<noteq> Inl No_return) \<and>
     (\<forall>s n. vp_byteSize L s = Inr n \<longrightarrow> 0 < n) \<and>
     (\<forall>s n r. vp_byteSize L s = Inr n \<longrightarrow> n \<le> length s \<longrightarrow> vp_byteSize L (take n s @ r) = Inr n) \<and>
     (\<forall>b s n. vp_byteSize L s = Inr n \<longrightarrow> n \<le> length s \<longrightarrow> vp_builder_add L b s = b @ take n s) \<and>
     (\<forall>b. vp_resetTo L b (length b) = b) \<and>
     (\<forall>cs. vp_byteSize L (vp_build L cs) = Inr (length (vp_build L cs)))"

text \<open>A slice whose bytes all lie in its memory block, and those bytes.\<close>

definition slice_ok :: "velocypack \<Rightarrow> VSlice \<Rightarrow> bool" where
  "slice_ok L s = (case vp_byteSize L s of Inl _ \<Rightarrow> False | Inr n \<Rightarrow> n \<le> length s)"

definition slice_bytes :: "velocypack \<Rightarrow> VSlice \<Rightarrow> byte list" where
  "slice_bytes L s = (case vp_byteSize L s of Inl _ \<Rightarrow> [] | Inr n \<Rightarrow> take n s)"

text \<open>A concrete library for examples: the first byte of a value is its size (at least 1).\<close>

definition size_byte :: "byte list \<Rightarrow> nat res" where
  "size_byte s =
     (case s of [] \<Rightarrow> Inl (Vpack_exception ''empty'') | b # _ \<Rightarrow> Inr (if b = 0 then 1 else unat b))"

definition sized_vpack :: velocypack where
  "sized_vpack =
     \<lparr>vp_byteSize = size_byte,
      vp_validate = (\<lambda>s. Inr ()),
      vp_build = (\<lambda>cs. 2 # [of_nat (length cs)]),
      vp_builder_add = (\<lambda>b s. case size_byte s of Inl _ \<Rightarrow> b | Inr n \<Rightarrow> b @ take n s),
      vp_resetTo = (\<lambda>b n. take n b),
      vp_isArray = (\<lambda>s. True),
      vp_isObject = (\<lambda>s. True),
      vp_length = (\<lambda>s. 3),
      vp_at = (\<lambda>s i. Inr (drop i s)),
      vp_getNumber_int = (\<lambda>s. Inr 2),
      vp_getInt = (\<lambda>s. Inr 1),
      vp_getUInt = (\<lambda>s. Inr 200),
      vp_copyString = (\<lambda>s. Inr (map (\<lambda>b. char_of (unat b)) s)),
      vp_members = (\<lambda>s. []),
      vp_toJson = (\<lambda>s. Inr ''{}'')\<rparr>"

section \<open>Lemmas\<close>

lemma vpack_okD:
  assumes "vpack_ok L"
  shows vpack_size_pos: "vp_byteSize L s = Inr n \<Longrightarrow> 0 < n"
    and vpack_size_prefix:
      "vp_byteSize L s = Inr n \<Longrightarrow> n \<le> length s \<Longrightarrow> vp_byteSize L (take n s @ r) = Inr n"
    and vpack_builder_add:
      "vp_byteSize L s = Inr n \<Longrightarrow> n \<le> length s \<Longrightarrow> vp_builder_add L b s = b @ take n s"
    and vpack_returns: "vp_byteSize L s \<noteq> Inl No_return" "vp_validate L s \<noteq> Inl No_return"
    and vpack_resetTo: "vp_resetTo L b (length b) = b"
    and vpack_build_size: "vp_byteSize L (vp_build L cs) = Inr (length (vp_build L cs))"
  using assms by (auto simp: vpack_ok_def)

lemma slice_okE:
  assumes "slice_ok L s"
  obtains n where "vp_byteSize L s = Inr n" and "n \<le> length s" and "slice_bytes L s = take n s"
  using assms by (auto simp: slice_ok_def slice_bytes_def split: sum.splits)

lemma slice_bytes_nonempty: "vpack_ok L \<Longrightarrow> slice_ok L s \<Longrightarrow> slice_bytes L s \<noteq> []"
  using vpack_size_pos by (elim slice_okE) fastforce

lemma slice_size_bytes:
  "slice_ok L s \<Longrightarrow> vp_byteSize L s = Inr (length (slice_bytes L s))"
  by (elim slice_okE) simp

lemma slice_bytes_append:
  "vpack_ok L \<Longrightarrow> slice_ok L s \<Longrightarrow>
     slice_ok L (slice_bytes L s @ r) \<and> slice_bytes L (slice_bytes L s @ r) = slice_bytes L s"
  by (elim slice_okE) (simp add: slice_ok_def slice_bytes_def vpack_size_prefix)

lemma slice_size_append:
  assumes "vpack_ok L" and "slice_ok L s"
  shows "vp_byteSize L (slice_bytes L s @ r) = Inr (length (slice_bytes L s))"
  using slice_bytes_append [OF assms, of r] slice_size_bytes [of L "slice_bytes L s @ r"] by simp

lemma slice_length_pos: "vpack_ok L \<Longrightarrow> slice_ok L s \<Longrightarrow> 0 < length (slice_bytes L s)"
  by (simp add: slice_bytes_nonempty)

lemma slice_ok_build: "vpack_ok L \<Longrightarrow> slice_ok L (vp_build L cs)"
  by (simp add: slice_ok_def vpack_build_size)

lemma slice_bytes_build: "vpack_ok L \<Longrightarrow> slice_bytes L (vp_build L cs) = vp_build L cs"
  by (simp add: slice_bytes_def vpack_build_size)

lemma builder_add_slice:
  "vpack_ok L \<Longrightarrow> slice_ok L s \<Longrightarrow> vp_builder_add L b s = b @ slice_bytes L s"
  by (elim slice_okE) (simp add: vpack_builder_add)

lemma buffer_bytes_full [simp]: "buffer_bytes \<lparr>cb_mem = m, cb_size = length m\<rparr> = Inr m"
  by (simp add: buffer_bytes_def)

lemma sized_vpack_simps [simp]:
  "vp_byteSize sized_vpack = size_byte"
  "vp_validate sized_vpack bs = Inr ()"
  "vp_build sized_vpack cs = [2, of_nat (length cs)]"
  "vp_resetTo sized_vpack b n = take n b"
  by (simp_all add: sized_vpack_def)

lemma sized_vpack_ok: "vpack_ok sized_vpack"
  unfolding vpack_ok_def
proof (intro conjI allI impI)
  fix s n r
  assume "vp_byteSize sized_vpack s = Inr n" and "n \<le> length s"
  then show "vp_byteSize sized_vpack (take n s @ r) = Inr n"
    by (cases s; cases n) (auto simp: sized_vpack_def size_byte_def unat_eq_zero split: if_splits)
qed (auto simp: sized_vpack_def size_byte_def unat_gt_0 split: list.splits if_splits)

end
