(* ===== verification/Message.thy ===== *)
theory Message
  imports Velocypack
begin

text \<open>
  \<open>src/include/fuerte/message.h\<close> and \<open>src/src/message.cpp\<close>: the message header, requests and
  responses with their payloads. \<open>checked\<close> is \<open>FUERTE_CHECKED_MODE\<close>, in which a request validates the
  VelocyPack it is given with \<open>validateAndCount\<close> of \<open>src/src/vst.cpp\<close>; that function is defined here
  because the message code calls it.
\<close>

definition fu_content_type_key :: string where
  "fu_content_type_key = ''content-type''"
definition fu_accept_key :: string where
  "fu_accept_key = ''accept''"

record MessageHeader =
  h_version :: "int option"
  h_type :: "MessageType option"
  h_responseCode :: "StatusCode option"
  h_database :: "string option"
  h_restVerb :: "RestVerb option"
  h_path :: "string option"
  h_parameters :: "StringMap option"
  h_meta :: "StringMap option"
  h_encryption :: "string option"
  h_user :: "string option"
  h_password :: "string option"
  h_token :: "string option"
  h_byteSize :: "nat option"

definition MessageHeader_new :: MessageHeader where
  "MessageHeader_new =
     \<lparr>h_version = None, h_type = None, h_responseCode = None, h_database = None, h_restVerb = None,
      h_path = None, h_parameters = None, h_meta = None, h_encryption = None, h_user = None,
      h_password = None, h_token = None, h_byteSize = None\<rparr>"

section \<open>Header accessors\<close>

definition addParameter :: "string \<Rightarrow> string \<Rightarrow> MessageHeader \<Rightarrow> MessageHeader" where
  "addParameter key value h =
     (let ps = (case h_parameters h of None \<Rightarrow> [] | Some m \<Rightarrow> m)
      in h\<lparr>h_parameters := Some (map_assign key value ps)\<rparr>)"

definition addMeta :: "string \<Rightarrow> string \<Rightarrow> MessageHeader \<Rightarrow> MessageHeader" where
  "addMeta key value h =
     (let ms = (case h_meta h of None \<Rightarrow> [] | Some m \<Rightarrow> m)
      in h\<lparr>h_meta := Some (map_assign key value ms)\<rparr>)"

definition metaByKey :: "MessageHeader \<Rightarrow> string \<Rightarrow> string" where
  "metaByKey h key =
     (case h_meta h of
        None \<Rightarrow> ''''
      | Some hmap \<Rightarrow> (case map_find hmap key of None \<Rightarrow> '''' | Some v \<Rightarrow> v))"

definition contentTypeString :: "MessageHeader \<Rightarrow> string" where
  "contentTypeString h = metaByKey h fu_content_type_key"

definition contentType :: "MessageHeader \<Rightarrow> ContentType" where
  "contentType h = to_ContentType (contentTypeString h)"

definition set_contentTypeString :: "string \<Rightarrow> MessageHeader \<Rightarrow> MessageHeader" where
  "set_contentTypeString t h = addMeta fu_content_type_key t h"

definition set_contentType :: "ContentType \<Rightarrow> MessageHeader \<Rightarrow> MessageHeader res" where
  "set_contentType t h =
     bind_res (to_string_ContentType t) (\<lambda>s. Inr (set_contentTypeString s h))"

definition acceptTypeString :: "MessageHeader \<Rightarrow> string" where
  "acceptTypeString h = metaByKey h fu_accept_key"

definition acceptType :: "MessageHeader \<Rightarrow> ContentType" where
  "acceptType h = to_ContentType (acceptTypeString h)"

definition set_acceptTypeString :: "string \<Rightarrow> MessageHeader \<Rightarrow> MessageHeader" where
  "set_acceptTypeString t h = addMeta fu_accept_key t h"

definition set_acceptType :: "ContentType \<Rightarrow> MessageHeader \<Rightarrow> MessageHeader res" where
  "set_acceptType t h =
     bind_res (to_string_ContentType t) (\<lambda>s. Inr (set_acceptTypeString s h))"

definition show_line :: "string \<Rightarrow> ('a \<Rightarrow> string) \<Rightarrow> 'a option \<Rightarrow> string" where
  "show_line label f x = (case x of None \<Rightarrow> '''' | Some v \<Rightarrow> label @ f v @ endl)"

definition to_string_MessageHeader :: "MessageHeader \<Rightarrow> string" where
  "to_string_MessageHeader h =
     show_line ''byteSize: '' show_nat (h_byteSize h) @
     show_line ''version: '' show_int (h_version h) @
     show_line ''type: '' (\<lambda>t. show_int (MessageType_to_int t)) (h_type h) @
     show_line ''responseCode: '' (\<lambda>c. show_nat (unat c)) (h_responseCode h) @
     show_line ''database: '' id (h_database h) @
     show_line ''restVerb: '' to_string_RestVerb (h_restVerb h) @
     show_line ''path: '' id (h_path h) @
     show_line ''parameters: ''
       (\<lambda>m. concat (map (\<lambda>(k, v). k @ '' -:- '' @ v @ endl) m)) (h_parameters h) @
     show_line (''meta:'' @ endl)
       (\<lambda>m. concat (map (\<lambda>(k, v). [CHR 0x09] @ k @ '' -:- '' @ v @ endl) m)) (h_meta h) @
     show_line ''user: '' id (h_user h) @
     show_line ''password: '' id (h_password h) @
     ''contentType: '' @ contentTypeString h @ endl"

section \<open>Validation of a VelocyPack buffer\<close>

fun exn_what :: "exn \<Rightarrow> string" where
  "exn_what (Logic_error s) = s"
| "exn_what (Runtime_error s) = s"
| "exn_what (Invalid_argument s) = s"
| "exn_what (Length_error s) = s"
| "exn_what (Overflow_error s) = s"
| "exn_what (Out_of_range s) = s"
| "exn_what (Vpack_exception s) = s"
| "exn_what e = ''''"

definition body_error :: "exn \<Rightarrow> exn" where
  "body_error e = Runtime_error (''error during validation of incoming VPack (body)'' @ exn_what e)"

text \<open>The loop runs at most once per byte unless a slice has size 0; then it runs forever.\<close>

fun validate_loop :: "velocypack \<Rightarrow> nat \<Rightarrow> byte list \<Rightarrow> nat \<Rightarrow> nat res" where
  "validate_loop L 0 cursor numPayloads = Inl No_return"
| "validate_loop L (Suc fuel) cursor numPayloads =
     (if cursor = [] then Inr numPayloads
      else case bind_res (vp_validate L cursor) (\<lambda>_. vp_byteSize L cursor) of
        Inl e \<Rightarrow> Inl (body_error e)
      | Inr sliceSize \<Rightarrow>
          (if length cursor < sliceSize
           then Inl (body_error (Length_error ''slice is longer than buffer''))
           else validate_loop L fuel (drop sliceSize cursor) (Suc numPayloads)))"

definition validateAndCount :: "velocypack \<Rightarrow> byte list \<Rightarrow> nat res" where
  "validateAndCount L vpStart = validate_loop L (Suc (length vpStart)) vpStart 0"

text \<open>The loop that \<open>Request::slices\<close> and \<open>Response::slices\<close> share.\<close>

fun slices_loop :: "velocypack \<Rightarrow> nat \<Rightarrow> byte list \<Rightarrow> VSlice list res" where
  "slices_loop L 0 cursor = Inl No_return"
| "slices_loop L (Suc fuel) cursor =
     (if cursor = [] then Inr []
      else bind_res (vp_byteSize L cursor) (\<lambda>sliceSize.
        if length cursor < sliceSize then Inl (Logic_error ''invalid buffer'')
        else bind_res (slices_loop L fuel (drop sliceSize cursor)) (\<lambda>rest. Inr (cursor # rest))))"

section \<open>Requests\<close>

text \<open>\<open>r_builder\<close> says whether \<open>_builder\<close> has been created; the timeout is in milliseconds.\<close>

record Request =
  r_header :: MessageHeader
  r_messageID :: MessageID
  r_payload :: VBuffer
  r_sealed :: bool
  r_modified :: bool
  r_isVpack :: "bool option"
  r_builder :: bool
  r_slices :: "VSlice list"
  r_payloadLength :: nat
  r_timeout :: int

definition Request_defaultTimeout :: int where
  "Request_defaultTimeout = 30 * 1000"

text \<open>The constructor of the base class \<open>Message\<close>, on the header it initialises.\<close>

definition Message_header :: "MessageHeader \<Rightarrow> StringMap \<Rightarrow> MessageHeader" where
  "Message_header h headerStrings =
     (if headerStrings \<noteq> [] then h\<lparr>h_meta := Some headerStrings\<rparr> else h)"

definition Request_new :: "MessageHeader \<Rightarrow> StringMap \<Rightarrow> Request" where
  "Request_new h headerStrings =
     \<lparr>r_header = (Message_header h headerStrings)\<lparr>h_type := Some Request_Type\<rparr>,
      r_messageID = 123456789, r_payload = [], r_sealed = False, r_modified = True,
      r_isVpack = None, r_builder = False, r_slices = [], r_payloadLength = 0,
      r_timeout = Request_defaultTimeout\<rparr>"

definition Request_contentType :: "ContentType \<Rightarrow> Request \<Rightarrow> Request res" where
  "Request_contentType t r =
     bind_res (set_contentType t (r_header r)) (\<lambda>h. Inr (r\<lparr>r_header := h\<rparr>))"

definition Request_acceptType :: "ContentType \<Rightarrow> Request \<Rightarrow> Request res" where
  "Request_acceptType t r =
     bind_res (set_acceptType t (r_header r)) (\<lambda>h. Inr (r\<lparr>r_header := h\<rparr>))"

definition wrong_type :: exn where
  "wrong_type = Logic_error ''Message is sealed or of wrong type (vst/binary)''"

definition checked_validate :: "bool \<Rightarrow> velocypack \<Rightarrow> byte list res \<Rightarrow> unit res" where
  "checked_validate checked L bs =
     (if checked then bind_res bs (\<lambda>b. bind_res (validateAndCount L b) (\<lambda>_. Inr ())) else Inr ())"

definition addVPack_slice :: "bool \<Rightarrow> velocypack \<Rightarrow> VSlice \<Rightarrow> Request \<Rightarrow> Request res" where
  "addVPack_slice checked L sl r =
     bind_res (checked_validate checked L
       (bind_res (vp_byteSize L sl) (\<lambda>n. buffer_bytes \<lparr>cb_mem = sl, cb_size = n\<rparr>))) (\<lambda>_.
     if r_sealed r \<or> r_isVpack r = Some False then Inl wrong_type
     else
       bind_res (Request_contentType VPack (r\<lparr>r_builder := True\<rparr>)) (\<lambda>r.
       bind_res (vp_byteSize L sl) (\<lambda>size.
       let len = r_payloadLength r + size
       in Inr (r\<lparr>r_isVpack := Some True, r_modified := True, r_payloadLength := len,
                 r_payload := vp_resetTo L (vp_builder_add L (r_payload r) sl) len\<rparr>))))"

text \<open>
  \<open>addVPack(VBuffer const&)\<close>: the loop takes the size of each slice from \<open>_slices.back()\<close>, which
  is undefined when no slices were computed before.
\<close>

fun addVPack_loop :: "velocypack \<Rightarrow> nat \<Rightarrow> byte list \<Rightarrow> Request \<Rightarrow> Request res" where
  "addVPack_loop L 0 cursor r = Inl No_return"
| "addVPack_loop L (Suc fuel) cursor r =
     (if cursor = [] then Inr r
      else if r_slices r = [] then Inl (Undefined ''back() of an empty vector'')
      else bind_res (vp_byteSize L (last (r_slices r))) (\<lambda>sliceSize.
        let p = vp_builder_add L (r_payload r) cursor; len = r_payloadLength r + sliceSize
        in if length cursor < sliceSize then Inl (Logic_error ''invalid buffer'')
           else addVPack_loop L fuel (drop sliceSize cursor)
                  (r\<lparr>r_payloadLength := len, r_payload := vp_resetTo L p len\<rparr>)))"

definition addVPack_buffer :: "bool \<Rightarrow> velocypack \<Rightarrow> VBuffer \<Rightarrow> Request \<Rightarrow> Request res" where
  "addVPack_buffer checked L buffer r =
     bind_res (checked_validate checked L (Inr buffer)) (\<lambda>_.
     if r_sealed r \<or> r_isVpack r = Some False then Inl wrong_type
     else
       bind_res (Request_contentType VPack (r\<lparr>r_isVpack := Some True\<rparr>)) (\<lambda>r.
       addVPack_loop L (Suc (length buffer)) buffer (r\<lparr>r_modified := True, r_builder := True\<rparr>)))"

definition addVPack_move :: "bool \<Rightarrow> velocypack \<Rightarrow> VBuffer \<Rightarrow> Request \<Rightarrow> Request res" where
  "addVPack_move checked L buffer r =
     bind_res (checked_validate checked L (Inr buffer)) (\<lambda>_.
     if r_sealed r \<or> r_isVpack r \<noteq> None then Inl wrong_type
     else
       bind_res (Request_contentType VPack r) (\<lambda>r.
       let len = r_payloadLength r + length buffer
       in Inr (r\<lparr>r_isVpack := Some True, r_sealed := True, r_modified := True,
                 r_payloadLength := len, r_payload := vp_resetTo L buffer len\<rparr>)))"

definition addBinary :: "velocypack \<Rightarrow> byte list \<Rightarrow> Request \<Rightarrow> Request" where
  "addBinary L data r =
     (if r_sealed r \<or> r_isVpack r = Some True then r
      else
        let len = r_payloadLength r + length data
        in r\<lparr>r_isVpack := Some False, r_modified := True, r_payloadLength := len,
             r_payload := vp_resetTo L (r_payload r @ data) len\<rparr>)"

definition addBinarySingle :: "velocypack \<Rightarrow> VBuffer \<Rightarrow> Request \<Rightarrow> Request" where
  "addBinarySingle L buffer r =
     (if r_sealed r \<or> r_isVpack r = Some True then r
      else
        let len = r_payloadLength r + length buffer
        in r\<lparr>r_isVpack := Some False, r_sealed := True, r_modified := True,
             r_payloadLength := len, r_payload := vp_resetTo L buffer len\<rparr>)"

text \<open>\<open>Request::slices\<close> tests whether \<open>_isVpack\<close> is engaged, not the value it holds.\<close>

definition Request_slices :: "velocypack \<Rightarrow> Request \<Rightarrow> (VSlice list \<times> Request) res" where
  "Request_slices L r =
     (if r_isVpack r \<noteq> None \<and> r_modified r
      then bind_res (slices_loop L (Suc (length (r_payload r))) (r_payload r)) (\<lambda>ss.
             Inr (ss, r\<lparr>r_slices := ss, r_modified := False\<rparr>))
      else Inr (r_slices r, r))"

definition Request_payload :: "Request \<Rightarrow> const_buffer" where
  "Request_payload r = \<lparr>cb_mem = r_payload r, cb_size = r_payloadLength r\<rparr>"

definition set_timeout :: "int \<Rightarrow> Request \<Rightarrow> Request" where
  "set_timeout t r = r\<lparr>r_timeout := t\<rparr>"

section \<open>Responses\<close>

text \<open>The constructor leaves \<open>_payloadOffset\<close> uninitialised: \<open>s_payloadOffset\<close> is then \<open>None\<close>.\<close>

record Response =
  s_header :: MessageHeader
  s_messageID :: MessageID
  s_payload :: VBuffer
  s_payloadOffset :: "nat option"
  s_slices :: "VSlice list"

definition Response_new :: "MessageHeader \<Rightarrow> StringMap \<Rightarrow> Response" where
  "Response_new h headerStrings =
     \<lparr>s_header = (Message_header h headerStrings)\<lparr>h_type := Some Response_Type\<rparr>,
      s_messageID = 123456789, s_payload = [], s_payloadOffset = None, s_slices = []\<rparr>"

definition statusCode :: "Response \<Rightarrow> StatusCode" where
  "statusCode s = (case h_responseCode (s_header s) of None \<Rightarrow> 0 | Some c \<Rightarrow> c)"

definition checkStatus :: "Response \<Rightarrow> StatusCode list \<Rightarrow> bool" where
  "checkStatus s validStatusCodes = (statusCode s \<in> set validStatusCodes)"

definition assertStatus :: "Response \<Rightarrow> StatusCode list \<Rightarrow> unit res" where
  "assertStatus s validStatusCodes =
     check (checkStatus s validStatusCodes)
       (Runtime_error (''invalid status '' @ show_nat (unat (statusCode s))))"

definition isContentTypeJSON :: "Response \<Rightarrow> bool" where
  "isContentTypeJSON s = (contentType (s_header s) = Json)"
definition isContentTypeVPack :: "Response \<Rightarrow> bool" where
  "isContentTypeVPack s = (contentType (s_header s) = VPack)"
definition isContentTypeHtml :: "Response \<Rightarrow> bool" where
  "isContentTypeHtml s = (contentType (s_header s) = Html)"
definition isContentTypeText :: "Response \<Rightarrow> bool" where
  "isContentTypeText s = (contentType (s_header s) = Text)"

definition payload_offset :: "Response \<Rightarrow> nat res" where
  "payload_offset s =
     (case s_payloadOffset s of
        None \<Rightarrow> Inl (Undefined ''_payloadOffset is not initialised'')
      | Some off \<Rightarrow> Inr off)"

definition Response_slices :: "velocypack \<Rightarrow> Response \<Rightarrow> (VSlice list \<times> Response) res" where
  "Response_slices L s =
     (if s_slices s = [] then
        bind_res (payload_offset s) (\<lambda>off.
        if length (s_payload s) < off then Inl (Undefined ''read past the end of a buffer'')
        else
          bind_res (slices_loop L (Suc (length (drop off (s_payload s)))) (drop off (s_payload s))) (\<lambda>ss.
          Inr (ss, s\<lparr>s_slices := ss\<rparr>)))
      else Inr (s_slices s, s))"

definition Response_payload :: "Response \<Rightarrow> const_buffer res" where
  "Response_payload s =
     bind_res (payload_offset s) (\<lambda>off.
     Inr \<lparr>cb_mem = drop off (s_payload s), cb_size = length (s_payload s)\<rparr>)"

definition setPayload :: "VBuffer \<Rightarrow> nat \<Rightarrow> Response \<Rightarrow> Response" where
  "setPayload buffer payloadOffset s =
     s\<lparr>s_slices := [], s_payloadOffset := Some payloadOffset, s_payload := buffer\<rparr>"

definition bytes_to_string :: "byte list \<Rightarrow> string" where
  "bytes_to_string bs = map (\<lambda>b. char_of (unat b)) bs"

definition payloadAsString :: "const_buffer \<Rightarrow> string res" where
  "payloadAsString p = bind_res (buffer_bytes p) (\<lambda>bs. Inr (bytes_to_string bs))"

text \<open>A client that adds several slices, one \<open>addVPack\<close> call after the other.\<close>

fun addVPack_all :: "bool \<Rightarrow> velocypack \<Rightarrow> VSlice list \<Rightarrow> Request \<Rightarrow> Request res" where
  "addVPack_all checked L [] r = Inr r"
| "addVPack_all checked L (sl # sls) r =
     bind_res (addVPack_slice checked L sl r) (addVPack_all checked L sls)"

text \<open>
  The invariant of a request whose payload was added with \<open>addVPack\<close> or \<open>addBinary\<close>: the
  separately tracked length is the length of the payload, and an untyped request is empty.
\<close>

definition request_inv :: "Request \<Rightarrow> bool" where
  "request_inv r \<longleftrightarrow>
     r_payloadLength r = length (r_payload r) \<and> (r_isVpack r = None \<longrightarrow> r_payload r = [])"

section \<open>Header lemmas\<close>

definition header_inv :: "MessageHeader \<Rightarrow> bool" where
  "header_inv h \<longleftrightarrow> (\<forall>m. h_meta h = Some m \<longrightarrow> map_inv m) \<and> (\<forall>m. h_parameters h = Some m \<longrightarrow> map_inv m)"

lemma header_inv_new [inv_intros]: "header_inv MessageHeader_new"
  by (simp add: header_inv_def MessageHeader_new_def)

lemma header_inv_addMeta [inv_intros]: "header_inv h \<Longrightarrow> header_inv (addMeta k v h)"
  by (auto simp: header_inv_def addMeta_def split: option.splits)

lemma header_inv_addParameter [inv_intros]: "header_inv h \<Longrightarrow> header_inv (addParameter k v h)"
  by (auto simp: header_inv_def addParameter_def split: option.splits)

lemma metaByKey_addMeta:
  assumes "header_inv h"
  shows "metaByKey (addMeta k v h) k' = (if k' = k then v else metaByKey h k')"
proof (cases "h_meta h")
  case None
  then show ?thesis by (simp add: metaByKey_def addMeta_def map_find_def)
next
  case (Some m)
  with assms have "map_inv m" by (simp add: header_inv_def)
  with Some show ?thesis by (simp add: metaByKey_def addMeta_def std.find_assign)
qed

lemma set_contentType_Inr:
  "set_contentType t h = Inr h' \<longleftrightarrow> (\<exists>s. to_string_ContentType t = Inr s \<and> h' = addMeta fu_content_type_key s h)"
  by (auto simp: set_contentType_def set_contentTypeString_def)

lemma Request_contentType_VPack [simp]:
  "Request_contentType VPack r =
     Inr (r\<lparr>r_header := addMeta fu_content_type_key fu_content_type_vpack (r_header r)\<rparr>)"
  by (simp add: Request_contentType_def set_contentType_def set_contentTypeString_def)

section \<open>Walking over the slices of a buffer\<close>

text \<open>The slices at the starts of consecutive values: each extends to the end of the buffer.\<close>

fun slice_tails :: "velocypack \<Rightarrow> VSlice list \<Rightarrow> VSlice list" where
  "slice_tails L [] = []"
| "slice_tails L (s # ss) = concat (map (slice_bytes L) (s # ss)) # slice_tails L ss"

lemma slice_tails_bytes:
  "vpack_ok L \<Longrightarrow> \<forall>s \<in> set ss. slice_ok L s \<Longrightarrow>
     map (slice_bytes L) (slice_tails L ss) = map (slice_bytes L) ss \<and>
     (\<forall>t \<in> set (slice_tails L ss). slice_ok L t)"
  by (induction ss) (auto simp: slice_bytes_append)

lemma slices_loop_concat:
  "vpack_ok L \<Longrightarrow> \<forall>s \<in> set ss. slice_ok L s \<Longrightarrow> length (concat (map (slice_bytes L) ss)) < fuel \<Longrightarrow>
     slices_loop L fuel (concat (map (slice_bytes L) ss)) = Inr (slice_tails L ss)"
proof (induction ss arbitrary: fuel)
  case Nil
  then show ?case by (cases fuel) auto
next
  case (Cons s ss)
  let ?rest = "concat (map (slice_bytes L) ss)"
  from Cons.prems obtain f where f: "fuel = Suc f" by (cases fuel) auto
  have sl: "slice_ok L s" using Cons.prems by simp
  have "length (slice_bytes L s) + length ?rest < Suc f"
    using Cons.prems f by simp
  with slice_length_pos [OF Cons.prems(1) sl] have "length ?rest < f" by linarith
  with Cons have IH: "slices_loop L f ?rest = Inr (slice_tails L ss)" by simp
  with f show ?case
    using slice_size_append [OF Cons.prems(1) sl] slice_bytes_nonempty [OF Cons.prems(1) sl] by simp
qed

lemma slices_loop_Inr:
  "slices_loop L fuel bs = Inr out \<Longrightarrow>
     (\<forall>s \<in> set out. slice_ok L s) \<and> bs = concat (map (slice_bytes L) out)"
proof (induction L fuel bs arbitrary: out rule: slices_loop.induct)
  case (2 L fuel cursor)
  show ?case
  proof (cases "cursor = []")
    case False
    with 2 obtain n rest where n: "vp_byteSize L cursor = Inr n" "n \<le> length cursor"
      and rest: "slices_loop L fuel (drop n cursor) = Inr rest" and out: "out = cursor # rest"
      by (auto split: if_splits)
    from "2.IH" [OF False _ rest] n have
      IH: "\<forall>s \<in> set rest. slice_ok L s" "drop n cursor = concat (map (slice_bytes L) rest)"
      by auto
    have "cursor = take n cursor @ drop n cursor" by simp
    moreover have "slice_ok L cursor" and "slice_bytes L cursor = take n cursor"
      using n by (simp_all add: slice_ok_def slice_bytes_def)
    ultimately show ?thesis using out IH by simp
  qed (use 2 in auto)
qed simp

lemma slices_loop_returns:
  "vpack_ok L \<Longrightarrow> length bs < fuel \<Longrightarrow> slices_loop L fuel bs \<noteq> Inl No_return"
proof (induction fuel arbitrary: bs)
  case (Suc fuel)
  have "k \<noteq> 0" if "vp_byteSize L bs = Inr k" for k
    using vpack_size_pos [OF Suc.prems(1) that] by simp
  with Suc vpack_returns [OF Suc.prems(1)] show ?case
    by (auto simp: bind_res_eq_Inl)
qed simp

lemma validate_loop_concat:
  "vpack_ok L \<Longrightarrow> \<forall>s \<in> set ss. slice_ok L s \<Longrightarrow> (\<And>bs. vp_validate L bs = Inr ()) \<Longrightarrow>
     length (concat (map (slice_bytes L) ss)) < fuel \<Longrightarrow>
     validate_loop L fuel (concat (map (slice_bytes L) ss)) n = Inr (n + length ss)"
proof (induction ss arbitrary: fuel n)
  case Nil
  then show ?case by (cases fuel) auto
next
  case (Cons s ss)
  let ?rest = "concat (map (slice_bytes L) ss)"
  from Cons.prems obtain f where f: "fuel = Suc f" by (cases fuel) auto
  have sl: "slice_ok L s" using Cons.prems by simp
  have "length (slice_bytes L s) + length ?rest < Suc f"
    using Cons.prems f by simp
  with slice_length_pos [OF Cons.prems(1) sl] have "length ?rest < f" by linarith
  with Cons have IH: "validate_loop L f ?rest (Suc n) = Inr (Suc n + length ss)" by simp
  with f Cons.prems(3) show ?case
    using slice_size_append [OF Cons.prems(1) sl] slice_bytes_nonempty [OF Cons.prems(1) sl] by simp
qed

lemma validate_loop_Inr:
  "validate_loop L fuel bs n = Inr m \<Longrightarrow>
     \<exists>ss. m = n + length ss \<and> (\<forall>s \<in> set ss. slice_ok L s) \<and> bs = concat (map (slice_bytes L) ss)"
proof (induction fuel arbitrary: bs n)
  case (Suc fuel)
  show ?case
  proof (cases "bs = []")
    case True
    with Suc.prems show ?thesis by (intro exI [of _ "[]"]) simp
  next
    case False
    with Suc.prems obtain k where k: "vp_byteSize L bs = Inr k" "k \<le> length bs"
      and rest: "validate_loop L fuel (drop k bs) (Suc n) = Inr m"
      by (auto split: sum.splits if_splits)
    from Suc.IH [OF rest] obtain ss where ss: "m = Suc n + length ss" "\<forall>s \<in> set ss. slice_ok L s"
        "drop k bs = concat (map (slice_bytes L) ss)"
      by blast
    have "bs = take k bs @ drop k bs" by simp
    with k ss have "bs = concat (map (slice_bytes L) (bs # ss))"
      by (simp add: slice_bytes_def)
    with k ss show ?thesis
      by (intro exI [of _ "bs # ss"]) (simp add: slice_ok_def)
  qed
qed simp

lemma validate_loop_returns:
  "vpack_ok L \<Longrightarrow> length bs < fuel \<Longrightarrow> validate_loop L fuel bs n \<noteq> Inl No_return"
proof (induction fuel arbitrary: bs n)
  case (Suc fuel)
  have "k \<noteq> 0" if "vp_byteSize L bs = Inr k" for k
    using vpack_size_pos [OF Suc.prems(1) that] by simp
  with Suc show ?case
    by (auto simp: body_error_def split: sum.splits)
qed simp

section \<open>Requests\<close>

lemma request_inv_new [inv_intros]: "request_inv (Request_new h hs)"
  by (simp add: request_inv_def Request_new_def)

lemma addVPack_slice_ok:
  assumes "vpack_ok L" and "slice_ok L sl" and "request_inv r"
    and "checked_validate checked L (Inr (slice_bytes L sl)) = Inr ()"
    and "\<not> r_sealed r" and "r_isVpack r \<noteq> Some False"
  shows "\<exists>r'. addVPack_slice checked L sl r = Inr r' \<and> request_inv r' \<and>
           r_payload r' = r_payload r @ slice_bytes L sl \<and> r_isVpack r' = Some True \<and>
           r_modified r' \<and> \<not> r_sealed r'"
proof -
  obtain n where n: "vp_byteSize L sl = Inr n" "n \<le> length sl" "slice_bytes L sl = take n sl"
    using assms(2) by (rule slice_okE)
  have len: "length (r_payload r @ slice_bytes L sl) = r_payloadLength r + n"
    using n assms(3) by (simp add: request_inv_def)
  have "vp_resetTo L (vp_builder_add L (r_payload r) sl) (r_payloadLength r + n) = r_payload r @ slice_bytes L sl"
    using vpack_resetTo [OF assms(1), of "r_payload r @ slice_bytes L sl"] builder_add_slice [OF assms(1,2)] len
    by simp
  with n assms len show ?thesis
    by (auto simp: addVPack_slice_def request_inv_def buffer_bytes_def Let_def)
qed

lemma request_inv_addVPack_move [inv_intros]:
  "vpack_ok L \<Longrightarrow> request_inv r \<Longrightarrow> addVPack_move checked L b r = Inr r' \<Longrightarrow> request_inv r' \<and> r_payload r' = b"
  by (auto simp: addVPack_move_def request_inv_def Let_def vpack_resetTo split: if_splits)

lemma request_inv_addBinary [inv_intros]:
  assumes "vpack_ok L" and "request_inv r"
  shows "request_inv (addBinary L d r)"
  using assms vpack_resetTo [OF assms(1), of "r_payload r @ d"]
  by (auto simp: addBinary_def request_inv_def Let_def)

lemma addVPack_all_ok:
  assumes "vpack_ok L" and "\<forall>s \<in> set ss. slice_ok L s" and "request_inv r"
    and "\<forall>s \<in> set ss. checked_validate checked L (Inr (slice_bytes L s)) = Inr ()"
    and "\<not> r_sealed r" and "r_isVpack r \<noteq> Some False"
  shows "\<exists>r'. addVPack_all checked L ss r = Inr r' \<and> request_inv r' \<and>
           r_payload r' = r_payload r @ concat (map (slice_bytes L) ss) \<and>
           (ss \<noteq> [] \<longrightarrow> r_isVpack r' = Some True \<and> r_modified r')"
  using assms(2-)
proof (induction ss arbitrary: r)
  case Nil
  then show ?case by simp
next
  case (Cons s ss)
  obtain r1 where r1: "addVPack_slice checked L s r = Inr r1" "request_inv r1"
    "r_payload r1 = r_payload r @ slice_bytes L s" "r_isVpack r1 = Some True" "r_modified r1" "\<not> r_sealed r1"
    using addVPack_slice_ok [OF assms(1)] Cons.prems by (metis list.set_intros(1))
  then obtain r2 where "addVPack_all checked L ss r1 = Inr r2" "request_inv r2"
    "r_payload r2 = r_payload r1 @ concat (map (slice_bytes L) ss)"
    "ss \<noteq> [] \<longrightarrow> r_isVpack r2 = Some True \<and> r_modified r2"
    using Cons.IH [of r1] Cons.prems by auto
  with r1 show ?case by (cases ss) auto
qed

section \<open>Properties\<close>

text \<open>
  C37: a request remembers exactly the VelocyPack values it was given. Adding slices to a fresh
  request, one \<open>addVPack\<close> after the other (in the checked build each must validate), succeeds; the
  payload buffer holds their bytes back to back, and \<open>slices()\<close> returns one slice per added
  value, in order, with the bytes of that value.
\<close>

theorem request_slices_roundtrip:
  assumes "vpack_ok L" and "\<forall>s \<in> set ss. slice_ok L s" and "ss \<noteq> []"
    and "\<forall>s \<in> set ss. checked_validate checked L (Inr (slice_bytes L s)) = Inr ()"
  shows "\<exists>r out r'. addVPack_all checked L ss (Request_new h hs) = Inr r \<and>
           buffer_bytes (Request_payload r) = Inr (concat (map (slice_bytes L) ss)) \<and>
           Request_slices L r = Inr (out, r') \<and>
           map (slice_bytes L) out = map (slice_bytes L) ss \<and>
           Request_slices L r' = Inr (out, r')"
proof -
  obtain r where r: "addVPack_all checked L ss (Request_new h hs) = Inr r" "request_inv r"
    "r_payload r = concat (map (slice_bytes L) ss)" "r_isVpack r = Some True" "r_modified r"
    using addVPack_all_ok [OF assms(1,2) request_inv_new assms(4), of h hs] assms(3)
    by (auto simp: Request_new_def)
  have "slices_loop L (Suc (length (r_payload r))) (r_payload r) = Inr (slice_tails L ss)"
    unfolding r(3) by (rule slices_loop_concat [OF assms(1,2)]) simp
  with r show ?thesis
    using slice_tails_bytes [OF assms(1,2)]
    by (auto simp: Request_slices_def Request_payload_def request_inv_def)
qed

theorem request_slices_roundtrip_witness:
  "\<exists>r out r'. addVPack_all False sized_vpack [[2, 7], [1, 9]] (Request_new MessageHeader_new []) = Inr r \<and>
     buffer_bytes (Request_payload r) = Inr (concat (map (slice_bytes sized_vpack) [[2, 7], [1, 9]])) \<and>
     Request_slices sized_vpack r = Inr (out, r') \<and>
     map (slice_bytes sized_vpack) out = map (slice_bytes sized_vpack) [[2, 7], [1, 9]] \<and>
     Request_slices sized_vpack r' = Inr (out, r')"
proof (rule request_slices_roundtrip [OF sized_vpack_ok])
  show "\<forall>s \<in> set [[2, 7], [1, 9]]. slice_ok sized_vpack s"
    by (simp add: slice_ok_def sized_vpack_def size_byte_def)
qed (simp_all add: checked_validate_def)

text \<open>
  C39: \<open>validateAndCount\<close> terminates on every buffer, and a count \<open>n\<close> is returned only for a buffer
  that is exactly \<open>n\<close> complete VelocyPack values back to back; when the validator accepts every
  position it is given, such a buffer is counted with \<open>n\<close>.
\<close>

theorem validateAndCount_correct:
  assumes "vpack_ok L"
  shows "validateAndCount L bs \<noteq> Inl No_return \<and>
    (\<forall>n. validateAndCount L bs = Inr n \<longrightarrow>
       (\<exists>ss. length ss = n \<and> (\<forall>s \<in> set ss. slice_ok L s) \<and> bs = concat (map (slice_bytes L) ss))) \<and>
    (\<forall>ss. (\<forall>s \<in> set ss. slice_ok L s) \<longrightarrow> (\<forall>b. vp_validate L b = Inr ()) \<longrightarrow>
       bs = concat (map (slice_bytes L) ss) \<longrightarrow> validateAndCount L bs = Inr (length ss))"
proof (intro conjI allI impI)
  show "validateAndCount L bs \<noteq> Inl No_return"
    by (simp add: validateAndCount_def validate_loop_returns [OF assms] del: validate_loop.simps)
next
  fix n
  assume "validateAndCount L bs = Inr n"
  then show "\<exists>ss. length ss = n \<and> (\<forall>s \<in> set ss. slice_ok L s) \<and> bs = concat (map (slice_bytes L) ss)"
    using validate_loop_Inr [of L "Suc (length bs)" bs 0 n]
    by (auto simp: validateAndCount_def simp del: validate_loop.simps)
next
  fix ss
  assume "\<forall>s \<in> set ss. slice_ok L s" and "\<forall>b. vp_validate L b = Inr ()"
    and "bs = concat (map (slice_bytes L) ss)"
  then show "validateAndCount L bs = Inr (length ss)"
    using validate_loop_concat [OF assms, of ss "Suc (length bs)" 0]
    by (simp add: validateAndCount_def del: validate_loop.simps)
qed

theorem validateAndCount_correct_witness:
  "validateAndCount sized_vpack [2, 7, 1] = Inr 2 \<and>
   validateAndCount sized_vpack [2, 7, 1] \<noteq> Inl No_return \<and>
   validateAndCount sized_vpack [3, 7] = Inl (body_error (Length_error ''slice is longer than buffer''))"
proof -
  have "validateAndCount sized_vpack (concat (map (slice_bytes sized_vpack) [[2, 7], [1]])) = Inr (length [[2, 7], [1 :: byte]])"
  proof -
    have "\<forall>s \<in> set [[2, 7], [1 :: byte]]. slice_ok sized_vpack s"
      by (simp add: slice_ok_def size_byte_def)
    then show ?thesis
      using validateAndCount_correct [OF sized_vpack_ok,
          of "concat (map (slice_bytes sized_vpack) [[2, 7], [1]])"]
      by (metis sized_vpack_simps(2))
  qed
  moreover have "concat (map (slice_bytes sized_vpack) [[2, 7], [1]]) = [2, 7, 1]"
    by (simp add: slice_bytes_def size_byte_def)
  moreover have "validateAndCount sized_vpack [3, 7] = Inl (body_error (Length_error ''slice is longer than buffer''))"
    by (simp add: validateAndCount_def size_byte_def)
  ultimately show ?thesis by simp
qed

text \<open>
  The slices of a response are exactly the values that follow the message header in its
  buffer: with \<open>setPayload(buffer, offset)\<close>, \<open>slices()\<close> skips \<open>offset\<close> bytes and returns one slice
  per value after them, and calling it again returns the same slices.
\<close>

theorem response_slices_payload:
  assumes "vpack_ok L" and "\<forall>s \<in> set ss. slice_ok L s"
  shows "\<exists>out s'. Response_slices L
             (setPayload (hdr @ concat (map (slice_bytes L) ss)) (length hdr) s) = Inr (out, s') \<and>
           map (slice_bytes L) out = map (slice_bytes L) ss \<and>
           Response_slices L s' = Inr (out, s')"
proof -
  let ?b = "concat (map (slice_bytes L) ss)"
  have "slices_loop L (Suc (length ?b)) ?b = Inr (slice_tails L ss)"
    by (rule slices_loop_concat [OF assms]) simp
  then show ?thesis
    using slice_tails_bytes [OF assms]
    by (cases ss)
      (auto simp: Response_slices_def setPayload_def payload_offset_def simp del: slices_loop.simps)
qed

theorem response_slices_payload_witness:
  "\<exists>out s'. Response_slices sized_vpack
       (setPayload ([2, 0] @ concat (map (slice_bytes sized_vpack) [[2, 7], [1]])) (length [2, 0 :: byte])
         (Response_new MessageHeader_new [])) = Inr (out, s') \<and>
     map (slice_bytes sized_vpack) out = map (slice_bytes sized_vpack) [[2, 7], [1]] \<and>
     Response_slices sized_vpack s' = Inr (out, s')"
  by (rule response_slices_payload [OF sized_vpack_ok])
    (simp add: slice_ok_def sized_vpack_def size_byte_def)

text \<open>
  \<open>Response::payload()\<close> pairs the start of the payload with the size of the whole buffer. For
  every response whose payload starts after a header (every VST response) the returned buffer
  extends past the end of the memory by the length of the header, and reading it, as
  \<open>payloadAsString\<close> does, is undefined; with offset 0 (HTTP) it is exactly the buffer.
\<close>

theorem response_payload_overread:
  "bind_res (Response_payload (setPayload b 0 s)) payloadAsString = Inr (bytes_to_string b) \<and>
   (0 < off \<and> off \<le> length b \<longrightarrow>
      bind_res (Response_payload (setPayload b off s)) payloadAsString =
        Inl (Undefined ''read past the end of a buffer''))"
  by (auto simp: Response_payload_def setPayload_def payload_offset_def payloadAsString_def
      buffer_bytes_def)

theorem response_payload_overread_witness:
  "bind_res (Response_payload (setPayload [2, 0, 2, 7] 2 (Response_new MessageHeader_new []))) payloadAsString =
     Inl (Undefined ''read past the end of a buffer'')"
  using response_payload_overread [of "[2, 0, 2, 7]" "Response_new MessageHeader_new []" 2] by simp

text \<open>
  The payload length a request reports is the length of its payload buffer after any
  \<open>addBinary\<close>, but \<open>addBinarySingle\<close> replaces the buffer and adds to the length: on a request that
  already holds binary data the reported length exceeds the new buffer by the old length.
\<close>

theorem request_payload_length:
  assumes "vpack_ok L" and "request_inv r" and "\<not> r_sealed r" and "r_isVpack r \<noteq> Some True"
  shows "r_payload (addBinary L d r) = r_payload r @ d \<and>
    r_payloadLength (addBinary L d r) = length (r_payload (addBinary L d r)) \<and>
    r_payloadLength (addBinarySingle L b (addBinary L d r)) = length (r_payload r) + length d + length b \<and>
    r_payload (addBinarySingle L b (addBinary L d r)) =
      vp_resetTo L b (length (r_payload r) + length d + length b)"
  using assms vpack_resetTo [OF assms(1), of "r_payload r @ d"]
  by (auto simp: addBinary_def addBinarySingle_def request_inv_def Let_def)

theorem request_payload_length_witness:
  "r_payloadLength (addBinarySingle sized_vpack [5] (addBinary sized_vpack [1, 2] (Request_new MessageHeader_new []))) = 3 \<and>
   r_payload (addBinarySingle sized_vpack [5] (addBinary sized_vpack [1, 2] (Request_new MessageHeader_new []))) = [5]"
proof -
  have "r_isVpack (Request_new MessageHeader_new []) \<noteq> Some True" and "\<not> r_sealed (Request_new MessageHeader_new [])"
    and "r_payload (Request_new MessageHeader_new []) = []"
    by (simp_all add: Request_new_def)
  with request_payload_length [OF sized_vpack_ok request_inv_new, of MessageHeader_new "[]" "[1, 2]" "[5]"]
  show ?thesis by (simp add: sized_vpack_def)
qed

end
