(* ===== verification/Endian.thy ===== *)
theory Endian
  imports Prelude
begin

unbundle bit_operations_syntax

text \<open>
  \<open>src/src/portable_endian.h\<close>: conversion between the byte order of the host and the little-endian and
  big-endian (network) orders, for the two host orders the header supports. \<open>store32\<close> and \<open>load32\<close> are the memory images of a
  \<open>uint32_t\<close> that \<open>*reinterpret_cast<uint32_t*>(p)\<close> writes and reads on such a host.
  The lemmas show that \<open>*p = htole32(x)\<close> always writes the little-endian bytes \<open>le32 x\<close>, and that
  \<open>le32toh(*p)\<close> always reads them back, so the rest of the development uses \<open>le32\<close> and
  \<open>rd32\<close> for the wire format without naming the host.
\<close>

type_synonym u16 = "16 word"

datatype byte_order = LITTLE_ENDIAN | BIG_ENDIAN

definition le16 :: "u16 \<Rightarrow> byte list" where
  "le16 w = [ucast w, ucast (drop_bit 8 w)]"

definition le32 :: "u32 \<Rightarrow> byte list" where
  "le32 w = [ucast w, ucast (drop_bit 8 w), ucast (drop_bit 16 w), ucast (drop_bit 24 w)]"

definition le64 :: "u64 \<Rightarrow> byte list" where
  "le64 w = [ucast w, ucast (drop_bit 8 w), ucast (drop_bit 16 w), ucast (drop_bit 24 w),
             ucast (drop_bit 32 w), ucast (drop_bit 40 w), ucast (drop_bit 48 w),
             ucast (drop_bit 56 w)]"

fun of_le :: "byte list \<Rightarrow> 'a::len word" where
  "of_le [] = 0"
| "of_le (b # bs) = ucast b OR push_bit 8 (of_le bs)"

definition rd32 :: "byte list \<Rightarrow> u32" where
  "rd32 bs = of_le (take 4 bs)"

definition rd64 :: "byte list \<Rightarrow> u64" where
  "rd64 bs = of_le (take 8 bs)"

fun store16 :: "byte_order \<Rightarrow> u16 \<Rightarrow> byte list" where
  "store16 LITTLE_ENDIAN w = le16 w"
| "store16 BIG_ENDIAN w = rev (le16 w)"

fun store32 :: "byte_order \<Rightarrow> u32 \<Rightarrow> byte list" where
  "store32 LITTLE_ENDIAN w = le32 w"
| "store32 BIG_ENDIAN w = rev (le32 w)"

fun store64 :: "byte_order \<Rightarrow> u64 \<Rightarrow> byte list" where
  "store64 LITTLE_ENDIAN w = le64 w"
| "store64 BIG_ENDIAN w = rev (le64 w)"

fun load16 :: "byte_order \<Rightarrow> byte list \<Rightarrow> u16" where
  "load16 LITTLE_ENDIAN bs = of_le (take 2 bs)"
| "load16 BIG_ENDIAN bs = of_le (rev (take 2 bs))"

fun load32 :: "byte_order \<Rightarrow> byte list \<Rightarrow> u32" where
  "load32 LITTLE_ENDIAN bs = of_le (take 4 bs)"
| "load32 BIG_ENDIAN bs = of_le (rev (take 4 bs))"

fun load64 :: "byte_order \<Rightarrow> byte list \<Rightarrow> u64" where
  "load64 LITTLE_ENDIAN bs = of_le (take 8 bs)"
| "load64 BIG_ENDIAN bs = of_le (rev (take 8 bs))"

definition bswap16 :: "u16 \<Rightarrow> u16" where
  "bswap16 w = of_le (rev (le16 w))"

definition bswap32 :: "u32 \<Rightarrow> u32" where
  "bswap32 w = of_le (rev (le32 w))"

definition bswap64 :: "u64 \<Rightarrow> u64" where
  "bswap64 w = of_le (rev (le64 w))"

fun htole16 :: "byte_order \<Rightarrow> u16 \<Rightarrow> u16" where
  "htole16 LITTLE_ENDIAN x = x"
| "htole16 BIG_ENDIAN x = bswap16 x"

fun htole32 :: "byte_order \<Rightarrow> u32 \<Rightarrow> u32" where
  "htole32 LITTLE_ENDIAN x = x"
| "htole32 BIG_ENDIAN x = bswap32 x"

fun htole64 :: "byte_order \<Rightarrow> u64 \<Rightarrow> u64" where
  "htole64 LITTLE_ENDIAN x = x"
| "htole64 BIG_ENDIAN x = bswap64 x"

fun le16toh :: "byte_order \<Rightarrow> u16 \<Rightarrow> u16" where
  "le16toh LITTLE_ENDIAN x = x"
| "le16toh BIG_ENDIAN x = bswap16 x"

fun le32toh :: "byte_order \<Rightarrow> u32 \<Rightarrow> u32" where
  "le32toh LITTLE_ENDIAN x = x"
| "le32toh BIG_ENDIAN x = bswap32 x"

fun le64toh :: "byte_order \<Rightarrow> u64 \<Rightarrow> u64" where
  "le64toh LITTLE_ENDIAN x = x"
| "le64toh BIG_ENDIAN x = bswap64 x"

fun htobe16 :: "byte_order \<Rightarrow> u16 \<Rightarrow> u16" where
  "htobe16 LITTLE_ENDIAN x = bswap16 x"
| "htobe16 BIG_ENDIAN x = x"

fun htobe32 :: "byte_order \<Rightarrow> u32 \<Rightarrow> u32" where
  "htobe32 LITTLE_ENDIAN x = bswap32 x"
| "htobe32 BIG_ENDIAN x = x"

fun htobe64 :: "byte_order \<Rightarrow> u64 \<Rightarrow> u64" where
  "htobe64 LITTLE_ENDIAN x = bswap64 x"
| "htobe64 BIG_ENDIAN x = x"

fun be16toh :: "byte_order \<Rightarrow> u16 \<Rightarrow> u16" where
  "be16toh LITTLE_ENDIAN x = bswap16 x"
| "be16toh BIG_ENDIAN x = x"

fun be32toh :: "byte_order \<Rightarrow> u32 \<Rightarrow> u32" where
  "be32toh LITTLE_ENDIAN x = bswap32 x"
| "be32toh BIG_ENDIAN x = x"

fun be64toh :: "byte_order \<Rightarrow> u64 \<Rightarrow> u64" where
  "be64toh LITTLE_ENDIAN x = bswap64 x"
| "be64toh BIG_ENDIAN x = x"

section \<open>Words and their bytes\<close>

lemma length_le [simp]: "length (le32 w) = 4" "length (le64 v) = 8" "length (le16 x) = 2"
  by (simp_all add: le16_def le32_def le64_def)

lemma bit_of_le:
  "bit (of_le bs :: 'a::len word) n \<longleftrightarrow>
     n < LENGTH('a) \<and> n div 8 < length bs \<and> bit (bs ! (n div 8)) (n mod 8)"
proof (induction bs arbitrary: n)
  case Nil
  then show ?case by simp
next
  case (Cons b bs)
  show ?case
  proof (cases "n < 8")
    case True
    then show ?thesis by (auto simp: bit_or_iff bit_push_bit_iff bit_ucast_iff bit_imp_le_length)
  next
    case False
    then have "n div 8 = Suc ((n - 8) div 8)" and "n mod 8 = (n - 8) mod 8"
      by (simp_all add: le_div_geq le_mod_geq)
    with False Cons.IH [of "n - 8"] show ?thesis
      by (auto simp: bit_or_iff bit_push_bit_iff bit_ucast_iff dest: bit_imp_le_length)
  qed
qed

lemma le16_nth: "i < 2 \<Longrightarrow> le16 w ! i = ucast (drop_bit (8 * i) w)"
  by (auto simp: le16_def less_Suc_eq numeral_eq_Suc)

lemma le32_nth: "i < 4 \<Longrightarrow> le32 w ! i = ucast (drop_bit (8 * i) w)"
  by (auto simp: le32_def less_Suc_eq numeral_eq_Suc)

lemma le64_nth: "i < 8 \<Longrightarrow> le64 w ! i = ucast (drop_bit (8 * i) w)"
  by (auto simp: le64_def less_Suc_eq numeral_eq_Suc)

lemma of_le_le16 [wire_simps]: "of_le (le16 w) = w"
proof (rule bit_word_eqI)
  fix n
  assume "n < LENGTH(16)"
  then show "bit (of_le (le16 w) :: u16) n = bit w n"
    by (simp add: bit_of_le le16_nth bit_ucast_iff bit_drop_bit_eq less_mult_imp_div_less)
qed

lemma of_le_le32 [wire_simps]: "of_le (le32 w) = w"
proof (rule bit_word_eqI)
  fix n
  assume "n < LENGTH(32)"
  then show "bit (of_le (le32 w) :: u32) n = bit w n"
    by (simp add: bit_of_le le32_nth bit_ucast_iff bit_drop_bit_eq less_mult_imp_div_less)
qed

lemma of_le_le64 [wire_simps]: "of_le (le64 w) = w"
proof (rule bit_word_eqI)
  fix n
  assume "n < LENGTH(64)"
  then show "bit (of_le (le64 w) :: u64) n = bit w n"
    by (simp add: bit_of_le le64_nth bit_ucast_iff bit_drop_bit_eq less_mult_imp_div_less)
qed

lemma le16_of_le: "length bs = 2 \<Longrightarrow> le16 (of_le bs) = bs"
proof (rule nth_equalityI)
  fix i
  assume "length bs = 2" and "i < length (le16 (of_le bs))"
  then show "le16 (of_le bs) ! i = bs ! i"
    by (intro bit_word_eqI) (simp add: le16_nth bit_ucast_iff bit_drop_bit_eq bit_of_le)
qed simp

lemma le32_of_le: "length bs = 4 \<Longrightarrow> le32 (of_le bs) = bs"
proof (rule nth_equalityI)
  fix i
  assume "length bs = 4" and "i < length (le32 (of_le bs))"
  then show "le32 (of_le bs) ! i = bs ! i"
    by (intro bit_word_eqI) (simp add: le32_nth bit_ucast_iff bit_drop_bit_eq bit_of_le)
qed simp

lemma le64_of_le: "length bs = 8 \<Longrightarrow> le64 (of_le bs) = bs"
proof (rule nth_equalityI)
  fix i
  assume "length bs = 8" and "i < length (le64 (of_le bs))"
  then show "le64 (of_le bs) ! i = bs ! i"
    by (intro bit_word_eqI) (simp add: le64_nth bit_ucast_iff bit_drop_bit_eq bit_of_le)
qed simp

lemma rd32_le32 [wire_simps]: "rd32 (le32 w @ rest) = w"
  by (simp add: rd32_def of_le_le32)

lemma rd64_le64 [wire_simps]: "rd64 (le64 w @ rest) = w"
  by (simp add: rd64_def of_le_le64)

section \<open>The wire format does not depend on the host\<close>

lemma le16_bswap: "le16 (bswap16 w) = rev (le16 w)"
  by (simp add: bswap16_def le16_of_le)

lemma le32_bswap: "le32 (bswap32 w) = rev (le32 w)"
  by (simp add: bswap32_def le32_of_le)

lemma le64_bswap: "le64 (bswap64 w) = rev (le64 w)"
  by (simp add: bswap64_def le64_of_le)

lemma store32_htole32: "store32 bo (htole32 bo x) = le32 x"
  by (cases bo) (simp_all add: le32_bswap)

lemma store64_htole64: "store64 bo (htole64 bo x) = le64 x"
  by (cases bo) (simp_all add: le64_bswap)

lemma le32toh_load32: "4 \<le> length bs \<Longrightarrow> le32toh bo (load32 bo bs) = rd32 bs"
  by (cases bo) (simp_all add: rd32_def bswap32_def le32_of_le)

lemma le64toh_load64: "8 \<le> length bs \<Longrightarrow> le64toh bo (load64 bo bs) = rd64 bs"
  by (cases bo) (simp_all add: rd64_def bswap64_def le64_of_le)

text \<open>
  All conversions, on both kinds of host: the little-endian ones leave the little-endian bytes in
  memory, the big-endian ones the bytes in network order, and each is undone by its inverse.
\<close>

lemma store_endian:
  "store16 bo (htole16 bo a) = le16 a" "store16 bo (htobe16 bo a) = rev (le16 a)"
  "store32 bo (htole32 bo b) = le32 b" "store32 bo (htobe32 bo b) = rev (le32 b)"
  "store64 bo (htole64 bo c) = le64 c" "store64 bo (htobe64 bo c) = rev (le64 c)"
  by (cases bo; simp add: le16_bswap le32_bswap le64_bswap)+

lemma load_endian:
  "le16toh bo (load16 bo (le16 a)) = a" "be16toh bo (load16 bo (rev (le16 a))) = a"
  "le32toh bo (load32 bo (le32 b)) = b" "be32toh bo (load32 bo (rev (le32 b))) = b"
  "le64toh bo (load64 bo (le64 c)) = c" "be64toh bo (load64 bo (rev (le64 c))) = c"
  by (cases bo; simp add: bswap16_def bswap32_def bswap64_def of_le_le16 of_le_le32 of_le_le64 le16_of_le le32_of_le le64_of_le)+

lemma endian_inverse:
  "le16toh bo (htole16 bo a) = a" "be16toh bo (htobe16 bo a) = a"
  "le32toh bo (htole32 bo b) = b" "be32toh bo (htobe32 bo b) = b"
  "le64toh bo (htole64 bo c) = c" "be64toh bo (htobe64 bo c) = c"
  by (cases bo; simp add: bswap16_def bswap32_def bswap64_def of_le_le16 of_le_le32 of_le_le64 le16_of_le le32_of_le le64_of_le)+

end
