(* ===== verification/VstChunk.thy ===== *)
theory VstChunk
  imports Velocypack Endian
begin

unbundle bit_operations_syntax

text \<open>
  The chunk layer of \<open>src/src/vst.h\<close> and \<open>src/src/vst.cpp\<close>: chunk headers, their wire format in
  VST 1.0 and 1.1, the splitting of a message into chunks and the recognition of a complete
  chunk in the receive buffer.

  Wire fields keep their widths (\<open>u32\<close>, \<open>u64\<close>, wrapping); sizes of objects in memory are \<open>nat\<close>.
  A \<open>ChunkHeader\<close> local variable starts uninitialised and the code does not set every member: the
  argument \<open>u\<close> of \<open>buildChunks\<close> and of the read functions is that uninitialised object, and
  every theorem holds for each \<open>u\<close>.
\<close>

definition bufferLength :: nat where "bufferLength = 4096"
definition minChunkHeaderSize :: nat where "minChunkHeaderSize = 16"
definition maxChunkHeaderSize :: nat where "maxChunkHeaderSize = 24"
definition defaultMaxChunkSize :: u32 where "defaultMaxChunkSize = 30000"

definition vstHeader1_0 :: string where
  "vstHeader1_0 = ''VST/1.0'' @ [CHR 0x0D, CHR 0x0A, CHR 0x0D, CHR 0x0A]"
definition vstHeader1_1 :: string where
  "vstHeader1_1 = ''VST/1.1'' @ [CHR 0x0D, CHR 0x0A, CHR 0x0D, CHR 0x0A]"

record ChunkHeader =
  ch_chunkLength :: u32
  ch_chunkX :: u32
  ch_messageID :: u64
  ch_messageLength :: u64
  ch_data :: const_buffer
  ch_responseChunkContentOffset :: nat
  ch_responseContentLength :: nat

definition isFirst :: "ChunkHeader \<Rightarrow> bool" where
  "isFirst c = (ch_chunkX c AND 1 = 1)"

definition index :: "ChunkHeader \<Rightarrow> u32" where
  "index c = (if ch_chunkX c AND 1 = 1 then 0 else drop_bit 1 (ch_chunkX c))"

definition numberOfChunks :: "ChunkHeader \<Rightarrow> u32" where
  "numberOfChunks c = (if ch_chunkX c AND 1 = 1 then drop_bit 1 (ch_chunkX c) else 0)"

definition chunkHeaderToString :: "ChunkHeader \<Rightarrow> string" where
  "chunkHeaderToString c =
     ''### ChunkHeader ###'' @
     endl @ ''chunk length:         '' @ show_nat (unat (ch_chunkLength c)) @
     endl @ ''number of chunks:     '' @ show_nat (unat (numberOfChunks c)) @
     endl @ ''message id:           '' @ show_nat (unat (ch_messageID c)) @
     endl @ ''is first:             '' @ (if isFirst c then ''1'' else ''0'') @
     endl @ ''index:                '' @ show_nat (unat (index c)) @
     endl @ ''total message length: '' @ show_nat (unat (ch_messageLength c)) @
     endl"

section \<open>Writing chunk headers\<close>

text \<open>Each writer appends the header to the buffer and returns the number of bytes appended.\<close>

definition writeHeaderToVST1_0 :: "ChunkHeader \<Rightarrow> VBuffer \<Rightarrow> VBuffer \<times> nat" where
  "writeHeaderToVST1_0 c buffer =
     (let extended = (isFirst c \<and> 1 < numberOfChunks c);
          hdrLength = (if extended then maxChunkHeaderSize else minChunkHeaderSize);
          dataSize = cb_size (ch_data c);
          hdr = le32 (of_nat (hdrLength + dataSize)) @ le32 (ch_chunkX c) @ le64 (ch_messageID c) @
                (if extended then le64 (ch_messageLength c) else [])
      in (buffer @ hdr, hdrLength))"

definition writeHeaderToVST1_1 :: "ChunkHeader \<Rightarrow> VBuffer \<Rightarrow> VBuffer \<times> nat" where
  "writeHeaderToVST1_1 c buffer =
     (let hdrLength = maxChunkHeaderSize;
          dataSize = cb_size (ch_data c);
          hdr = le32 (of_nat (hdrLength + dataSize)) @ le32 (ch_chunkX c) @ le64 (ch_messageID c) @
                le64 (ch_messageLength c)
      in (buffer @ hdr, hdrLength))"

fun writeHeader :: "VSTVersion \<Rightarrow> ChunkHeader \<Rightarrow> VBuffer \<Rightarrow> VBuffer \<times> nat" where
  "writeHeader VST1_0 c buffer = writeHeaderToVST1_0 c buffer"
| "writeHeader VST1_1 c buffer = writeHeaderToVST1_1 c buffer"

fun chunkHeaderLength :: "VSTVersion \<Rightarrow> bool \<Rightarrow> bool \<Rightarrow> nat" where
  "chunkHeaderLength VST1_0 first single =
     (if first \<and> \<not> single then maxChunkHeaderSize else minChunkHeaderSize)"
| "chunkHeaderLength VST1_1 first single = maxChunkHeaderSize"

section \<open>Splitting a message into chunks\<close>

text \<open>
  The inner \<open>while\<close> of \<open>buildChunks\<close> for one message part: \<open>remaining\<close> and \<open>offset\<close> as in the source.
  \<open>maxDataLength\<close> is positive by the \<open>assert\<close> of \<open>buildChunks\<close>, so every round makes progress.
\<close>

function part_chunks ::
  "ChunkHeader \<Rightarrow> u64 \<Rightarrow> u64 \<Rightarrow> nat \<Rightarrow> VSlice \<Rightarrow> nat \<Rightarrow> nat \<Rightarrow> u32 \<Rightarrow> ChunkHeader list \<times> u32"
where
  "part_chunks u messageID messageLength maxDataLength sl remaining offset chunkIndex =
     (if 0 < remaining \<and> 0 < maxDataLength then
        let dataLength = (if maxDataLength < remaining then maxDataLength else remaining);
            chunk = u\<lparr>ch_chunkX := push_bit 1 chunkIndex, ch_messageID := messageID,
                      ch_messageLength := messageLength,
                      ch_data := \<lparr>cb_mem = drop offset sl, cb_size = dataLength\<rparr>\<rparr>;
            (rest, next) = part_chunks u messageID messageLength maxDataLength sl
                             (remaining - dataLength) (offset + dataLength) (chunkIndex + 1)
        in (chunk # rest, next)
      else ([], chunkIndex))"
  by pat_completeness auto
termination
  by (relation "measure (\<lambda>(u, m, l, d, sl, remaining, off, i). remaining)") auto

declare part_chunks.simps [simp del]

fun parts_chunks ::
  "ChunkHeader \<Rightarrow> u64 \<Rightarrow> u64 \<Rightarrow> nat \<Rightarrow> (VSlice \<times> nat) list \<Rightarrow> u32 \<Rightarrow> ChunkHeader list"
where
  "parts_chunks u messageID messageLength maxDataLength [] chunkIndex = []"
| "parts_chunks u messageID messageLength maxDataLength ((sl, byteSize) # parts) chunkIndex =
     (let (cs, next) = part_chunks u messageID messageLength maxDataLength sl byteSize 0 chunkIndex
      in cs @ parts_chunks u messageID messageLength maxDataLength parts next)"

definition buildChunks ::
  "velocypack \<Rightarrow> ChunkHeader \<Rightarrow> u64 \<Rightarrow> u32 \<Rightarrow> VSlice list \<Rightarrow> ChunkHeader list res"
where
  "buildChunks L u messageID maxChunkSize messageParts =
     bind_res (check (maxChunkHeaderSize < unat maxChunkSize)
       (Assertion ''maxChunkSize > maxChunkHeaderSize'')) (\<lambda>_.
     bind_res (map_res (vp_byteSize L) messageParts) (\<lambda>sizes.
     let messageLength = of_nat (sum_list sizes);
         maxDataLength = unat maxChunkSize - maxChunkHeaderSize;
         result = parts_chunks u messageID messageLength maxDataLength (zip messageParts sizes) 0
     in case result of
          [] \<Rightarrow> Inl (Undefined ''result[0] of an empty vector'')
        | first # rest \<Rightarrow>
            Inr (first\<lparr>ch_chunkX :=
                   (if length result = 1 then 3 else of_nat (2 * length result + 1))\<rparr> # rest)))"

section \<open>Reading chunks\<close>

definition isChunkComplete :: "byte list \<Rightarrow> nat" where
  "isChunkComplete cursor =
     (if length cursor < 4 then 0
      else let lengthThisChunk = unat (rd32 cursor)
           in if length cursor < lengthThisChunk then 0 else lengthThisChunk)"

definition over_read :: exn where
  "over_read = Undefined ''read past the end of a buffer''"

definition mem32 :: "byte list \<Rightarrow> nat \<Rightarrow> u32 res" where
  "mem32 hdr off = (if off + 4 \<le> length hdr then Inr (rd32 (drop off hdr)) else Inl over_read)"

definition mem64 :: "byte list \<Rightarrow> nat \<Rightarrow> u64 res" where
  "mem64 hdr off = (if off + 8 \<le> length hdr then Inr (rd64 (drop off hdr)) else Inl over_read)"

text \<open>\<open>chunkLength - hdrLen\<close> is computed in \<open>size_t\<close> and wraps for a chunk shorter than its header.\<close>

definition content_length :: "u32 \<Rightarrow> nat \<Rightarrow> nat" where
  "content_length chunkLength hdrLen = unat (ucast chunkLength - of_nat hdrLen :: u64)"

definition readChunkHeaderVST1_0 :: "ChunkHeader \<Rightarrow> byte list \<Rightarrow> ChunkHeader res" where
  "readChunkHeaderVST1_0 u hdr =
     bind_res (mem32 hdr 0) (\<lambda>len.
     bind_res (mem32 hdr 4) (\<lambda>x.
     bind_res (mem64 hdr 8) (\<lambda>mid.
     let c = u\<lparr>ch_chunkLength := len, ch_chunkX := x, ch_messageID := mid\<rparr>
     in if x AND 1 = 1 \<and> 1 < drop_bit 1 x then
          bind_res (mem64 hdr 16) (\<lambda>mlen.
          Inr (c\<lparr>ch_messageLength := mlen,
                 ch_data := \<lparr>cb_mem = drop maxChunkHeaderSize hdr,
                             cb_size = content_length len maxChunkHeaderSize\<rparr>\<rparr>))
        else
          Inr (c\<lparr>ch_data := \<lparr>cb_mem = drop minChunkHeaderSize hdr,
                             cb_size = content_length len minChunkHeaderSize\<rparr>\<rparr>))))"

definition readChunkHeaderVST1_1 :: "ChunkHeader \<Rightarrow> byte list \<Rightarrow> ChunkHeader res" where
  "readChunkHeaderVST1_1 u hdr =
     bind_res (mem32 hdr 0) (\<lambda>len.
     bind_res (mem32 hdr 4) (\<lambda>x.
     bind_res (mem64 hdr 8) (\<lambda>mid.
     bind_res (mem64 hdr 16) (\<lambda>mlen.
     Inr (u\<lparr>ch_chunkLength := len, ch_chunkX := x, ch_messageID := mid, ch_messageLength := mlen,
            ch_data := \<lparr>cb_mem = drop maxChunkHeaderSize hdr,
                        cb_size = content_length len maxChunkHeaderSize\<rparr>\<rparr>)))))"

fun readChunkHeader :: "VSTVersion \<Rightarrow> ChunkHeader \<Rightarrow> byte list \<Rightarrow> ChunkHeader res" where
  "readChunkHeader VST1_0 u hdr = readChunkHeaderVST1_0 u hdr"
| "readChunkHeader VST1_1 u hdr = readChunkHeaderVST1_1 u hdr"

lemmas header_size_defs = minChunkHeaderSize_def maxChunkHeaderSize_def

section \<open>Headers: lemmas\<close>

abbreviation chunk_data :: "ChunkHeader \<Rightarrow> byte list" where
  "chunk_data c \<equiv> take (cb_size (ch_data c)) (cb_mem (ch_data c))"

abbreviation data_ok :: "ChunkHeader \<Rightarrow> bool" where
  "data_ok c \<equiv> cb_size (ch_data c) \<le> length (cb_mem (ch_data c))"

text \<open>The bytes of one chunk on the wire.\<close>

definition header_bytes :: "VSTVersion \<Rightarrow> ChunkHeader \<Rightarrow> byte list" where
  "header_bytes v c = fst (writeHeader v c [])"

definition wire_chunk :: "VSTVersion \<Rightarrow> ChunkHeader \<Rightarrow> byte list" where
  "wire_chunk v c = header_bytes v c @ chunk_data c"

lemma writeHeader_append:
  "writeHeader v c buffer = (buffer @ header_bytes v c, length (header_bytes v c))"
  by (cases v)
    (simp_all add: header_bytes_def writeHeaderToVST1_0_def writeHeaderToVST1_1_def header_size_defs Let_def)

lemma length_header_bytes:
  "length (header_bytes v c) = chunkHeaderLength v (isFirst c) (\<not> 1 < numberOfChunks c)"
  by (cases v)
    (simp_all add: header_bytes_def writeHeaderToVST1_0_def writeHeaderToVST1_1_def header_size_defs Let_def)

lemma length_header_bytes_le: "length (header_bytes v c) \<le> 24"
  by (cases v) (simp_all add: length_header_bytes header_size_defs)

lemma numberOfChunks_gt_1:
  "1 < numberOfChunks c \<Longrightarrow> isFirst c"
  by (auto simp: numberOfChunks_def isFirst_def split: if_splits)

lemma mem32_0 [wire_simps]: "mem32 (le32 w @ rest) 0 = Inr w"
  by (simp add: mem32_def rd32_le32)

lemma mem_skip [wire_simps]:
  "length xs = k \<Longrightarrow> k \<le> off \<Longrightarrow> mem32 (xs @ rest) off = mem32 rest (off - k)"
  "length xs = k \<Longrightarrow> k \<le> off \<Longrightarrow> mem64 (xs @ rest) off = mem64 rest (off - k)"
  by (auto simp: mem32_def mem64_def)

lemma mem64_0 [wire_simps]: "mem64 (le64 w @ rest) 0 = Inr w"
  by (simp add: mem64_def rd64_le64)

lemma content_length_of_nat:
  assumes "hdrLen + n < 2 ^ 32"
  shows "content_length (of_nat (hdrLen + n)) hdrLen = n"
proof -
  have n: "n < 2 ^ 64" using assms by simp
  have "(ucast (of_nat (hdrLen + n) :: u32) :: u64) = of_nat (hdrLen + n)"
    using assms by (simp add: unsigned_of_nat take_bit_nat_eq_self del: of_nat_add)
  then have "(ucast (of_nat (hdrLen + n) :: u32) - of_nat hdrLen :: u64) = of_nat n"
    by simp
  with n show ?thesis
    unfolding content_length_def by (simp add: unat_of_nat take_bit_nat_eq_self)
qed

lemma wire_chunk_10:
  "wire_chunk VST1_0 c =
     le32 (of_nat (length (header_bytes VST1_0 c) + cb_size (ch_data c))) @ le32 (ch_chunkX c) @
     le64 (ch_messageID c) @ (if 1 < numberOfChunks c then le64 (ch_messageLength c) else []) @ chunk_data c"
  using numberOfChunks_gt_1 [of c]
  by (auto simp: wire_chunk_def length_header_bytes)
    (auto simp: header_bytes_def writeHeaderToVST1_0_def Let_def)

lemma wire_chunk_11:
  "wire_chunk VST1_1 c =
     le32 (of_nat (length (header_bytes VST1_1 c) + cb_size (ch_data c))) @ le32 (ch_chunkX c) @
     le64 (ch_messageID c) @ le64 (ch_messageLength c) @ chunk_data c"
  by (simp add: wire_chunk_def length_header_bytes)
    (simp add: header_bytes_def writeHeaderToVST1_1_def Let_def)

lemma length_wire_chunk:
  "data_ok c \<Longrightarrow> length (wire_chunk v c) = length (header_bytes v c) + cb_size (ch_data c)"
  by (simp add: wire_chunk_def)

lemma wire_chunk_prefix:
  "\<exists>rest. wire_chunk v c = le32 (of_nat (length (header_bytes v c) + cb_size (ch_data c))) @ rest"
  by (cases v) (auto simp: wire_chunk_10 wire_chunk_11)

text \<open>What a reader gets back from the bytes of one chunk followed by anything.\<close>

definition read_back :: "VSTVersion \<Rightarrow> ChunkHeader \<Rightarrow> ChunkHeader \<Rightarrow> byte list \<Rightarrow> ChunkHeader" where
  "read_back v u c rest =
     (if v = VST1_1 \<or> 1 < numberOfChunks c then u\<lparr>ch_messageLength := ch_messageLength c\<rparr> else u)
       \<lparr>ch_chunkLength := of_nat (length (wire_chunk v c)), ch_chunkX := ch_chunkX c,
        ch_messageID := ch_messageID c,
        ch_data := \<lparr>cb_mem = chunk_data c @ rest, cb_size = cb_size (ch_data c)\<rparr>\<rparr>"

lemma readChunkHeader_wire:
  assumes ok: "data_ok c" and len: "length (wire_chunk v c) < 2 ^ 32"
  shows "readChunkHeader v u (wire_chunk v c @ rest) = Inr (read_back v u c rest)"
proof (cases v)
  case VST1_0
  have hl: "length (header_bytes VST1_0 c) = (if 1 < numberOfChunks c then 24 else 16)"
    using numberOfChunks_gt_1 [of c] by (auto simp: length_header_bytes header_size_defs)
  have iff: "(ch_chunkX c AND 1 = 1 \<and> 1 < drop_bit (Suc 0) (ch_chunkX c)) \<longleftrightarrow> 1 < numberOfChunks c"
    by (auto simp: numberOfChunks_def split: if_splits)
  show ?thesis
    using len ok content_length_of_nat [of "length (header_bytes VST1_0 c)" "cb_size (ch_data c)"]
    unfolding VST1_0 read_back_def readChunkHeader.simps readChunkHeaderVST1_0_def
    by (auto simp: length_wire_chunk wire_chunk_10 wire_simps header_size_defs hl iff Let_def)
next
  case VST1_1
  have hl: "length (header_bytes VST1_1 c) = 24"
    by (simp add: length_header_bytes header_size_defs)
  show ?thesis
    using len ok content_length_of_nat [of "length (header_bytes VST1_1 c)" "cb_size (ch_data c)"]
    unfolding VST1_1 read_back_def readChunkHeader.simps readChunkHeaderVST1_1_def
    by (auto simp: length_wire_chunk wire_chunk_11 wire_simps header_size_defs hl)
qed

lemma isChunkComplete_wire:
  assumes "data_ok c" and "length (wire_chunk v c) < 2 ^ 32"
  shows "isChunkComplete (wire_chunk v c @ rest) = length (wire_chunk v c)"
proof -
  obtain r where r: "wire_chunk v c = le32 (of_nat (length (wire_chunk v c))) @ r"
    using wire_chunk_prefix [of v c] length_wire_chunk [OF assms(1), of v] by auto
  then have "rd32 (wire_chunk v c @ rest) = of_nat (length (wire_chunk v c))"
    by (metis append.assoc rd32_le32)
  moreover have "4 \<le> length (wire_chunk v c)"
    using r by (metis length_append length_le(1) le_add1)
  ultimately show ?thesis
    using assms(2) by (simp add: isChunkComplete_def unat_of_nat_u32)
qed

lemma isChunkComplete_short:
  assumes "data_ok c" and "length (wire_chunk v c) < 2 ^ 32" and "n < length (wire_chunk v c)"
  shows "isChunkComplete (take n (wire_chunk v c)) = 0"
proof (cases "n < 4")
  case True
  then show ?thesis using assms(3) by (simp add: isChunkComplete_def)
next
  case False
  obtain r where r: "wire_chunk v c = le32 (of_nat (length (wire_chunk v c))) @ r"
    using wire_chunk_prefix [of v c] length_wire_chunk [OF assms(1), of v] by auto
  have "take n (wire_chunk v c) = le32 (of_nat (length (wire_chunk v c))) @ take (n - 4) r"
    using False by (subst r) simp
  then have "rd32 (take n (wire_chunk v c)) = of_nat (length (wire_chunk v c))"
    by (metis rd32_le32)
  with False assms show ?thesis by (simp add: isChunkComplete_def unat_of_nat_u32)
qed

section \<open>Splitting: lemmas\<close>

text \<open>Reading the chunk number field through \<open>unat\<close>.\<close>

lemma isFirst_unat: "isFirst c \<longleftrightarrow> odd (unat (ch_chunkX c))"
  by (simp add: isFirst_def odd_unat_u32)

lemma index_unat: "unat (index c) = (if isFirst c then 0 else unat (ch_chunkX c) div 2)"
  by (simp add: index_def isFirst_def unat_half_u32)

lemma numberOfChunks_unat: "unat (numberOfChunks c) = (if isFirst c then unat (ch_chunkX c) div 2 else 0)"
  by (simp add: numberOfChunks_def isFirst_def unat_half_u32)

text \<open>What the inner loop guarantees for the chunks \<open>cs\<close> of one part, from index \<open>idx\<close> on.\<close>

definition chunks_for ::
  "u64 \<Rightarrow> u64 \<Rightarrow> nat \<Rightarrow> nat \<Rightarrow> ChunkHeader list \<Rightarrow> byte list \<Rightarrow> bool"
where
  "chunks_for mid mlen d idx cs data \<longleftrightarrow>
     concat (map chunk_data cs) = data \<and>
     (\<forall>c \<in> set cs. data_ok c \<and> 0 < cb_size (ch_data c) \<and> cb_size (ch_data c) \<le> d \<and>
        ch_messageID c = mid \<and> ch_messageLength c = mlen) \<and>
     map ch_chunkX cs = map (\<lambda>i. of_nat (2 * i)) [idx ..< idx + length cs]"

lemma chunks_for_Nil [simp]: "chunks_for mid mlen d idx [] []"
  by (simp add: chunks_for_def)

lemma chunks_for_Cons:
  "data_ok c \<Longrightarrow> 0 < cb_size (ch_data c) \<Longrightarrow> cb_size (ch_data c) \<le> d \<Longrightarrow> ch_messageID c = mid \<Longrightarrow>
   ch_messageLength c = mlen \<Longrightarrow> ch_chunkX c = of_nat (2 * idx) \<Longrightarrow> chunks_for mid mlen d (Suc idx) cs data \<Longrightarrow>
   chunks_for mid mlen d idx (c # cs) (chunk_data c @ data)"
  by (simp add: chunks_for_def upt_conv_Cons del: upt_Suc)

lemma chunks_for_append:
  "chunks_for mid mlen d idx cs1 d1 \<Longrightarrow> chunks_for mid mlen d (idx + length cs1) cs2 d2 \<Longrightarrow>
   chunks_for mid mlen d idx (cs1 @ cs2) (d1 @ d2)"
  using upt_add_eq_append [of idx "idx + length cs1" "length cs2"]
  by (simp add: chunks_for_def add.assoc ball_Un)

text \<open>The number of chunks of a part of \<open>n\<close> bytes: \<open>n / d\<close> rounded up.\<close>

definition chunk_count :: "nat \<Rightarrow> nat \<Rightarrow> nat" where
  "chunk_count d n = (n + d - 1) div d"

lemma chunk_count_0 [simp]: "0 < d \<Longrightarrow> chunk_count d 0 = 0"
  by (simp add: chunk_count_def)

lemma chunk_count_step:
  "0 < d \<Longrightarrow> 0 < n \<Longrightarrow> chunk_count d n = Suc (chunk_count d (n - min d n))"
proof (cases "d < n")
  case True
  assume d: "0 < d"
  have eq: "n + d - 1 = (n - d + d - 1) + d" using True d by arith
  have "d \<noteq> 0" using d by simp
  then have "((n - d + d - 1) + d) div d = (n - d + d - 1) div d + 1"
    by (rule div_add_self2)
  then have "(n + d - 1) div d = (n - d + d - 1) div d + 1"
    by (rule arg_cong [OF eq, THEN trans])
  with True show ?thesis by (simp add: chunk_count_def min_absorb1)
next
  case False
  assume "0 < d" and n: "0 < n"
  with False have "(n + d - 1) div d = 1"
    by (intro div_nat_eqI) auto
  with False \<open>0 < d\<close> show ?thesis by (simp add: chunk_count_def)
qed

lemma part_chunks_spec:
  "part_chunks u mid mlen d sl remaining offset idx = (cs, nxt) \<Longrightarrow> 0 < d \<Longrightarrow>
   offset + remaining \<le> length sl \<Longrightarrow> idx = of_nat k \<Longrightarrow>
     chunks_for mid mlen d k cs (take remaining (drop offset sl)) \<and>
     length cs = chunk_count d remaining \<and> nxt = of_nat (k + length cs)"
proof (induction remaining arbitrary: offset idx cs nxt k rule: less_induct)
  case (less remaining)
  show ?case
  proof (cases "0 < remaining")
    case False
    with less.prems show ?thesis by (simp add: part_chunks.simps [of _ _ _ _ _ remaining])
  next
    case True
    let ?n = "min d remaining"
    let ?c = "u\<lparr>ch_chunkX := push_bit 1 idx, ch_messageID := mid, ch_messageLength := mlen,
               ch_data := \<lparr>cb_mem = drop offset sl, cb_size = ?n\<rparr>\<rparr>"
    obtain cs' nx where rec:
      "part_chunks u mid mlen d sl (remaining - ?n) (offset + ?n) (idx + 1) = (cs', nx)"
      by fastforce
    have n: "(if d < remaining then d else remaining) = ?n" by auto
    have cs: "cs = ?c # cs'" and nx: "nxt = nx"
      using less.prems True rec by (auto simp: part_chunks.simps [of _ _ _ _ _ remaining] n)
    have IH: "chunks_for mid mlen d (Suc k) cs' (take (remaining - ?n) (drop (offset + ?n) sl)) \<and>
        length cs' = chunk_count d (remaining - ?n) \<and> nx = of_nat (Suc k + length cs')"
      using less.IH [OF _ rec, of "Suc k"] True less.prems by auto
    have split: "take remaining (drop offset sl) =
        chunk_data ?c @ take (remaining - ?n) (drop (offset + ?n) sl)"
      using take_drop_split [of ?n remaining "drop offset sl"] by (simp add: add.commute)
    have "chunks_for mid mlen d k cs (take remaining (drop offset sl))"
      unfolding cs split
      by (rule chunks_for_Cons) (use IH True less.prems in \<open>auto simp: push_bit_of_nat_u32\<close>)
    with IH cs nx True less.prems(2) show ?thesis
      by (simp add: chunk_count_step [of d remaining])
  qed
qed

lemma parts_chunks_spec:
  assumes "0 < d" and "\<forall>(sl, n) \<in> set ps. n \<le> length sl"
  shows "chunks_for mid mlen d k (parts_chunks u mid mlen d ps (of_nat k))
           (concat (map (\<lambda>(sl, n). take n sl) ps)) \<and>
         length (parts_chunks u mid mlen d ps (of_nat k)) = sum_list (map (\<lambda>(sl, n). chunk_count d n) ps)"
  using assms(2)
proof (induction ps arbitrary: k)
  case Nil
  then show ?case by simp
next
  case (Cons p ps)
  obtain sl n where p: "p = (sl, n)" by fastforce
  obtain cs nx where pc: "part_chunks u mid mlen d sl n 0 (of_nat k) = (cs, nx)" by fastforce
  have cs: "chunks_for mid mlen d k cs (take n sl)" "length cs = chunk_count d n"
    and nx: "nx = of_nat (k + length cs)"
    using part_chunks_spec [OF pc assms(1), of k] Cons.prems p by auto
  show ?case
    using Cons.IH [of "k + length cs"] Cons.prems cs
    by (auto simp: p pc nx intro: chunks_for_append)
qed

text \<open>The chunks of one whole message: numbered from 0, the first one flagged and carrying the count.\<close>

definition message_chunks :: "u64 \<Rightarrow> ChunkHeader list \<Rightarrow> byte list \<Rightarrow> bool" where
  "message_chunks mid cs data \<longleftrightarrow>
     cs \<noteq> [] \<and> concat (map chunk_data cs) = data \<and>
     (\<forall>c \<in> set cs. data_ok c \<and> ch_messageID c = mid) \<and>
     unat (numberOfChunks (cs ! 0)) = length cs \<and>
     (\<forall>i < length cs. unat (index (cs ! i)) = i \<and> (isFirst (cs ! i) \<longleftrightarrow> i = 0))"

lemma chunks_for_message:
  assumes cf: "chunks_for mid mlen d 0 (c # cs) data" and len: "Suc (length cs) < 2 ^ 31"
  shows "message_chunks mid (c\<lparr>ch_chunkX := of_nat (2 * Suc (length cs) + 1)\<rparr> # cs) data"
proof -
  have x: "ch_chunkX ((c # cs) ! i) = of_nat (2 * i)" if "i < Suc (length cs)" for i
  proof -
    have "ch_chunkX ((c # cs) ! i) = map ch_chunkX (c # cs) ! i"
      using that by (simp del: list.map)
    also have "\<dots> = of_nat (2 * i)"
      using cf that by (simp add: chunks_for_def del: upt_Suc list.map)
    finally show ?thesis .
  qed
  have u: "unat (ch_chunkX (cs ! i)) = 2 * Suc i" if "i < length cs" for i
  proof -
    have "2 * Suc i < 2 ^ 32" using that len by simp
    with x [of "Suc i"] that show ?thesis
      by (simp add: unat_of_nat_u32 del: of_nat_Suc of_nat_mult mult_Suc_right)
  qed
  have u0: "unat (of_nat (2 * Suc (length cs) + 1) :: u32) = 2 * Suc (length cs) + 1"
    using len by (intro unat_of_nat_u32) simp
  show ?thesis
    unfolding message_chunks_def
  proof (intro conjI allI impI)
    fix i
    assume "i < length (c\<lparr>ch_chunkX := of_nat (2 * Suc (length cs) + 1)\<rparr> # cs)"
    then show "unat (index ((c\<lparr>ch_chunkX := of_nat (2 * Suc (length cs) + 1)\<rparr> # cs) ! i)) = i"
      and "isFirst ((c\<lparr>ch_chunkX := of_nat (2 * Suc (length cs) + 1)\<rparr> # cs) ! i) \<longleftrightarrow> i = 0"
      using u u0 by (cases i; simp add: isFirst_unat index_unat)+
  qed (use cf u0 in \<open>auto simp: chunks_for_def isFirst_unat numberOfChunks_unat\<close>)
qed

lemma zip_slice_sizes:
  assumes "\<forall>s \<in> set ss. slice_ok L s"
  shows "map_res (vp_byteSize L) ss = Inr (map (\<lambda>s. length (slice_bytes L s)) ss)"
    and "\<forall>(sl, n) \<in> set (zip ss (map (\<lambda>s. length (slice_bytes L s)) ss)). n \<le> length sl"
    and "map (\<lambda>(sl, n). take n sl) (zip ss (map (\<lambda>s. length (slice_bytes L s)) ss)) = map (slice_bytes L) ss"
proof -
  show "map_res (vp_byteSize L) ss = Inr (map (\<lambda>s. length (slice_bytes L s)) ss)"
    using assms by (intro map_res_total) (simp add: slice_size_bytes)
  have "length (slice_bytes L s) \<le> length s \<and> take (length (slice_bytes L s)) s = slice_bytes L s"
    if "s \<in> set ss" for s
    using bspec [OF assms that] by (rule slice_okE) simp
  then show "\<forall>(sl, n) \<in> set (zip ss (map (\<lambda>s. length (slice_bytes L s)) ss)). n \<le> length sl"
    and "map (\<lambda>(sl, n). take n sl) (zip ss (map (\<lambda>s. length (slice_bytes L s)) ss)) = map (slice_bytes L) ss"
    by (auto simp: zip_map2 zip_same_conv_map)
qed

lemma buildChunks_spec:
  assumes L: "vpack_ok L" and ss: "\<forall>s \<in> set ss. slice_ok L s" and ne: "ss \<noteq> []"
    and m: "24 < unat maxChunk"
  shows "\<exists>c cs. buildChunks L u mid maxChunk ss =
           Inr (c\<lparr>ch_chunkX := of_nat (2 * Suc (length cs) + 1)\<rparr> # cs) \<and>
         chunks_for mid (of_nat (sum_list (map (length \<circ> slice_bytes L) ss))) (unat maxChunk - 24) 0
           (c # cs) (concat (map (slice_bytes L) ss)) \<and>
         Suc (length cs) = sum_list (map (chunk_count (unat maxChunk - 24) \<circ> length \<circ> slice_bytes L) ss)"
proof -
  let ?sz = "map (\<lambda>s. length (slice_bytes L s)) ss"
  let ?mlen = "of_nat (sum_list ?sz) :: u64"
  let ?d = "unat maxChunk - 24"
  let ?r = "parts_chunks u mid ?mlen ?d (zip ss ?sz) 0"
  have spec: "chunks_for mid ?mlen ?d 0 ?r (concat (map (\<lambda>(sl, n). take n sl) (zip ss ?sz))) \<and>
      length ?r = sum_list (map (\<lambda>(sl, n). chunk_count ?d n) (zip ss ?sz))"
    using parts_chunks_spec [of ?d "zip ss ?sz" mid ?mlen 0 u] zip_slice_sizes(2) [OF ss] m by simp
  then have r: "chunks_for mid ?mlen ?d 0 ?r (concat (map (slice_bytes L) ss))"
    by (simp only: zip_slice_sizes(3) [OF ss])
  have len: "length ?r = sum_list (map (chunk_count ?d \<circ> length \<circ> slice_bytes L) ss)"
    using spec by (simp add: zip_map2 zip_same_conv_map comp_def)
  have "concat (map (slice_bytes L) ss) \<noteq> []"
    using ne slice_bytes_nonempty [OF L] ss by (cases ss) auto
  with r have "?r \<noteq> []" by (auto simp: chunks_for_def)
  then obtain c cs where cs: "?r = c # cs" by (cases ?r) auto
  have x: "(if length (c # cs) = 1 then 3 else of_nat (2 * length (c # cs) + 1)) =
      (of_nat (2 * Suc (length cs) + 1) :: u32)"
    by simp
  have "buildChunks L u mid maxChunk ss =
      Inr (c\<lparr>ch_chunkX := if length (c # cs) = 1 then 3 else of_nat (2 * length (c # cs) + 1)\<rparr> # cs)"
    using m cs by (simp add: buildChunks_def zip_slice_sizes [OF ss] maxChunkHeaderSize_def)
  with r len show ?thesis
    unfolding x cs by (intro exI [of _ c] exI [of _ cs]) (simp add: comp_def)
qed

section \<open>Properties of the wire format\<close>

text \<open>
  C17: a chunk that is written is read back. For both protocol versions, the bytes that the
  header writer and the data of a chunk put on the wire (less than 4 GB), followed by any further
  bytes, are recognised as complete with exactly their length, and the header reader returns the
  same chunk number field, message id and data (and the total message length where the header
  carries it); any proper prefix of them is reported as incomplete.
\<close>

theorem chunk_wire_roundtrip:
  assumes "data_ok c" and "length (wire_chunk v c) < 2 ^ 32"
  shows "isChunkComplete (wire_chunk v c @ rest) = length (wire_chunk v c) \<and>
    (\<exists>c'. readChunkHeader v u (wire_chunk v c @ rest) = Inr c' \<and>
          ch_chunkX c' = ch_chunkX c \<and> ch_messageID c' = ch_messageID c \<and>
          unat (ch_chunkLength c') = length (wire_chunk v c) \<and>
          buffer_bytes (ch_data c') = Inr (chunk_data c) \<and>
          (v = VST1_1 \<or> 1 < numberOfChunks c \<longrightarrow> ch_messageLength c' = ch_messageLength c)) \<and>
    (\<forall>n < length (wire_chunk v c). isChunkComplete (take n (wire_chunk v c)) = 0)"
proof (intro conjI)
  show "\<exists>c'. readChunkHeader v u (wire_chunk v c @ rest) = Inr c' \<and>
          ch_chunkX c' = ch_chunkX c \<and> ch_messageID c' = ch_messageID c \<and>
          unat (ch_chunkLength c') = length (wire_chunk v c) \<and>
          buffer_bytes (ch_data c') = Inr (chunk_data c) \<and>
          (v = VST1_1 \<or> 1 < numberOfChunks c \<longrightarrow> ch_messageLength c' = ch_messageLength c)"
    using assms readChunkHeader_wire [OF assms]
    by (simp add: read_back_def buffer_bytes_def unat_of_nat_u32)
qed (use assms in \<open>simp_all add: isChunkComplete_wire isChunkComplete_short\<close>)

definition sample_chunk :: ChunkHeader where
  "sample_chunk = \<lparr>ch_chunkLength = 0, ch_chunkX = 5, ch_messageID = 77, ch_messageLength = 6,
     ch_data = \<lparr>cb_mem = [1, 2, 3, 4], cb_size = 3\<rparr>,
     ch_responseChunkContentOffset = 0, ch_responseContentLength = 0\<rparr>"

theorem chunk_wire_roundtrip_witness:
  "isChunkComplete (wire_chunk VST1_0 sample_chunk @ [9]) = 27 \<and>
   (\<exists>c'. readChunkHeader VST1_0 sample_chunk (wire_chunk VST1_0 sample_chunk @ [9]) = Inr c' \<and>
         buffer_bytes (ch_data c') = Inr [1, 2, 3])"
proof -
  have ok: "data_ok sample_chunk" by (simp add: sample_chunk_def)
  have "length (header_bytes VST1_0 sample_chunk) = 24"
    by (simp add: length_header_bytes isFirst_def numberOfChunks_def sample_chunk_def header_size_defs)
  then have len: "length (wire_chunk VST1_0 sample_chunk) = 27"
    using length_wire_chunk [OF ok, of VST1_0] by (simp add: sample_chunk_def)
  show ?thesis
    using chunk_wire_roundtrip [OF ok, of VST1_0 "[9]" sample_chunk] len
    by (auto simp: sample_chunk_def)
qed

text \<open>
  C18: \<open>buildChunks\<close> splits a message completely and within the limit. For slices that lie in
  memory and a maximal chunk size above the largest header, it succeeds; the data of the chunks,
  concatenated, is the message; every chunk carries the message id, the total length, at least
  one and at most \<open>maxChunkSize - 24\<close> bytes of data (so header and data never exceed the limit);
  each part is cut into as few chunks as that allows; and below \<open>2 ^ 31\<close> chunks the chunk number
  fields are right: only the first chunk is flagged as first, it carries the number of chunks,
  and chunk \<open>i\<close> has index \<open>i\<close>.
\<close>

theorem buildChunks_correct:
  assumes "vpack_ok L" and "\<forall>s \<in> set ss. slice_ok L s" and "ss \<noteq> []" and "24 < unat maxChunk"
  shows "\<exists>cs. buildChunks L u mid maxChunk ss = Inr cs \<and>
    concat (map chunk_data cs) = concat (map (slice_bytes L) ss) \<and>
    (\<forall>c \<in> set cs. data_ok c \<and> ch_messageID c = mid \<and>
       ch_messageLength c = of_nat (length (concat (map (slice_bytes L) ss))) \<and>
       0 < cb_size (ch_data c) \<and> length (wire_chunk v c) \<le> unat maxChunk) \<and>
    length cs = sum_list (map (\<lambda>s. chunk_count (unat maxChunk - 24) (length (slice_bytes L s))) ss) \<and>
    (length cs < 2 ^ 31 \<longrightarrow>
       unat (numberOfChunks (cs ! 0)) = length cs \<and>
       (\<forall>i < length cs. unat (index (cs ! i)) = i \<and> (isFirst (cs ! i) \<longleftrightarrow> i = 0)))"
proof -
  obtain c cs where b: "buildChunks L u mid maxChunk ss =
        Inr (c\<lparr>ch_chunkX := of_nat (2 * Suc (length cs) + 1)\<rparr> # cs)"
    and cf: "chunks_for mid (of_nat (sum_list (map (length \<circ> slice_bytes L) ss))) (unat maxChunk - 24) 0
        (c # cs) (concat (map (slice_bytes L) ss))"
    and len: "Suc (length cs) = sum_list (map (chunk_count (unat maxChunk - 24) \<circ> length \<circ> slice_bytes L) ss)"
    using buildChunks_spec [OF assms] by blast
  let ?cs = "c\<lparr>ch_chunkX := of_nat (2 * Suc (length cs) + 1)\<rparr> # cs"
  have "data_ok x \<and> ch_messageID x = mid \<and>
      ch_messageLength x = of_nat (length (concat (map (slice_bytes L) ss))) \<and>
      0 < cb_size (ch_data x) \<and> length (wire_chunk v x) \<le> unat maxChunk" if "x \<in> set ?cs" for x
  proof -
    have *: "data_ok x \<and> ch_messageID x = mid \<and>
      ch_messageLength x = of_nat (length (concat (map (slice_bytes L) ss))) \<and>
      0 < cb_size (ch_data x) \<and> cb_size (ch_data x) \<le> unat maxChunk - 24"
      using that cf by (auto simp: chunks_for_def length_concat comp_def)
    then have "length (wire_chunk v x) = length (header_bytes v x) + cb_size (ch_data x)"
      by (intro length_wire_chunk) simp
    with * assms(4) length_header_bytes_le [of v x] show ?thesis by linarith
  qed
  moreover have "concat (map chunk_data ?cs) = concat (map (slice_bytes L) ss)"
    using cf by (simp add: chunks_for_def)
  moreover have "length ?cs < 2 ^ 31 \<Longrightarrow> message_chunks mid ?cs (concat (map (slice_bytes L) ss))"
    by (rule chunks_for_message [OF cf]) simp
  ultimately show ?thesis
    using b len by (intro exI [of _ ?cs]) (auto simp: message_chunks_def comp_def)
qed

theorem buildChunks_correct_witness:
  "\<exists>cs. buildChunks sized_vpack sample_chunk 7 26 [[5, 1, 2, 3, 4], [1]] = Inr cs \<and>
     concat (map chunk_data cs) = [5, 1, 2, 3, 4, 1] \<and> length cs = 4 \<and>
     unat (numberOfChunks (cs ! 0)) = 4 \<and> unat (index (cs ! 3)) = 3"
proof -
  have ss: "\<forall>s \<in> set [[5, 1, 2, 3, 4], [1 :: byte]]. slice_ok sized_vpack s"
    by (simp add: slice_ok_def size_byte_def)
  have bytes: "map (slice_bytes sized_vpack) [[5, 1, 2, 3, 4], [1]] = [[5, 1, 2, 3, 4], [1]]"
    by (simp add: slice_bytes_def size_byte_def)
  then have count: "sum_list (map (\<lambda>s. chunk_count (unat (26 :: u32) - 24) (length (slice_bytes sized_vpack s)))
      [[5, 1, 2, 3, 4], [1]]) = 4"
    by (simp add: chunk_count_def)
  obtain cs where "buildChunks sized_vpack sample_chunk 7 26 [[5, 1, 2, 3, 4], [1]] = Inr cs"
    and "concat (map chunk_data cs) = concat (map (slice_bytes sized_vpack) [[5, 1, 2, 3, 4], [1]])"
    and "length cs = 4"
    and "length cs < 2 ^ 31 \<longrightarrow> unat (numberOfChunks (cs ! 0)) = length cs \<and>
       (\<forall>i < length cs. unat (index (cs ! i)) = i \<and> (isFirst (cs ! i) \<longleftrightarrow> i = 0))"
    using buildChunks_correct [OF sized_vpack_ok ss, of 26 sample_chunk 7 VST1_0] count by auto
  with bytes show ?thesis by (intro exI [of _ cs]) simp
qed

text \<open>
  C40: a chunk whose length field is smaller than its header is accepted. In VST 1.1 a received
  length field \<open>n\<close> with \<open>0 < n < 24\<close> is reported as a complete chunk of \<open>n\<close> bytes, but the reader
  computes \<open>n - 24\<close> in unsigned arithmetic: once 24 bytes are in the buffer the chunk claims more
  than \<open>2 ^ 63\<close> bytes of data, and copying them is undefined for any buffer of less than that.
\<close>

theorem short_chunk_overread:
  assumes "24 \<le> length bs" and "length bs < 2 ^ 63"
    and "0 < unat (rd32 bs)" and "unat (rd32 bs) < 24"
  shows "isChunkComplete bs = unat (rd32 bs) \<and>
    (\<exists>c. readChunkHeader VST1_1 u bs = Inr c \<and> 2 ^ 63 < cb_size (ch_data c) \<and>
         buffer_bytes (ch_data c) = Inl over_read)"
proof -
  have "content_length (rd32 bs) 24 = 2 ^ 64 - (24 - unat (rd32 bs))"
    unfolding content_length_def using assms(4)
    by (subst unat_sub_if_size) (simp add: word_size)
  with assms show ?thesis
    by (auto simp: isChunkComplete_def readChunkHeaderVST1_1_def mem32_def mem64_def
        header_size_defs buffer_bytes_def over_read_def)
qed

theorem short_chunk_overread_witness:
  "\<exists>c. readChunkHeader VST1_1 sample_chunk ([5, 0, 0, 0] @ replicate 20 0) = Inr c \<and>
       buffer_bytes (ch_data c) = Inl over_read"
proof -
  have "rd32 ([5, 0, 0, 0] @ replicate 20 0) = 5"
    by (simp add: rd32_def)
  then show ?thesis
    using short_chunk_overread [of "[5, 0, 0, 0] @ replicate 20 0" sample_chunk] by auto
qed

lemma mod_2_32:
  fixes n :: nat
  shows "(2 * n) mod 2 ^ 32 = 2 * (n mod 2 ^ 31)" and "(2 * n + 1) mod 2 ^ 32 = 2 * (n mod 2 ^ 31) + 1"
  using mod_mult2_eq [of "2 * n" 2 "2 ^ 31"] mod_mult2_eq [of "2 * n + 1" 2 "2 ^ 31"] by simp_all

lemma unat_u32_of_nat: "unat (of_nat n :: u32) = n mod 2 ^ 32"
  by (simp add: unat_of_nat)

text \<open>
  C19: the limits of the fields. Whatever the size of the message, the number of chunks in the first
  chunk is the real one modulo \<open>2 ^ 31\<close>, the index of chunk \<open>i\<close> is \<open>i\<close> modulo \<open>2 ^ 31\<close>, only the
  first chunk is flagged as first, the total length is right modulo \<open>2 ^ 64\<close>, and the 32 bit length
  field of each chunk is exact.
\<close>

lemma buildChunks_layout:
  assumes "vpack_ok L" and "\<forall>s \<in> set ss. slice_ok L s" and "ss \<noteq> []" and "24 < unat maxChunk"
    and "buildChunks L u mid maxChunk ss = Inr cs" and "i < length cs"
  shows "ch_chunkX (cs ! i) = (if i = 0 then of_nat (2 * length cs + 1) else of_nat (2 * i))"
    and "ch_messageLength (cs ! i) = of_nat (length (concat (map (slice_bytes L) ss)))"
    and "data_ok (cs ! i)" and "cb_size (ch_data (cs ! i)) \<le> unat maxChunk - 24"
proof -
  obtain c ds where b: "cs = c\<lparr>ch_chunkX := of_nat (2 * Suc (length ds) + 1)\<rparr> # ds"
    and cf: "chunks_for mid (of_nat (sum_list (map (length \<circ> slice_bytes L) ss))) (unat maxChunk - 24) 0
        (c # ds) (concat (map (slice_bytes L) ss))"
    using buildChunks_spec [OF assms(1-4), of u mid] assms(5) by auto
  have "map ch_chunkX (c # ds) = map (\<lambda>i. of_nat (2 * i)) [0..<Suc (length ds)]"
    using cf by (simp add: chunks_for_def del: upt_Suc)
  from arg_cong [OF this, of "\<lambda>xs. xs ! i"] have x: "ch_chunkX ((c # ds) ! i) = of_nat (2 * i)"
    using assms(6) b nth_map [of i "c # ds" ch_chunkX] nth_map [of i "[0..<Suc (length ds)]" "\<lambda>i. of_nat (2 * i) :: u32"]
    by (simp del: upt_Suc list.map nth_map)
  then show "ch_chunkX (cs ! i) = (if i = 0 then of_nat (2 * length cs + 1) else of_nat (2 * i))"
    by (cases i) (simp_all add: b)
  have "cs ! i \<in> set cs" using assms(6) by simp
  with cf show "ch_messageLength (cs ! i) = of_nat (length (concat (map (slice_bytes L) ss)))"
    "data_ok (cs ! i)" "cb_size (ch_data (cs ! i)) \<le> unat maxChunk - 24"
    by (auto simp: chunks_for_def b length_concat comp_def)
qed

theorem buildChunks_field_bounds:
  assumes "vpack_ok L" and "\<forall>s \<in> set ss. slice_ok L s" and "ss \<noteq> []" and "24 < unat maxChunk"
    and "buildChunks L u mid maxChunk ss = Inr cs" and "i < length cs"
  shows "unat (numberOfChunks (cs ! 0)) = length cs mod 2 ^ 31 \<and>
    unat (index (cs ! i)) = i mod 2 ^ 31 \<and> (isFirst (cs ! i) \<longleftrightarrow> i = 0) \<and>
    unat (ch_messageLength (cs ! i)) = length (concat (map (slice_bytes L) ss)) mod 2 ^ 64 \<and>
    isChunkComplete (wire_chunk v (cs ! i)) = length (wire_chunk v (cs ! i))"
proof -
  note layout = buildChunks_layout [OF assms(1-5)]
  have "0 < length cs" using assms(6) by linarith
  then have x0: "unat (ch_chunkX (cs ! 0)) = (2 * length cs + 1) mod 2 ^ 32"
    by (simp only: layout(1) simp_thms if_True unat_u32_of_nat)
  have chunkX: "unat (ch_chunkX (cs ! i)) = (if i = 0 then (2 * length cs + 1) mod 2 ^ 32 else (2 * i) mod 2 ^ 32)"
    by (simp only: layout(1) [OF assms(6)] if_distrib [of unat] unat_u32_of_nat)
  have "length (wire_chunk v (cs ! i)) \<le> unat maxChunk"
    using length_wire_chunk [OF layout(3) [OF assms(6)], of v] length_header_bytes_le [of v "cs ! i"]
      layout(4) [OF assms(6)] assms(4) by linarith
  then have "length (wire_chunk v (cs ! i)) < 2 ^ 32"
    using unsigned_less [of maxChunk, where ?'a = nat] by simp
  from isChunkComplete_wire [OF layout(3) [OF assms(6)] this, of "[]"]
  have "isChunkComplete (wire_chunk v (cs ! i)) = length (wire_chunk v (cs ! i))" by simp
  moreover have "unat (numberOfChunks (cs ! 0)) = length cs mod 2 ^ 31"
    unfolding numberOfChunks_unat isFirst_unat x0 mod_2_32 by simp
  moreover have "isFirst (cs ! i) \<longleftrightarrow> i = 0" unfolding isFirst_unat chunkX mod_2_32 by simp
  moreover have "unat (index (cs ! i)) = i mod 2 ^ 31"
    unfolding index_unat isFirst_unat chunkX mod_2_32 by simp
  moreover have "unat (ch_messageLength (cs ! i)) = length (concat (map (slice_bytes L) ss)) mod 2 ^ 64"
    by (simp only: layout(2) [OF assms(6)] unat_of_nat) simp
  ultimately show ?thesis by blast
qed

theorem buildChunks_field_bounds_witness:
  "\<exists>cs. buildChunks sized_vpack sample_chunk 7 26 [[5, 1, 2, 3, 4], [1]] = Inr cs \<and>
     unat (index (cs ! 2)) = 2 \<and> isChunkComplete (wire_chunk VST1_0 (cs ! 2)) = length (wire_chunk VST1_0 (cs ! 2))"
proof -
  have ss: "\<forall>s \<in> set [[5, 1, 2, 3, 4], [1 :: byte]]. slice_ok sized_vpack s"
    by (simp add: slice_ok_def size_byte_def)
  have m: "24 < unat (26 :: u32)" by simp
  obtain cs where cs: "buildChunks sized_vpack sample_chunk 7 26 [[5, 1, 2, 3, 4], [1]] = Inr cs" "length cs = 4"
    using buildChunks_spec [OF sized_vpack_ok ss _ m, of sample_chunk 7]
    by (auto simp: slice_bytes_def size_byte_def chunk_count_def)
  with buildChunks_field_bounds [OF sized_vpack_ok ss _ m cs(1), of 2 VST1_0] show ?thesis by simp
qed

end
