(* ===== verification/CallOnce.thy ===== *)
theory CallOnce
  imports Types
begin

text \<open>
  \<open>src/src/CallOnceRequestCallback.h\<close>: a callback that is invoked no more than once. The atomic
  \<open>exchange\<close> makes each \<open>invoke\<close> one step: whatever the threads do, the calls happen in some
  order, and only the first one finds the flag clear. \<open>'cb\<close> identifies the callback.
\<close>

record 'cb CallOnceRequestCallback =
  co_invoked :: bool
  co_cb :: "'cb option"

definition CallOnce_new :: "'cb CallOnceRequestCallback" where
  "CallOnce_new = \<lparr>co_invoked = False, co_cb = None\<rparr>"

definition CallOnce_assign :: "'cb \<Rightarrow> 'cb CallOnceRequestCallback \<Rightarrow> 'cb CallOnceRequestCallback" where
  "CallOnce_assign cb c = c\<lparr>co_cb := Some cb\<rparr>"

text \<open>The second component is the callback that is really called, if any.\<close>

definition invoke ::
  "'cb CallOnceRequestCallback \<Rightarrow> ('cb CallOnceRequestCallback \<times> 'cb option) res"
where
  "invoke c =
     (if co_invoked c then Inr (c, None)
      else bind_res (check (co_cb c \<noteq> None) (Assertion ''_cb'')) (\<lambda>_.
             Inr (\<lparr>co_invoked = True, co_cb = None\<rparr>, co_cb c)))"

text \<open>A sequence of invocations, with the list of calls made.\<close>

fun invoke_all ::
  "nat \<Rightarrow> 'cb CallOnceRequestCallback \<Rightarrow> ('cb CallOnceRequestCallback \<times> 'cb list) res"
where
  "invoke_all 0 c = Inr (c, [])"
| "invoke_all (Suc n) c =
     bind_res (invoke c) (\<lambda>(c', call).
     bind_res (invoke_all n c') (\<lambda>(c'', calls).
     Inr (c'', (case call of None \<Rightarrow> calls | Some cb \<Rightarrow> cb # calls))))"

definition callonce_inv :: "'cb CallOnceRequestCallback \<Rightarrow> bool" where
  "callonce_inv c \<longleftrightarrow> (co_invoked c \<longleftrightarrow> co_cb c = None)"

lemma callonce_inv_init: "callonce_inv (CallOnce_assign cb CallOnce_new)"
  by (simp add: callonce_inv_def CallOnce_assign_def CallOnce_new_def)

lemma invoke_inv:
  "callonce_inv c \<Longrightarrow> \<exists>c'. invoke c = Inr (c', co_cb c) \<and> callonce_inv c' \<and> co_invoked c' \<and> co_cb c' = None"
  by (cases c) (auto simp: invoke_def callonce_inv_def)

lemma invoke_all_done: "co_invoked c \<Longrightarrow> invoke_all n c = Inr (c, [])"
  by (induction n) (auto simp: invoke_def)

text \<open>
  A callback is called at most once. Whatever the number \<open>n\<close> of \<open>invoke\<close> calls on a freshly
  assigned \<open>CallOnceRequestCallback\<close>, none fails, and the callback is called exactly once if
  \<open>n > 0\<close> and not at all otherwise.
\<close>

theorem invoke_at_most_once:
  "\<exists>c'. invoke_all n (CallOnce_assign cb CallOnce_new) = Inr (c', if n = 0 then [] else [cb])"
proof (cases n)
  case 0
  then show ?thesis by simp
next
  case (Suc m)
  obtain c' where "invoke (CallOnce_assign cb CallOnce_new) = Inr (c', Some cb)" and "co_invoked c'"
    using invoke_inv [OF callonce_inv_init, of cb] by (auto simp: CallOnce_assign_def)
  with Suc show ?thesis by (simp add: invoke_all_done)
qed

end
