(* ===== verification/VstItem.thy ===== *)
theory VstItem
  imports Message VstChunk CallOnce
begin

text \<open>
  The message layer of \<open>src/src/vst.h\<close> and \<open>src/src/vst.cpp\<close>: the VST message header, the request item
  with the buffers that are handed to the socket, and the reassembly of a response from its
  chunks. \<open>sliceToStringMap\<close> of \<open>src/src/helper.cpp\<close> and \<open>VstConnection::createResponse\<close>, which only
  work on this data, are here as well. \<open>'cb\<close> identifies user callbacks.
\<close>

text \<open>A buffer of the send list: a range of \<open>_requestChunkBuffer\<close>, or the data of a chunk.\<close>

datatype buffer_ref = Header_Ref nat nat | Data_Ref const_buffer

record 'cb RequestItem =
  ri_request :: "Request option"
  ri_callback :: "'cb CallOnceRequestCallback"
  ri_messageID :: MessageID
  ri_msgHdr :: VBuffer
  ri_requestChunkBuffer :: VBuffer
  ri_requestBuffers :: "buffer_ref list"
  ri_responseChunks :: "ChunkHeader list"
  ri_responseChunkContent :: VBuffer
  ri_responseNumberOfChunks :: nat

text \<open>\<open>std::make_shared<RequestItem>()\<close> value-initialises the item.\<close>

definition RequestItem_new :: "'cb RequestItem" where
  "RequestItem_new =
     \<lparr>ri_request = None, ri_callback = CallOnce_new, ri_messageID = 0, ri_msgHdr = [],
      ri_requestChunkBuffer = [], ri_requestBuffers = [], ri_responseChunks = [],
      ri_responseChunkContent = [], ri_responseNumberOfChunks = 0\<rparr>"

section \<open>Sending\<close>

definition string_map_calls :: "StringMap option \<Rightarrow> vb_call list" where
  "string_map_calls m =
     [OpenObject] @
     (case m of None \<Rightarrow> [] | Some items \<Rightarrow> map (\<lambda>(k, v). AddKeyString k v) items) @
     [CloseCompound]"

definition not_set :: "string \<Rightarrow> exn" where
  "not_set what = Runtime_error (what @ '' for message not set'')"

definition createVstMessageHeader_calls :: "MessageHeader \<Rightarrow> vb_call list res" where
  "createVstMessageHeader_calls h =
     bind_res (opt_get (h_version h)) (\<lambda>version.
     bind_res (opt_get (h_type h)) (\<lambda>type.
     bind_res
       (case type of
          Authentication \<Rightarrow>
            bind_res (opt_get (h_encryption h)) (\<lambda>encryption.
            if encryption = ''plain'' then
              bind_res (opt_get (h_user h)) (\<lambda>user.
              bind_res (opt_get (h_password h)) (\<lambda>password.
              Inr [AddString encryption, AddString user, AddString password]))
            else if encryption = ''jwt'' then
              bind_res (opt_get (h_token h)) (\<lambda>token.
              Inr [AddString encryption, AddString token])
            else Inl (Invalid_argument (''unknown encryption: '' @ encryption)))
        | Request_Type \<Rightarrow>
            (case h_database h of None \<Rightarrow> Inl (not_set ''database'') | Some database \<Rightarrow>
            (case h_restVerb h of None \<Rightarrow> Inl (not_set ''rest verb'') | Some verb \<Rightarrow>
            (case h_path h of None \<Rightarrow> Inl (not_set ''path'') | Some path \<Rightarrow>
              Inr ([AddString database, AddInt (RestVerb_to_int verb), AddString path] @
                   string_map_calls (h_parameters h) @ string_map_calls (h_meta h)))))
        | Response_Type \<Rightarrow>
            (case h_responseCode h of
               None \<Rightarrow> Inl (not_set ''response code'')
             | Some code \<Rightarrow> Inr [AddUInt code])
        | _ \<Rightarrow> Inr []) (\<lambda>body.
     Inr ([OpenArray, AddInt version, AddInt (MessageType_to_int type)] @ body @ [CloseCompound]))))"

definition createVstMessageHeader :: "velocypack \<Rightarrow> MessageHeader \<Rightarrow> VBuffer res" where
  "createVstMessageHeader L h =
     bind_res (createVstMessageHeader_calls h) (\<lambda>calls. Inr (vp_build L calls))"

fun prepare_loop ::
  "VSTVersion \<Rightarrow> ChunkHeader list \<Rightarrow> VBuffer \<Rightarrow> buffer_ref list \<Rightarrow> VBuffer \<times> buffer_ref list"
where
  "prepare_loop v [] buffer refs = (buffer, refs)"
| "prepare_loop v (c # cs) buffer refs =
     (let chunkOffset = length buffer; (buffer', chunkHdrLen) = writeHeader v c buffer
      in prepare_loop v cs buffer'
           (refs @ [Header_Ref chunkOffset chunkHdrLen, Data_Ref (ch_data c)]))"

definition prepareForNetwork ::
  "velocypack \<Rightarrow> ChunkHeader \<Rightarrow> VSTVersion \<Rightarrow> 'cb RequestItem \<Rightarrow> 'cb RequestItem res"
where
  "prepareForNetwork L u vstVersion item =
     (case ri_request item of
        None \<Rightarrow> Inl (Undefined ''null _request'')
      | Some request \<Rightarrow>
          let h = (r_header request)\<lparr>h_version := Some 1\<rparr>;
              h = (if h_database h = None then h\<lparr>h_database := Some ''_system''\<rparr> else h)
          in bind_res (createVstMessageHeader L h) (\<lambda>msgHdr.
             bind_res (Request_slices L (request\<lparr>r_header := h\<rparr>)) (\<lambda>(slices, request).
             bind_res (buildChunks L u (ri_messageID item) defaultMaxChunkSize (msgHdr # slices)) (\<lambda>chunks.
             let (buffer, refs) = prepare_loop vstVersion chunks
                   (ri_requestChunkBuffer item) (ri_requestBuffers item)
             in Inr (item\<lparr>ri_request := Some request, ri_msgHdr := msgHdr,
                          ri_requestChunkBuffer := buffer, ri_requestBuffers := refs\<rparr>)))))"

text \<open>The bytes the socket sends for the buffers of an item.\<close>

fun ref_bytes :: "VBuffer \<Rightarrow> buffer_ref \<Rightarrow> byte list res" where
  "ref_bytes buffer (Header_Ref off n) = buffer_bytes \<lparr>cb_mem = drop off buffer, cb_size = n\<rparr>"
| "ref_bytes buffer (Data_Ref b) = buffer_bytes b"

definition wire_bytes :: "'cb RequestItem \<Rightarrow> byte list res" where
  "wire_bytes item =
     bind_res (map_res (ref_bytes (ri_requestChunkBuffer item)) (ri_requestBuffers item)) (\<lambda>bs.
     Inr (concat bs))"

definition resetSendData :: "'cb RequestItem \<Rightarrow> 'cb RequestItem" where
  "resetSendData item = item\<lparr>ri_msgHdr := [], ri_requestBuffers := [], ri_requestChunkBuffer := []\<rparr>"

section \<open>Receiving\<close>

definition addChunk :: "ChunkHeader \<Rightarrow> 'cb RequestItem \<Rightarrow> 'cb RequestItem res" where
  "addChunk chunk item =
     bind_res (buffer_bytes (ch_data chunk)) (\<lambda>content.
     let chunk' = chunk\<lparr>ch_responseContentLength := cb_size (ch_data chunk),
                        ch_responseChunkContentOffset := length (ri_responseChunkContent item),
                        ch_data := const_buffer_empty\<rparr>
     in Inr (item\<lparr>ri_responseChunkContent := ri_responseChunkContent item @ content,
                  ri_responseChunks := ri_responseChunks item @ [chunk'],
                  ri_responseNumberOfChunks :=
                    (if isFirst chunk' then unat (numberOfChunks chunk')
                     else ri_responseNumberOfChunks item)\<rparr>))"

text \<open>
  \<open>std::sort\<close> by \<open>chunkByIndex\<close> is a sort by index. It is not stable: where two chunks have the same
  index the standard leaves their order open, and the model takes the stable one; the theorems
  below are about distinct indices, where the result is unique.
\<close>

definition chunk_content :: "VBuffer \<Rightarrow> ChunkHeader \<Rightarrow> byte list res" where
  "chunk_content content c =
     buffer_bytes \<lparr>cb_mem = drop (ch_responseChunkContentOffset c) content,
                   cb_size = ch_responseContentLength c\<rparr>"

definition assemble :: "'cb RequestItem \<Rightarrow> ('cb RequestItem \<times> VBuffer option) res" where
  "assemble item =
     (if ri_responseNumberOfChunks item = 0 then Inr (item, None)
      else if length (ri_responseChunks item) < ri_responseNumberOfChunks item then Inr (item, None)
      else
        let chunks = sort_key index (ri_responseChunks item)
        in bind_res (map_res (chunk_content (ri_responseChunkContent item)) chunks) (\<lambda>parts.
           Inr (item\<lparr>ri_responseChunks := chunks\<rparr>, Some (concat parts))))"

fun sliceToStringMap_loop :: "velocypack \<Rightarrow> (VSlice \<times> VSlice) list \<Rightarrow> StringMap \<Rightarrow> StringMap res" where
  "sliceToStringMap_loop L [] rv = Inr rv"
| "sliceToStringMap_loop L ((k, v) # ms) rv =
     bind_res (vp_copyString L k) (\<lambda>key.
     bind_res (vp_copyString L v) (\<lambda>value.
     sliceToStringMap_loop L ms (map_emplace key value rv)))"

definition sliceToStringMap :: "velocypack \<Rightarrow> VSlice \<Rightarrow> StringMap res" where
  "sliceToStringMap L s =
     bind_res (check (vp_isObject L s) (Assertion ''slice.isObject()'')) (\<lambda>_.
     sliceToStringMap_loop L (vp_members L s) [])"

definition at_with :: "velocypack \<Rightarrow> VSlice \<Rightarrow> nat \<Rightarrow> (VSlice \<Rightarrow> 'a res) \<Rightarrow> 'a res" where
  "at_with L s i f = bind_res (vp_at L s i) f"

definition messageHeaderFromSlice :: "velocypack \<Rightarrow> int \<Rightarrow> VSlice \<Rightarrow> MessageHeader res" where
  "messageHeaderFromSlice L vstVersionID s =
     bind_res (check (vp_isArray L s) (Assertion ''headerSlice.isArray()'')) (\<lambda>_.
     bind_res (vp_byteSize L s) (\<lambda>byteSize.
     bind_res (set_contentType (if vstVersionID = 1 then VPack else Unset)
       (MessageHeader_new\<lparr>h_byteSize := Some byteSize\<rparr>)) (\<lambda>h.
     bind_res (at_with L s 0 (vp_getNumber_int L)) (\<lambda>version.
     bind_res (at_with L s 1 (vp_getNumber_int L)) (\<lambda>type.
     let h = h\<lparr>h_version := Some version, h_type := Some (MessageType_of_int type)\<rparr>
     in case MessageType_of_int type of
          Authentication \<Rightarrow>
            bind_res (at_with L s 2 (vp_copyString L)) (\<lambda>user.
            bind_res (at_with L s 3 (vp_copyString L)) (\<lambda>password.
            Inr (h\<lparr>h_user := Some user, h_password := Some password\<rparr>)))
        | Request_Type \<Rightarrow>
            bind_res (at_with L s 2 (vp_copyString L)) (\<lambda>database.
            bind_res (at_with L s 3 (vp_getInt L)) (\<lambda>verb.
            bind_res (at_with L s 4 (vp_copyString L)) (\<lambda>path.
            bind_res (at_with L s 5 (sliceToStringMap L)) (\<lambda>parameters.
            bind_res (at_with L s 6 (sliceToStringMap L)) (\<lambda>meta.
            Inr (h\<lparr>h_database := Some database, h_restVerb := Some (RestVerb_of_int verb),
                   h_path := Some path, h_parameters := Some parameters, h_meta := Some meta\<rparr>))))))
        | Response_Type \<Rightarrow>
            bind_res (at_with L s 2 (vp_getUInt L)) (\<lambda>code.
            bind_res (set_contentType VPack (h\<lparr>h_responseCode := Some (ucast code)\<rparr>)) (\<lambda>h.
            if 4 \<le> vp_length L s
            then bind_res (at_with L s 3 (sliceToStringMap L)) (\<lambda>meta. Inr (h\<lparr>h_meta := Some meta\<rparr>))
            else Inr h))
        | _ \<Rightarrow> Inr h)))))"

definition validateAndExtractMessageHeader ::
  "velocypack \<Rightarrow> int \<Rightarrow> byte list \<Rightarrow> (MessageHeader \<times> nat) res"
where
  "validateAndExtractMessageHeader L vstVersionID vpStart =
     (case vp_validate L vpStart of
        Inl e \<Rightarrow> Inl (Runtime_error (''error during validation of incoming VPack (HEADER): '' @ exn_what e))
      | Inr _ \<Rightarrow>
          bind_res (vp_byteSize L vpStart) (\<lambda>headerLength.
          bind_res (messageHeaderFromSlice L vstVersionID vpStart) (\<lambda>h.
          Inr (h, headerLength))))"

definition createResponse :: "velocypack \<Rightarrow> 'cb RequestItem \<Rightarrow> VBuffer \<Rightarrow> Response res" where
  "createResponse L item responseBuffer =
     bind_res (validateAndExtractMessageHeader L 1 responseBuffer) (\<lambda>(messageHeader, messageHeaderLength).
     Inr (setPayload responseBuffer messageHeaderLength
            ((Response_new messageHeader [])\<lparr>s_messageID := ri_messageID item\<rparr>)))"

section \<open>Sending: lemmas\<close>

fun chunk_refs :: "VSTVersion \<Rightarrow> ChunkHeader list \<Rightarrow> nat \<Rightarrow> buffer_ref list" where
  "chunk_refs v [] off = []"
| "chunk_refs v (c # cs) off =
     [Header_Ref off (length (header_bytes v c)), Data_Ref (ch_data c)] @
     chunk_refs v cs (off + length (header_bytes v c))"

lemma prepare_loop_eq:
  "prepare_loop v cs buffer refs =
     (buffer @ concat (map (header_bytes v) cs), refs @ chunk_refs v cs (length buffer))"
  by (induction cs arbitrary: buffer refs) (simp_all add: writeHeader_append)

lemma chunk_refs_bytes:
  "\<forall>c \<in> set cs. data_ok c \<Longrightarrow>
   map_res (ref_bytes (buffer @ concat (map (header_bytes v) cs))) (chunk_refs v cs (length buffer)) =
     Inr (concat (map (\<lambda>c. [header_bytes v c, chunk_data c]) cs))"
proof (induction cs arbitrary: buffer)
  case Nil
  then show ?case by simp
next
  case (Cons c cs)
  have "map_res (ref_bytes ((buffer @ header_bytes v c) @ concat (map (header_bytes v) cs)))
      (chunk_refs v cs (length (buffer @ header_bytes v c))) =
      Inr (concat (map (\<lambda>c. [header_bytes v c, chunk_data c]) cs))"
    using Cons by (intro Cons.IH) simp
  with Cons.prems show ?case by (simp add: buffer_bytes_def)
qed

lemma concat_pairs: "concat (concat (map (\<lambda>c. [f c, g c]) cs)) = concat (map (\<lambda>c. f c @ g c) cs)"
  by (induction cs) simp_all

lemma prepare_loop_wire:
  assumes "prepare_loop v cs [] [] = (buffer, refs)" and "\<forall>c \<in> set cs. data_ok c"
  shows "bind_res (map_res (ref_bytes buffer) refs) (\<lambda>bs. Inr (concat bs)) =
           Inr (concat (map (wire_chunk v) cs)) \<and>
         length buffer \<le> length cs * maxChunkHeaderSize"
proof -
  have "length buffer = sum_list (map (length \<circ> header_bytes v) cs)"
    using assms(1) by (auto simp: prepare_loop_eq length_concat comp_def)
  also have "\<dots> \<le> length cs * 24"
    by (rule sum_list_replicate_le) (simp add: length_header_bytes_le)
  finally have "length buffer \<le> length cs * 24" .
  moreover have "map_res (ref_bytes buffer) refs =
      Inr (concat (map (\<lambda>c. [header_bytes v c, chunk_data c]) cs))"
    using chunk_refs_bytes [OF assms(2), of "[]" v] assms(1) by (simp add: prepare_loop_eq)
  moreover have "wire_chunk v = (\<lambda>c. header_bytes v c @ chunk_data c)"
    by (simp add: fun_eq_iff wire_chunk_def)
  ultimately show ?thesis
    by (simp add: concat_pairs maxChunkHeaderSize_def)
qed

lemma Request_slices_header:
  "Request_slices L r = Inr (ss, r') \<Longrightarrow> Request_slices L (r\<lparr>r_header := h\<rparr>) = Inr (ss, r'\<lparr>r_header := h\<rparr>)"
  by (auto simp: Request_slices_def simp del: slices_loop.simps split: if_splits)

definition network_header :: "MessageHeader \<Rightarrow> MessageHeader" where
  "network_header h =
     (let h = h\<lparr>h_version := Some 1\<rparr>
      in if h_database h = None then h\<lparr>h_database := Some ''_system''\<rparr> else h)"

lemma createVstMessageHeader_ok:
  "h_type h = Some Request_Type \<Longrightarrow> h_restVerb h = Some verb \<Longrightarrow> h_path h = Some path \<Longrightarrow>
   \<exists>calls. createVstMessageHeader_calls (network_header h) = Inr calls \<and>
           createVstMessageHeader L (network_header h) = Inr (vp_build L calls)"
  by (auto simp: createVstMessageHeader_def createVstMessageHeader_calls_def network_header_def Let_def)

lemma prepareForNetwork_spec:
  assumes L: "vpack_ok L" and req: "ri_request item = Some r"
    and hdr: "createVstMessageHeader L (network_header (r_header r)) = Inr msgHdr"
    and sl: "Request_slices L r = Inr (ss, r')" and ok: "\<forall>s \<in> set ss. slice_ok L s"
    and fresh: "ri_requestChunkBuffer item = []" "ri_requestBuffers item = []"
  shows "\<exists>item' c cs. prepareForNetwork L u v item = Inr item' \<and>
     ri_msgHdr item' = msgHdr \<and>
     wire_bytes item' = Inr (concat (map (wire_chunk v) (c\<lparr>ch_chunkX := of_nat (2 * Suc (length cs) + 1)\<rparr> # cs))) \<and>
     length (ri_requestChunkBuffer item') \<le> Suc (length cs) * maxChunkHeaderSize \<and>
     chunks_for (ri_messageID item) (of_nat (length (msgHdr @ concat (map (slice_bytes L) ss)))) 29976 0
       (c # cs) (msgHdr @ concat (map (slice_bytes L) ss)) \<and>
     item' = item\<lparr>ri_request := Some (r'\<lparr>r_header := network_header (r_header r)\<rparr>), ri_msgHdr := msgHdr,
        ri_requestChunkBuffer := ri_requestChunkBuffer item', ri_requestBuffers := ri_requestBuffers item'\<rparr>"
proof -
  obtain calls where calls: "msgHdr = vp_build L calls"
    using hdr by (auto simp: createVstMessageHeader_def)
  have mh: "slice_ok L msgHdr" "slice_bytes L msgHdr = msgHdr"
    by (simp_all add: calls slice_ok_build [OF L] slice_bytes_build [OF L])
  have ok': "\<forall>s \<in> set (msgHdr # ss). slice_ok L s" using ok mh by simp
  have "24 < unat defaultMaxChunkSize" by (simp add: defaultMaxChunkSize_def)
  then obtain c cs where b: "buildChunks L u (ri_messageID item) defaultMaxChunkSize (msgHdr # ss) =
        Inr (c\<lparr>ch_chunkX := of_nat (2 * Suc (length cs) + 1)\<rparr> # cs)"
    and cf: "chunks_for (ri_messageID item) (of_nat (sum_list (map (length \<circ> slice_bytes L) (msgHdr # ss))))
        (unat defaultMaxChunkSize - 24) 0 (c # cs) (concat (map (slice_bytes L) (msgHdr # ss)))"
    using buildChunks_spec [OF L ok', of defaultMaxChunkSize u "ri_messageID item"] by blast
  let ?cs = "c\<lparr>ch_chunkX := of_nat (2 * Suc (length cs) + 1)\<rparr> # cs"
  obtain buffer refs where pl: "prepare_loop v ?cs [] [] = (buffer, refs)"
    by fastforce
  have dok: "\<forall>c \<in> set ?cs. data_ok c" using cf by (auto simp: chunks_for_def)
  let ?item' = "item\<lparr>ri_request := Some (r'\<lparr>r_header := network_header (r_header r)\<rparr>), ri_msgHdr := msgHdr,
        ri_requestChunkBuffer := buffer, ri_requestBuffers := refs\<rparr>"
  have "prepareForNetwork L u v item = Inr ?item'"
    using req hdr b pl fresh Request_slices_header [OF sl, of "network_header (r_header r)"]
    by (simp add: prepareForNetwork_def network_header_def Let_def)
  moreover have "wire_bytes ?item' = Inr (concat (map (wire_chunk v) ?cs))"
    and "length buffer \<le> length ?cs * maxChunkHeaderSize"
    using prepare_loop_wire [OF pl dok] by (simp_all add: wire_bytes_def)
  ultimately show ?thesis
    using cf mh by (intro exI [of _ ?item'] exI [of _ c] exI [of _ cs])
      (simp add: defaultMaxChunkSize_def length_concat comp_def)
qed

section \<open>Receiving: lemmas\<close>

fun addChunks :: "ChunkHeader list \<Rightarrow> 'cb RequestItem \<Rightarrow> 'cb RequestItem res" where
  "addChunks [] item = Inr item"
| "addChunks (c # cs) item = bind_res (addChunk c item) (addChunks cs)"

text \<open>The number of chunks that the first chunk among the received ones announces, 0 before it came.\<close>

definition announced :: "ChunkHeader list \<Rightarrow> nat" where
  "announced rs =
     (let firsts = filter isFirst rs in if firsts = [] then 0 else unat (numberOfChunks (last firsts)))"

text \<open>The state of an item that has received the chunks \<open>rs\<close>, in this order.\<close>

definition received :: "'cb RequestItem \<Rightarrow> ChunkHeader list \<Rightarrow> bool" where
  "received item rs \<longleftrightarrow>
     list_all2 (\<lambda>c' c. ch_chunkX c' = ch_chunkX c \<and>
         chunk_content (ri_responseChunkContent item) c' = Inr (chunk_data c))
       (ri_responseChunks item) rs \<and>
     ri_responseNumberOfChunks item = announced rs"

definition chunk_key :: "ChunkHeader \<Rightarrow> u32 \<times> byte list" where
  "chunk_key c = (ch_chunkX c, chunk_data c)"

lemma chunk_content_append:
  "chunk_content m c = Inr d \<Longrightarrow> chunk_content (m @ e) c = Inr d"
  by (auto simp: chunk_content_def buffer_bytes_def split: if_splits)

lemma announced_snoc:
  "announced (rs @ [c]) = (if isFirst c then unat (numberOfChunks c) else announced rs)"
  by (simp add: announced_def Let_def)

lemma addChunk_received:
  assumes "received item rs" and "data_ok c"
  obtains item' where "addChunk c item = Inr item'" and "received item' (rs @ [c])"
    and "ri_request item' = ri_request item" and "ri_callback item' = ri_callback item"
    and "ri_messageID item' = ri_messageID item"
proof -
  let ?m = "ri_responseChunkContent item"
  let ?c' = "c\<lparr>ch_responseContentLength := cb_size (ch_data c),
     ch_responseChunkContentOffset := length ?m, ch_data := const_buffer_empty\<rparr>"
  let ?item' = "item\<lparr>ri_responseChunkContent := ?m @ chunk_data c,
     ri_responseChunks := ri_responseChunks item @ [?c'],
     ri_responseNumberOfChunks :=
       (if isFirst ?c' then unat (numberOfChunks ?c') else ri_responseNumberOfChunks item)\<rparr>"
  have "addChunk c item = Inr ?item'"
    using assms(2) by (simp add: addChunk_def buffer_bytes_def Let_def)
  moreover have "chunk_content (?m @ chunk_data c) ?c' = Inr (chunk_data c)"
    using assms(2) by (simp add: chunk_content_def buffer_bytes_def)
  moreover have "list_all2 (\<lambda>c' c. ch_chunkX c' = ch_chunkX c \<and>
      chunk_content (?m @ chunk_data d) c' = Inr (chunk_data c)) (ri_responseChunks item) rs" for d
    using assms(1) unfolding received_def
    by (auto elim!: list_all2_mono intro: chunk_content_append)
  ultimately show ?thesis
    using assms(1) that [of ?item']
    by (simp add: received_def announced_snoc list_all2_appendI isFirst_def numberOfChunks_def)
qed

lemma addChunks_received:
  "received item rs \<Longrightarrow> \<forall>c \<in> set cs. data_ok c \<Longrightarrow>
     \<exists>item'. addChunks cs item = Inr item' \<and> received item' (rs @ cs) \<and>
       ri_request item' = ri_request item \<and> ri_callback item' = ri_callback item \<and>
       ri_messageID item' = ri_messageID item"
proof (induction cs arbitrary: item rs)
  case Nil
  then show ?case by simp
next
  case (Cons c cs)
  then obtain it where it: "addChunk c item = Inr it" "received it (rs @ [c])"
    "ri_request it = ri_request item" "ri_callback it = ri_callback item"
    "ri_messageID it = ri_messageID item"
    by (auto elim: addChunk_received)
  with Cons.IH [of it "rs @ [c]"] Cons.prems show ?case by simp
qed

lemma received_new:
  "ri_responseChunks item = [] \<Longrightarrow> ri_responseNumberOfChunks item = 0 \<Longrightarrow> received item []"
  by (simp add: received_def announced_def)

lemma isFirst_key: "isFirst c \<longleftrightarrow> fst (chunk_key c) AND 1 = 1"
  by (simp add: isFirst_def chunk_key_def)

lemma filter_isFirst_message:
  assumes "message_chunks mid cs data"
  shows "filter isFirst cs = [cs ! 0]"
proof -
  obtain c cs' where cs: "cs = c # cs'"
    using assms by (cases cs) (auto simp: message_chunks_def)
  have "isFirst (cs ! 0)" and "\<not> isFirst (cs' ! i)" if "i < length cs'" for i
    using assms that by (auto simp: message_chunks_def cs dest: spec [of _ "Suc i"])
  moreover have "isFirst c" using assms by (auto simp: message_chunks_def cs)
  ultimately show ?thesis
    by (auto simp: cs filter_empty_conv in_set_conv_nth)
qed

lemma filter_isFirst_perm:
  assumes "message_chunks mid cs data" and "mset (map chunk_key rs) = mset (map chunk_key cs)"
  obtains f where "filter isFirst rs = [f]" and "unat (numberOfChunks f) = length cs"
proof -
  let ?P = "\<lambda>k. fst k AND 1 = (1 :: u32)"
  have f: "mset (map chunk_key (filter isFirst xs)) = filter_mset ?P (mset (map chunk_key xs))" for xs
    by (induction xs) (auto simp: isFirst_key)
  have "mset (map chunk_key (filter isFirst rs)) = {#chunk_key (cs ! 0)#}"
    using f [of rs] f [of cs] assms(2) by (simp add: filter_isFirst_message [OF assms(1)])
  then have "map chunk_key (filter isFirst rs) = [chunk_key (cs ! 0)]"
    by (simp only: mset_single_iff)
  then obtain c where "filter isFirst rs = [c]" and "chunk_key c = chunk_key (cs ! 0)"
    by (auto simp: map_eq_Cons_conv)
  moreover from this(2) have "numberOfChunks c = numberOfChunks (cs ! 0)"
    by (simp add: chunk_key_def numberOfChunks_def)
  ultimately show ?thesis
    using assms(1) that by (simp add: message_chunks_def)
qed

lemma announced_perm:
  assumes "message_chunks mid cs data" and "mset (map chunk_key rs) = mset (map chunk_key cs)"
  shows "announced rs = length cs"
    and "n < length rs \<Longrightarrow> announced (take n rs) = 0 \<or> announced (take n rs) = length cs"
proof -
  obtain f where f: "filter isFirst rs = [f]" "unat (numberOfChunks f) = length cs"
    using filter_isFirst_perm [OF assms] .
  then show "announced rs = length cs" by (simp add: announced_def)
  have "filter isFirst (take n rs) @ filter isFirst (drop n rs) = [f]"
    using f by (metis append_take_drop_id filter_append)
  then have "filter isFirst (take n rs) = [] \<or> filter isFirst (take n rs) = [f]"
    by (auto simp: append_eq_Cons_conv)
  with f(2) show "announced (take n rs) = 0 \<or> announced (take n rs) = length cs"
    by (auto simp: announced_def)
qed

definition key_index :: "u32 \<times> byte list \<Rightarrow> u32 \<times> byte list" where
  "key_index k = ((if fst k AND 1 = 1 then 0 else drop_bit 1 (fst k)), snd k)"

lemma key_index_chunk: "key_index (chunk_key c) = (index c, chunk_data c)"
  by (simp add: key_index_def chunk_key_def index_def)

lemma message_index_sorted:
  assumes "message_chunks mid cs data"
  shows "map (unat \<circ> fst) (map (\<lambda>c. (index c, chunk_data c)) cs) = [0..<length cs]"
  using assms by (auto simp: message_chunks_def intro!: nth_equalityI)

lemma mset_map_sort_key: "mset (map f (sort_key k xs)) = mset (map f xs)"
  by simp

lemma assemble_received:
  assumes mc: "message_chunks mid cs data" and perm: "mset (map chunk_key rs) = mset (map chunk_key cs)"
    and rc: "received item rs"
  shows "assemble item = Inr (item\<lparr>ri_responseChunks := sort_key index (ri_responseChunks item)\<rparr>, Some data)"
proof -
  let ?cc = "chunk_content (ri_responseChunkContent item)"
  let ?g = "\<lambda>c. projr (?cc c)"
  let ?s = "sort_key index (ri_responseChunks item)"
  let ?p = "\<lambda>c. (index c, ?g c)"
  let ?q = "\<lambda>c. (index c, chunk_data c)"
  have all: "list_all2 (\<lambda>c' c. ?p c' = ?q c \<and> ?cc c' = Inr (?g c')) (ri_responseChunks item) rs"
    using rc unfolding received_def by (auto elim!: list_all2_mono simp: index_def)
  then have "map ?p (ri_responseChunks item) = map ?q rs"
    by (auto simp: list_all2_conv_all_nth list_eq_iff_nth_eq)
  then have "mset (map ?p ?s) = mset (map ?q rs)"
    by (simp only: mset_map_sort_key)
  also have "\<dots> = mset (map ?q cs)"
    using arg_cong [OF perm, of "image_mset key_index"] by (simp add: key_index_chunk multiset.map_comp comp_def)
  finally have m: "mset (map ?q cs) = mset (map ?p ?s)" by simp
  have idx: "map (unat \<circ> fst) (map ?q cs) = [0..<length cs]"
    by (rule message_index_sorted [OF mc])
  have "sorted (map index ?s)" by simp
  then have "sorted (map (unat \<circ> fst) (map ?p ?s))"
    by (simp add: sorted_map sorted_wrt_map word_le_nat_alt comp_def del: sorted_sort_key)
  then have "map ?q cs = map ?p ?s"
    using idx m by (intro sorted_map_unique [of "unat \<circ> fst"]) (simp_all del: map_map)
  then have "map snd (map ?q cs) = map snd (map ?p ?s)"
    by (rule arg_cong)
  then have parts: "map ?g ?s = map chunk_data cs"
    by (simp add: comp_def)
  have "?cc c = Inr (?g c)" if "c \<in> set (ri_responseChunks item)" for c
    using all that by (auto simp: list_all2_conv_all_nth in_set_conv_nth)
  then have "map_res ?cc ?s = Inr (map ?g ?s)"
    by (intro map_res_total) simp
  moreover have "ri_responseNumberOfChunks item = length cs" "length (ri_responseChunks item) = length cs"
    using rc announced_perm(1) [OF mc perm] arg_cong [OF perm, of size]
    by (auto simp: received_def list_all2_lengthD)
  ultimately show ?thesis
    using mc parts by (simp add: assemble_def message_chunks_def)
qed

lemma assemble_incomplete:
  assumes mc: "message_chunks mid cs data" and perm: "mset (map chunk_key rs) = mset (map chunk_key cs)"
    and n: "n < length rs" and rc: "received item (take n rs)"
  shows "assemble item = Inr (item, None)"
proof -
  have "length rs = length cs" using arg_cong [OF perm, of size] by simp
  moreover have "length (ri_responseChunks item) = n"
    using rc n by (auto simp: received_def dest: list_all2_lengthD)
  ultimately show ?thesis
    using announced_perm(2) [OF mc perm n] rc n by (auto simp: assemble_def received_def)
qed


section \<open>Properties of the message layer\<close>

text \<open>
  C11: what \<open>prepareForNetwork\<close> hands to the socket. For a request whose header can be encoded and
  whose slices lie in memory, it succeeds, and the send buffers of the item, in order, are the
  wire format of chunks whose data is the encoded header followed by the slices of the request;
  no chunk is longer than 30000 bytes on the wire; the header bytes fit in the space that was
  reserved for them, so the buffers that point into it stay valid; and below \<open>2 ^ 31\<close> chunks
  these are the well-formed chunks of one message with the id of the item.
\<close>

theorem prepareForNetwork_wire:
  assumes "vpack_ok L" and "ri_request item = Some r"
    and "createVstMessageHeader L (network_header (r_header r)) = Inr msgHdr"
    and "Request_slices L r = Inr (ss, r')" and "\<forall>s \<in> set ss. slice_ok L s"
    and "ri_requestChunkBuffer item = []" and "ri_requestBuffers item = []"
  shows "\<exists>item' cs. prepareForNetwork L u v item = Inr item' \<and>
    wire_bytes item' = Inr (concat (map (wire_chunk v) cs)) \<and>
    concat (map chunk_data cs) = msgHdr @ concat (map (slice_bytes L) ss) \<and>
    (\<forall>c \<in> set cs. length (wire_chunk v c) \<le> 30000) \<and>
    length (ri_requestChunkBuffer item') \<le> length cs * maxChunkHeaderSize \<and>
    (length cs < 2 ^ 31 \<longrightarrow>
       message_chunks (ri_messageID item) cs (msgHdr @ concat (map (slice_bytes L) ss)))"
proof -
  let ?data = "msgHdr @ concat (map (slice_bytes L) ss)"
  obtain item' c cs where p: "prepareForNetwork L u v item = Inr item'"
    and w: "wire_bytes item' =
      Inr (concat (map (wire_chunk v) (c\<lparr>ch_chunkX := of_nat (2 * Suc (length cs) + 1)\<rparr> # cs)))"
    and l: "length (ri_requestChunkBuffer item') \<le> Suc (length cs) * maxChunkHeaderSize"
    and cf: "chunks_for (ri_messageID item) (of_nat (length ?data)) 29976 0 (c # cs) ?data"
    using prepareForNetwork_spec [OF assms, of u v] by blast
  let ?cs = "c\<lparr>ch_chunkX := of_nat (2 * Suc (length cs) + 1)\<rparr> # cs"
  have "length (wire_chunk v x) \<le> 30000" if "x \<in> set ?cs" for x
  proof -
    have "data_ok x \<and> cb_size (ch_data x) \<le> 29976" using that cf by (auto simp: chunks_for_def)
    then show ?thesis using length_wire_chunk [of x v] length_header_bytes_le [of v x] by simp
  qed
  moreover have "concat (map chunk_data ?cs) = ?data"
    using cf by (simp add: chunks_for_def)
  moreover have "length ?cs < 2 ^ 31 \<Longrightarrow> message_chunks (ri_messageID item) ?cs ?data"
    by (rule chunks_for_message [OF cf]) simp
  ultimately show ?thesis
    using p w l by (intro exI [of _ item'] exI [of _ ?cs]) simp
qed

definition sample_request :: Request where
  "sample_request = Request_new (MessageHeader_new\<lparr>h_type := Some Request_Type,
     h_restVerb := Some Get, h_path := Some ''/_api/version''\<rparr>) []"

theorem prepareForNetwork_wire_witness:
  "\<exists>item' cs. prepareForNetwork sized_vpack sample_chunk VST1_1
     (RequestItem_new\<lparr>ri_request := Some sample_request, ri_messageID := 5\<rparr>) = Inr item' \<and>
     wire_bytes item' = Inr (concat (map (wire_chunk VST1_1) cs)) \<and>
     concat (map chunk_data cs) = [2, 11]"
proof -
  let ?item = "RequestItem_new\<lparr>ri_request := Some sample_request, ri_messageID := 5\<rparr>"
  have "createVstMessageHeader sized_vpack (network_header (r_header sample_request)) = Inr [2, 11]"
    by (simp add: sample_request_def Request_new_def Message_header_def createVstMessageHeader_def
        createVstMessageHeader_calls_def network_header_def MessageHeader_new_def string_map_calls_def
        addMeta_def)
  moreover have "Request_slices sized_vpack sample_request = Inr ([], sample_request)"
    by (simp add: sample_request_def Request_new_def Request_slices_def)
  ultimately show ?thesis
    using prepareForNetwork_wire [OF sized_vpack_ok, of ?item sample_request "[2, 11]" "[]" sample_request
        sample_chunk VST1_1]
    by (auto simp: RequestItem_new_def)
qed

text \<open>
  C12: a response is reassembled exactly once all of its chunks are there, in whatever order they
  arrive. For the chunks \<open>cs\<close> of one message and any order \<open>rs\<close> of received chunks with the same
  chunk numbers and contents, adding all of \<open>rs\<close> to a fresh item succeeds and \<open>assemble\<close>
  returns the data of the message; after any proper prefix of \<open>rs\<close>, \<open>assemble\<close> returns
  nothing and leaves the item as it is.
\<close>

theorem assemble_any_order:
  assumes "message_chunks mid cs data" and "mset (map chunk_key rs) = mset (map chunk_key cs)"
    and "\<forall>c \<in> set rs. data_ok c"
    and "ri_responseChunks item = []" and "ri_responseNumberOfChunks item = 0"
  shows "(\<exists>it it'. addChunks rs item = Inr it \<and> assemble it = Inr (it', Some data)) \<and>
    (\<forall>n < length rs. \<exists>it. addChunks (take n rs) item = Inr it \<and> assemble it = Inr (it, None))"
proof (intro conjI allI impI)
  have new: "received item []" using assms(4,5) by (rule received_new)
  show "\<exists>it it'. addChunks rs item = Inr it \<and> assemble it = Inr (it', Some data)"
    using addChunks_received [OF new assms(3)] assemble_received [OF assms(1,2)] by auto
  fix n assume n: "n < length rs"
  have "\<forall>c \<in> set (take n rs). data_ok c" using assms(3) by (auto dest: in_set_takeD)
  then show "\<exists>it. addChunks (take n rs) item = Inr it \<and> assemble it = Inr (it, None)"
    using addChunks_received [OF new] assemble_incomplete [OF assms(1,2) n] by fastforce
qed

definition sample_chunk2 :: ChunkHeader where
  "sample_chunk2 = sample_chunk\<lparr>ch_chunkX := 2, ch_data := \<lparr>cb_mem = [4, 5], cb_size = 2\<rparr>\<rparr>"

theorem assemble_any_order_witness:
  "(\<exists>it it'. addChunks [sample_chunk2, sample_chunk] (RequestItem_new :: nat RequestItem) = Inr it \<and>
     assemble it = Inr (it', Some [1, 2, 3, 4, 5])) \<and>
   (\<exists>it. addChunks [sample_chunk2] (RequestItem_new :: nat RequestItem) = Inr it \<and> assemble it = Inr (it, None))"
proof -
  have "message_chunks 77 [sample_chunk, sample_chunk2] [1, 2, 3, 4, 5]"
    by (simp add: message_chunks_def sample_chunk_def sample_chunk2_def isFirst_def index_def
        numberOfChunks_def less_Suc_eq)
  then show ?thesis
    using assemble_any_order [of 77 "[sample_chunk, sample_chunk2]" "[1, 2, 3, 4, 5]"
        "[sample_chunk2, sample_chunk]" "RequestItem_new :: nat RequestItem"]
    by (auto simp: RequestItem_new_def sample_chunk_def sample_chunk2_def add_mset_commute
        dest: spec [of _ "Suc 0"])
qed

end
