(* ===== verification/Helper.thy ===== *)
theory Helper
  imports Message
begin

text \<open>
  \<open>src/include/fuerte/helper.h\<close> and \<open>src/src/helper.cpp\<close>: the printing helpers and the URL codec.
  (\<open>sliceToStringMap\<close> is with its only caller in \<open>VstItem\<close>.) A stream insertion of a value is the
  argument \<open>sh\<close> of the templates. \<open>char\<close> is signed on the platforms the driver runs on; the
  comparisons below are only against ASCII bounds, for which the unsigned order gives the same
  answers.
\<close>

section \<open>Printing\<close>

fun quoted_list :: "('a \<Rightarrow> string) \<Rightarrow> 'a list \<Rightarrow> string" where
  "quoted_list sh [] = ''''"
| "quoted_list sh (x # xs) =
     CHR 0x22 # sh x @ [CHR 0x22] @ (if xs = [] then '' '' else '', '') @ quoted_list sh xs"

definition arrayToString :: "('a \<Rightarrow> string) \<Rightarrow> 'a list \<Rightarrow> string" where
  "arrayToString sh xs = (if xs = [] then ''[]'' else ''[ '' @ quoted_list sh xs @ '']'') @ endl"

definition mapToKeys :: "('k \<Rightarrow> string) \<Rightarrow> ('k, 'v) std_map \<Rightarrow> string" where
  "mapToKeys sh m = (if m = [] then ''Keys[]'' else ''Keys[ '' @ quoted_list (sh \<circ> fst) m @ '']'') @ endl"

text \<open>\<open>mapToString\<close> opens a quote before each value and does not close it.\<close>

fun map_entries :: "('k \<Rightarrow> string) \<Rightarrow> ('v \<Rightarrow> string) \<Rightarrow> ('k, 'v) std_map \<Rightarrow> string" where
  "map_entries shk shv [] = ''''"
| "map_entries shk shv ((k, v) # m) =
     CHR 0x22 # shk k @ [CHR 0x22] @ '' : '' @ [CHR 0x22] @ shv v @
     (if m = [] then '' '' else '', '') @ map_entries shk shv m"

definition mapToString :: "('k \<Rightarrow> string) \<Rightarrow> ('v \<Rightarrow> string) \<Rightarrow> ('k, 'v) std_map \<Rightarrow> string" where
  "mapToString shk shv m = (if m = [] then ''{}'' else ''{ '' @ map_entries shk shv m @ ''}'') @ endl"

text \<open>\<open>to_string(VSlice)\<close> catches what the library throws, and prints the message instead.\<close>

definition to_string_VSlice :: "velocypack \<Rightarrow> VSlice \<Rightarrow> string" where
  "to_string_VSlice L s =
     (case vp_toJson L s of
        Inl e \<Rightarrow> ''slice to string failed with: '' @ exn_what e
      | Inr json \<Rightarrow>
          (case vp_byteSize L s of
             Inl e \<Rightarrow> ''slice to string failed with: '' @ exn_what e
           | Inr n \<Rightarrow> json @ '', '' @ show_nat n @ '', '' @ show_nat (length json))) @ endl"

definition to_string_slices :: "velocypack \<Rightarrow> VSlice list \<Rightarrow> string" where
  "to_string_slices L ss = (if ss = [] then ''empty'' else concat (map (to_string_VSlice L) ss)) @ endl"

definition to_string_Message ::
  "velocypack \<Rightarrow> MessageID \<Rightarrow> MessageHeader \<Rightarrow> (VSlice list res) \<Rightarrow> (string res) \<Rightarrow> string res"
where
  "to_string_Message L mid h slices payload =
     bind_res (if contentType h = VPack
               then bind_res slices (\<lambda>ss. Inr (to_string_slices L ss)) else payload) (\<lambda>body.
     Inr (endl @ ''#### Message #####################################'' @ endl @
          ''Id:'' @ show_nat (unat mid) @ endl @ ''Header:'' @ endl @ to_string_MessageHeader h @
          endl @ ''Body:'' @ endl @ body @ endl @
          ''##################################################'' @ endl))"

section \<open>URL codec\<close>

definition hex2int :: "char \<Rightarrow> int \<Rightarrow> int" where
  "hex2int ch errorValue =
     (if CHR ''0'' \<le> ch \<and> ch \<le> CHR ''9'' then of_char ch - of_char (CHR ''0'')
      else if CHR ''A'' \<le> ch \<and> ch \<le> CHR ''F'' then of_char ch - of_char (CHR ''A'') + 10
      else if CHR ''a'' \<le> ch \<and> ch \<le> CHR ''f'' then of_char ch - of_char (CHR ''a'') + 10
      else errorValue)"

definition hexChars :: string where
  "hexChars = ''0123456789ABCDEF''"

definition url_plain :: "char \<Rightarrow> bool" where
  "url_plain c \<longleftrightarrow>
     (CHR ''0'' \<le> c \<and> c \<le> CHR ''9'') \<or> (CHR ''a'' \<le> c \<and> c \<le> CHR ''z'') \<or>
     (CHR ''A'' \<le> c \<and> c \<le> CHR ''Z'') \<or> c = CHR ''-'' \<or> c = CHR ''_'' \<or> c = CHR ''~''"

definition encode_char :: "char \<Rightarrow> string" where
  "encode_char c =
     (if url_plain c then [c]
      else let n = of_char c :: nat in [CHR ''%'', hexChars ! (n div 16), hexChars ! (n mod 16)])"

definition SIZE_MAX :: nat where "SIZE_MAX = 2 ^ 64 - 1"

definition urlEncode :: "string \<Rightarrow> string res" where
  "urlEncode s =
     (if (SIZE_MAX - 1) div 3 \<le> length s then Inl (Overflow_error ''out of memory'')
      else Inr (concat (map encode_char s)))"

definition urlEncode_ptr :: "string option \<Rightarrow> string res" where
  "urlEncode_ptr src = (case src of None \<Rightarrow> Inr '''' | Some s \<Rightarrow> urlEncode (c_str s))"

text \<open>The copying loop up to the next \<open>%\<close>: what it appends and where it stops.\<close>

fun copy_plain :: "string \<Rightarrow> string \<times> string" where
  "copy_plain [] = ([], [])"
| "copy_plain (c # cs) =
     (if c = CHR ''%'' then ([], c # cs)
      else let (out, rest) = copy_plain cs in ((if c = CHR ''+'' then CHR '' '' else c) # out, rest))"

definition char_of_int :: "int \<Rightarrow> char" where
  "char_of_int i = char_of (nat (i mod 256))"

text \<open>One round of the \<open>while\<close> at a \<open>%\<close>: what it appends and how far \<open>src\<close> moves.\<close>

definition decode_escape :: "string \<Rightarrow> string \<times> nat" where
  "decode_escape src =
     (if 2 < length src then
        let h1 = hex2int (src ! 1) (-1); h2 = hex2int (src ! 2) (-1)
        in if h1 = -1 then ([], 1)
           else if h2 = -1 then ([char_of_int h1], 2)
           else ([char_of_int (or (push_bit 4 h1) h2)], 3)
      else if 1 < length src then
        let h1 = hex2int (src ! 1) (-1)
        in if h1 = -1 then ([], 1) else ([char_of_int h1], 2)
      else ([], 1))"

lemma copy_plain_length: "length (snd (copy_plain s)) \<le> length s"
  by (induction s) (auto split: prod.splits)

lemma decode_escape_pos: "0 < snd (decode_escape src)"
  by (simp add: decode_escape_def Let_def)

lemma decode_step_shorter:
  assumes "src \<noteq> []" and "decode_escape src = (out, n)" and "copy_plain (drop n src) = (plain, rest)"
  shows "length rest < length src"
proof -
  have "length rest \<le> length src - n"
    using copy_plain_length [of "drop n src"] assms(3) by simp
  moreover have "0 < n" using decode_escape_pos [of src] assms(2) by simp
  ultimately show ?thesis using assms(1) by (cases src) auto
qed

function decode_loop :: "string \<Rightarrow> string" where
  "decode_loop src =
     (if src = [] then []
      else let (out, n) = decode_escape src; (plain, rest) = copy_plain (drop n src)
           in out @ plain @ decode_loop rest)"
  by pat_completeness auto
termination
  by (relation "measure length") (auto dest!: sym [of "(_, _)"] intro: decode_step_shorter)

declare decode_loop.simps [simp del]

definition urlDecode :: "string \<Rightarrow> string" where
  "urlDecode str = (let (plain, rest) = copy_plain str in plain @ decode_loop rest)"

section \<open>URL codec: lemmas\<close>

lemma high_nibble: "(of_char c :: nat) div 16 < 16"
  using nat_of_char_less_256 [of c] by (simp add: less_mult_imp_div_less)

lemma urlDecode_plain:
  "c \<noteq> CHR ''%'' \<Longrightarrow> c \<noteq> CHR ''+'' \<Longrightarrow> urlDecode (c # s) = c # urlDecode s"
  by (simp add: urlDecode_def split: prod.splits)

lemma urlDecode_escape:
  assumes "hex2int h1 (-1) = a" and "hex2int h2 (-1) = b" and "a \<noteq> -1" and "b \<noteq> -1"
  shows "urlDecode (CHR ''%'' # h1 # h2 # s) = char_of_int (or (push_bit 4 a) b) # urlDecode s"
  using assms
  by (simp add: urlDecode_def decode_loop.simps [of "CHR ''%'' # h1 # h2 # s"] decode_escape_def
      split: prod.splits)

lemma hex2int_hexChars:
  assumes "i < 16"
  shows "hex2int (hexChars ! i) (-1) = int i"
proof -
  have "\<forall>i \<in> set [0..<16]. hex2int (hexChars ! i) (-1) = int i"
    by (simp add: hexChars_def hex2int_def upt_rec less_eq_char_def)
  then show ?thesis using assms by auto
qed

lemma nibbles_join: "or (push_bit 4 (int (n div 16))) (int (n mod 16)) = int n"
proof -
  have "or (push_bit 4 (int (n div 16))) (int (n mod 16)) = concat_bit 4 (int n) (int (n div 16))"
    by (simp add: concat_bit_def or.commute take_bit_eq_mod zmod_int)
  also have "\<dots> = int n"
    by (simp add: concat_bit_eq take_bit_eq_mod push_bit_eq_mult zdiv_int zmod_int)
  finally show ?thesis .
qed

lemma urlDecode_encode_char: "urlDecode (encode_char c @ s) = c # urlDecode s"
proof (cases "url_plain c")
  case True
  then have "c \<noteq> CHR ''%''" and "c \<noteq> CHR ''+''"
    by (auto simp: url_plain_def less_eq_char_def)
  with True show ?thesis by (simp add: encode_char_def urlDecode_plain)
next
  case False
  let ?n = "of_char c :: nat"
  have n: "?n < 256" by (rule nat_of_char_less_256)
  have "urlDecode (encode_char c @ s) =
      char_of_int (or (push_bit 4 (int (?n div 16))) (int (?n mod 16))) # urlDecode s"
    using False high_nibble [of c] by (simp add: encode_char_def Let_def del: of_nat_div of_nat_mod)
      (intro urlDecode_escape hex2int_hexChars, auto)
  also have "char_of_int (or (push_bit 4 (int (?n div 16))) (int (?n mod 16))) = c"
    using n unfolding nibbles_join char_of_int_def by simp
  finally show ?thesis .
qed

lemma encode_char_set:
  "x \<in> set (encode_char c) \<Longrightarrow> url_plain x \<or> x = CHR ''%''"
proof -
  have "\<forall>i \<in> set [0..<16]. url_plain (hexChars ! i)"
    by (simp add: hexChars_def url_plain_def upt_rec less_eq_char_def)
  then have hex: "i < 16 \<Longrightarrow> url_plain (hexChars ! i)" for i by auto
  assume "x \<in> set (encode_char c)"
  then show ?thesis
    using hex [of "of_char c div 16"] hex [of "of_char c mod 16"] high_nibble [of c]
    by (auto simp: encode_char_def Let_def split: if_splits)
qed

lemma length_encode: "length (concat (map encode_char s)) \<le> 3 * length s"
  by (induction s) (auto simp: encode_char_def Let_def)

section \<open>URL codec: properties\<close>

text \<open>
  C38: the URL codec is lossless and its output is safe. Every string shorter than a third of the
  address space is encoded; the result has at most three times the length, consists of letters,
  digits, \<open>-\<close>, \<open>_\<close>, \<open>~\<close> and \<open>%\<close> only, and \<open>urlDecode\<close> gives the original string back. A
  longer string is refused with \<open>std::overflow_error\<close>.
\<close>

theorem urlEncode_roundtrip:
  "if length s < (SIZE_MAX - 1) div 3
   then \<exists>e. urlEncode s = Inr e \<and> urlDecode e = s \<and> length e \<le> 3 * length s \<and>
          list_all (\<lambda>c. url_plain c \<or> c = CHR ''%'') e
   else urlEncode s = Inl (Overflow_error ''out of memory'')"
proof -
  have "urlDecode (concat (map encode_char s)) = s"
    by (induction s) (simp_all add: urlDecode_encode_char, simp add: urlDecode_def decode_loop.simps)
  moreover have "list_all (\<lambda>c. url_plain c \<or> c = CHR ''%'') (concat (map encode_char s))"
    using encode_char_set by (auto simp: list_all_iff)
  ultimately show ?thesis
    by (simp add: urlEncode_def length_encode)
qed

end
