(* ===== verification/MessageStore.thy ===== *)
theory MessageStore
  imports Helper
begin

text \<open>
  \<open>src/src/MessageStore.h\<close>, the table of the requests in flight, and the send queue of
  \<open>src/src/VstConnection.h\<close>. Both hold shared pointers to request items; a pointer is an index into the
  item heap of the connection (\<open>item_ptr\<close>). \<open>MessageStore\<close> is a template over the item type: what it
  uses of an item is an argument here (the id of an item, its timeout, its \<open>invokeOnError\<close>).
  Every operation holds the mutex of its container for its whole duration, so it is one step.

  \<open>item_pool\<close>, \<open>fifo_pool\<close> and \<open>keyed_pool\<close> are the contracts that the connection relies on.
\<close>

type_synonym item_ptr = nat
type_synonym MessageStore = "(MessageID, item_ptr) std_map"
type_synonym SendQueue = "item_ptr list"

section \<open>MessageStore\<close>

definition store_add :: "(item_ptr \<Rightarrow> MessageID) \<Rightarrow> item_ptr \<Rightarrow> MessageStore \<Rightarrow> MessageStore" where
  "store_add messageID item m = map_emplace (messageID item) item m"

definition findByID :: "MessageID \<Rightarrow> MessageStore \<Rightarrow> item_ptr option" where
  "findByID i m = map_find m i"

definition removeByID :: "MessageID \<Rightarrow> MessageStore \<Rightarrow> MessageStore" where
  "removeByID i m = map_erase i m"

fun cancel_loop :: "(item_ptr \<Rightarrow> 's \<Rightarrow> 's res) \<Rightarrow> (MessageID \<times> item_ptr) list \<Rightarrow> 's \<Rightarrow> 's res" where
  "cancel_loop invokeOnError [] s = Inr s"
| "cancel_loop invokeOnError ((i, item) # m) s =
     bind_res (invokeOnError item s) (cancel_loop invokeOnError m)"

text \<open>\<open>invokeOnError e item\<close> also stands for the \<open>std::move\<close> of the request out of the item.\<close>

definition cancelAll ::
  "(u32 \<Rightarrow> item_ptr \<Rightarrow> 's \<Rightarrow> 's res) \<Rightarrow> ErrorCondition \<Rightarrow> MessageStore \<Rightarrow> 's \<Rightarrow> (MessageStore \<times> 's) res"
where
  "cancelAll invokeOnError e m s =
     bind_res (cancel_loop (invokeOnError (errorToInt e)) m s) (\<lambda>s'. Inr ([], s'))"

definition store_size :: "MessageStore \<Rightarrow> nat" where
  "store_size m = length m"

definition store_empty :: "MessageStore \<Rightarrow> bool" where
  "store_empty m = (m = [])"

fun min_timeout_loop :: "(item_ptr \<Rightarrow> int res) \<Rightarrow> MessageStore \<Rightarrow> int \<Rightarrow> int res" where
  "min_timeout_loop timeout [] least = Inr least"
| "min_timeout_loop timeout ((i, item) # m) least =
     bind_res (timeout item) (\<lambda>reqTimeout.
     min_timeout_loop timeout m (if reqTimeout < least then reqTimeout else least))"

definition minimumTimeout :: "(item_ptr \<Rightarrow> int res) \<Rightarrow> MessageStore \<Rightarrow> int res" where
  "minimumTimeout timeout m = min_timeout_loop timeout m (2 * 60 * 1000)"

definition store_keys :: "MessageStore \<Rightarrow> string" where
  "store_keys m = mapToKeys (\<lambda>i. show_nat (unat i)) m"

section \<open>SendQueue\<close>

definition queue_add :: "item_ptr \<Rightarrow> SendQueue \<Rightarrow> SendQueue" where
  "queue_add item q = q @ [item]"

definition queue_insert :: "item_ptr \<Rightarrow> SendQueue \<Rightarrow> SendQueue" where
  "queue_insert item q = item # q"

definition queue_front :: "SendQueue \<Rightarrow> item_ptr option" where
  "queue_front q = (case q of [] \<Rightarrow> None | item # _ \<Rightarrow> Some item)"

text \<open>\<open>pop_front\<close> of an empty \<open>std::deque\<close> is undefined; the only caller has seen a front element.\<close>

definition removeFirst :: "SendQueue \<Rightarrow> SendQueue res" where
  "removeFirst q = (case q of [] \<Rightarrow> Inl (Undefined ''pop_front of an empty deque'') | _ # q' \<Rightarrow> Inr q')"

definition queue_size :: "SendQueue \<Rightarrow> nat" where
  "queue_size q = length q"

definition queue_empty :: "SendQueue \<Rightarrow> bool" where
  "queue_empty q = (q = [])"

section \<open>Contracts\<close>

text \<open>A container of item pointers: what it holds, in its order.\<close>

locale item_pool =
  fixes held :: "'p \<Rightarrow> item_ptr list"
    and size :: "'p \<Rightarrow> nat"
    and empty :: "'p \<Rightarrow> bool"
    and invar :: "'p \<Rightarrow> bool"
  assumes size_held: "invar p \<Longrightarrow> size p = length (held p)"
    and empty_held: "invar p \<Longrightarrow> empty p \<longleftrightarrow> held p = []"
begin

lemma empty_size: "invar p \<Longrightarrow> empty p \<longleftrightarrow> size p = 0"
  by (simp add: size_held empty_held)

end

text \<open>A first-in first-out pool that also allows an item to be put in front.\<close>

locale fifo_pool = item_pool held size empty invar
  for held :: "'p \<Rightarrow> item_ptr list" and size empty invar +
  fixes add :: "item_ptr \<Rightarrow> 'p \<Rightarrow> 'p"
    and insert :: "item_ptr \<Rightarrow> 'p \<Rightarrow> 'p"
    and front :: "'p \<Rightarrow> item_ptr option"
    and pop :: "'p \<Rightarrow> 'p res"
  assumes held_add: "invar p \<Longrightarrow> invar (add i p) \<and> held (add i p) = held p @ [i]"
    and held_insert: "invar p \<Longrightarrow> invar (insert i p) \<and> held (insert i p) = i # held p"
    and front_held: "invar p \<Longrightarrow> front p = (case held p of [] \<Rightarrow> None | i # _ \<Rightarrow> Some i)"
    and pop_held: "invar p \<Longrightarrow> held p = i # is \<Longrightarrow> \<exists>p'. pop p = Inr p' \<and> invar p' \<and> held p' = is"
begin

lemma front_pop:
  assumes "invar p" and "front p = Some i"
  obtains p' where "pop p = Inr p'" and "invar p'" and "held p = i # held p'"
  using assms pop_held [OF assms(1)] by (auto simp: front_held split: list.splits)

lemma front_None: "invar p \<Longrightarrow> front p = None \<longleftrightarrow> held p = []"
  by (auto simp: front_held split: list.splits)

lemma size_add: "invar p \<Longrightarrow> size (add i p) = Suc (size p)" "invar p \<Longrightarrow> size (insert i p) = Suc (size p)"
  using held_add held_insert by (simp_all add: size_held)

end

text \<open>A pool indexed by message ids; \<open>key\<close> is the id of an item, and no two held items share one.\<close>

locale keyed_pool = item_pool held size empty invar
  for held :: "'p \<Rightarrow> item_ptr list" and size empty invar +
  fixes put :: "(item_ptr \<Rightarrow> MessageID) \<Rightarrow> item_ptr \<Rightarrow> 'p \<Rightarrow> 'p"
    and find :: "MessageID \<Rightarrow> 'p \<Rightarrow> item_ptr option"
    and remove :: "MessageID \<Rightarrow> 'p \<Rightarrow> 'p"
  assumes put_find:
      "invar p \<Longrightarrow> invar (put key i p) \<and>
         (\<lambda>k. find k (put key i p)) =
           (if find (key i) p = None then (\<lambda>k. find k p)(key i \<mapsto> i) else (\<lambda>k. find k p))"
    and remove_find: "invar p \<Longrightarrow> invar (remove k p) \<and> (\<lambda>j. find j (remove k p)) = (\<lambda>j. find j p)(k := None)"
    and put_held: "invar p \<Longrightarrow> find (key i) p = None \<Longrightarrow> mset (held (put key i p)) = add_mset i (mset (held p))"
    and remove_held: "invar p \<Longrightarrow> find k p = Some i \<Longrightarrow> mset (held p) = add_mset i (mset (held (remove k p)))"
    and remove_absent: "invar p \<Longrightarrow> find k p = None \<Longrightarrow> remove k p = p"
    and held_find: "invar p \<Longrightarrow> i \<in> set (held p) \<longleftrightarrow> (\<exists>k. find k p = Some i)"
begin

lemma put_remove:
  "invar p \<Longrightarrow> find (key i) p = None \<Longrightarrow> mset (held (remove (key i) (put key i p))) = mset (held p)"
  using put_find [of p key i] put_held [of p key i] remove_held [of "put key i p" "key i" i]
  by (auto dest!: fun_cong [of _ _ "key i"])

lemma find_held: "invar p \<Longrightarrow> find k p = Some i \<Longrightarrow> i \<in> set (held p)"
  using held_find by blast

end

interpretation queue: fifo_pool "\<lambda>q. q" queue_size queue_empty "\<lambda>_. True" queue_add queue_insert queue_front removeFirst
  by unfold_locales
    (auto simp: queue_size_def queue_empty_def queue_add_def queue_insert_def queue_front_def removeFirst_def)

interpretation store: keyed_pool "map snd" store_size store_empty map_inv store_add findByID removeByID
proof (unfold_locales, goal_cases)
  case (3 p key i)
  then show ?case
    by (auto simp: store_add_def findByID_def std.map_specs fun_eq_iff)
next
  case (4 p k)
  then show ?case by (auto simp: removeByID_def findByID_def std.map_specs fun_eq_iff)
next
  case (5 p key i)
  then show ?case by (simp add: store_add_def findByID_def emplace_mset)
next
  case (6 p k i)
  then show ?case
    using erase_mset [of p k i] by (simp add: removeByID_def findByID_def)
next
  case (7 p k)
  then show ?case by (simp add: removeByID_def findByID_def erase_absent)
next
  case (8 p i)
  then show ?case
    by (auto simp: findByID_def simp flip: std.entries_find) force
qed (auto simp: store_size_def store_empty_def)

section \<open>Properties\<close>

lemma min_timeout_loop_eq:
  "\<forall>(i, p) \<in> set m. timeout p = Inr (t p) \<Longrightarrow>
     min_timeout_loop timeout m least = Inr (fold (\<lambda>(i, p) a. min (t p) a) m least)"
  by (induction m arbitrary: least) (auto simp: min_def)

lemma fold_min_Min:
  "fold (\<lambda>(i, p) a. min (t p) a) m (least :: int) = Min (insert least ((\<lambda>(i, p). t p) ` set m))"
proof (induction m arbitrary: least)
  case (Cons x m)
  then show ?case
    by (cases x, cases m) (auto simp: min.left_commute min.commute)
qed simp

text \<open>
  The read timeout is the smallest timeout of the requests in flight, but never more than two
  minutes. When every item of the store has its request, \<open>minimumTimeout\<close> returns the minimum of
  120000 ms and their timeouts; an item whose request is gone makes it undefined.
\<close>

theorem minimumTimeout_Min:
  "if list_all (\<lambda>e. \<not> isl (timeout (snd e))) m
   then minimumTimeout timeout m = Inr (Min (insert 120000 ((projr \<circ> timeout \<circ> snd) ` set m)))
   else \<exists>e. minimumTimeout timeout m = Inl e"
proof (cases "list_all (\<lambda>e. \<not> isl (timeout (snd e))) m")
  case True
  then have "\<forall>(i, p) \<in> set m. timeout p = Inr (projr (timeout p))"
    by (auto simp: list_all_iff)
  then have "minimumTimeout timeout m = Inr (Min (insert 120000 ((projr \<circ> timeout \<circ> snd) ` set m)))"
    by (simp add: minimumTimeout_def min_timeout_loop_eq fold_min_Min split_beta comp_def)
  with True show ?thesis by (simp only: if_True)
next
  case False
  have "\<not> list_all (\<lambda>e. \<not> isl (timeout (snd e))) m \<Longrightarrow> \<exists>e. min_timeout_loop timeout m l = Inl e" for l
  proof (induction m arbitrary: l)
    case (Cons x m)
    then show ?case by (cases x; cases "timeout (snd x)") auto
  qed simp
  with False show ?thesis by (simp only: minimumTimeout_def if_False) blast
qed

end
