(* ===== verification/VstConnection.thy ===== *)
theory VstConnection
  imports VstItem MessageStore
begin

text \<open>
  \<open>src/src/VstConnection.h\<close> and \<open>src/src/VstConnection.cpp\<close>: the connection, its read and write loops and every
  handler, as functions on an explicit state.
  \<^item> Objects behind shared pointers live in heaps of the state: request items (\<open>vc_items\<close>), read and
    write loops (\<open>vc_readLoops\<close>, \<open>vc_writeLoops\<close>), sockets (numbered in the order of their creation). A
    pointer is an index; a null pointer is \<open>None\<close>, and dereferencing one is \<open>Undefined\<close>.
  \<^item> Starting an asynchronous operation of \<open>boost::asio\<close> adds an entry to \<open>vc_pending\<close>; the handler of
    the entry is the function that the I/O service calls later, with the outcome as argument. A
    cancelled timer stays pending: its handler is called with an error, or without one if it was
    already due.
  \<^item> A handler runs as one step. Callbacks of the user are recorded in \<open>vc_delivered\<close>, calls of
    \<open>onFailure\<close> in \<open>vc_failures\<close>, and what is handed to \<open>async_write\<close> in \<open>vc_sent\<close>.
  \<^item> \<open>L\<close> is the VelocyPack library, \<open>u\<close> the uninitialised chunk header of \<open>VstChunk\<close>.
\<close>

type_synonym endpoint = string

text \<open>The callback of a request: the user's, or the lambda of \<open>insertAuthenticationRequests\<close>.\<close>

datatype 'u Callback = User_Callback 'u | Auth_Callback

record 'u Delivery =
  d_item :: item_ptr
  d_callback :: "'u Callback"
  d_error :: Error
  d_request :: "Request option"
  d_response :: "Response option"

record ReadLoop =
  rl_socket :: "nat option"
  rl_receiveBuffer :: "byte list"
  rl_started :: bool

record WriteLoop =
  wl_socket :: "nat option"
  wl_started :: bool

datatype pending =
    Resolving
  | Connecting "endpoint list"
  | Handshaking
  | Writing_Header
  | Reading nat
  | Read_Deadline nat int
  | Writing nat item_ptr
  | Write_Deadline nat int

record 'u VstConnection =
  vc_configuration :: ConnectionConfiguration
  vc_vstVersion :: VSTVersion
  vc_messageID :: u64
  vc_socket :: "nat option"
  vc_sslSocket :: "nat option"
  vc_endpoints :: "endpoint list"
  vc_permanent_failure :: bool
  vc_async_calls :: u64
  vc_connected :: bool
  vc_readLoop :: "nat option"
  vc_writeLoop :: "nat option"
  vc_sendQueue :: SendQueue
  vc_messageStore :: MessageStore
  vc_items :: "'u Callback RequestItem list"
  vc_readLoops :: "ReadLoop list"
  vc_writeLoops :: "WriteLoop list"
  vc_sockets :: nat
  vc_pending :: "pending list"
  vc_delivered :: "'u Delivery list"
  vc_failures :: "(Error \<times> string) list"
  vc_sent :: "(nat \<times> byte list) list"

definition VstConnection_new :: "ConnectionConfiguration \<Rightarrow> 'u VstConnection" where
  "VstConnection_new conf =
     \<lparr>vc_configuration = conf, vc_vstVersion = c_vstVersion conf, vc_messageID = 0,
      vc_socket = None, vc_sslSocket = None, vc_endpoints = [], vc_permanent_failure = False,
      vc_async_calls = 0, vc_connected = False, vc_readLoop = None, vc_writeLoop = None,
      vc_sendQueue = [], vc_messageStore = [], vc_items = [], vc_readLoops = [],
      vc_writeLoops = [], vc_sockets = 0, vc_pending = [], vc_delivered = [], vc_failures = [],
      vc_sent = []\<rparr>"

definition null_socket :: exn where
  "null_socket = Undefined ''null _socket''"

definition pend :: "pending \<Rightarrow> 'u VstConnection \<Rightarrow> 'u VstConnection" where
  "pend p s = s\<lparr>vc_pending := vc_pending s @ [p]\<rparr>"

definition onFailure :: "Error \<Rightarrow> string \<Rightarrow> 'u VstConnection \<Rightarrow> 'u VstConnection" where
  "onFailure errorCode errorMessage s =
     (if c_onFailure (vc_configuration s)
      then s\<lparr>vc_failures := vc_failures s @ [(errorCode, errorMessage)]\<rparr> else s)"

definition set_item :: "item_ptr \<Rightarrow> 'u Callback RequestItem \<Rightarrow> 'u VstConnection \<Rightarrow> 'u VstConnection" where
  "set_item p item s = s\<lparr>vc_items := (vc_items s)[p := item]\<rparr>"

text \<open>The body of a callback.\<close>

definition run_callback :: "'u Delivery \<Rightarrow> 'u VstConnection \<Rightarrow> 'u VstConnection" where
  "run_callback d s =
     (let s = s\<lparr>vc_delivered := vc_delivered s @ [d]\<rparr>
      in case d_callback d of
           User_Callback _ \<Rightarrow> s
         | Auth_Callback \<Rightarrow>
             if d_error d \<noteq> 0
             then onFailure (d_error d) ''authentication failed'' (s\<lparr>vc_permanent_failure := True\<rparr>)
             else s)"

text \<open>
  \<open>item->_callback.invoke(e, std::move(item->_request), response)\<close>: the request leaves the item whether
  or not the callback is called.
\<close>

definition invoke_item ::
  "Response option \<Rightarrow> Error \<Rightarrow> item_ptr \<Rightarrow> 'u VstConnection \<Rightarrow> 'u VstConnection res"
where
  "invoke_item response e p s =
     (let item = vc_items s ! p
      in bind_res (invoke (ri_callback item)) (\<lambda>(callback, call).
         let s = set_item p (item\<lparr>ri_callback := callback, ri_request := None\<rparr>) s
         in case call of
              None \<Rightarrow> Inr s
            | Some cb \<Rightarrow>
                Inr (run_callback
                  \<lparr>d_item = p, d_callback = cb, d_error = e, d_request = ri_request item,
                   d_response = response\<rparr> s)))"

section \<open>Creating and shutting down the connection\<close>

definition startResolveHost :: "'u VstConnection \<Rightarrow> 'u VstConnection" where
  "startResolveHost s = pend Resolving s"

definition start :: "'u VstConnection \<Rightarrow> 'u VstConnection" where
  "start s = startResolveHost s"

definition startConnect :: "endpoint list \<Rightarrow> 'u VstConnection \<Rightarrow> 'u VstConnection" where
  "startConnect endpointItr s = (if endpointItr \<noteq> [] then pend (Connecting endpointItr) s else s)"

definition initSocket :: "'u VstConnection \<Rightarrow> 'u VstConnection res" where
  "initSocket s =
     bind_res (check (vc_socket s = None) (Assertion ''!_socket'')) (\<lambda>_.
     bind_res (check (vc_sslSocket s = None) (Assertion ''!_sslSocket'')) (\<lambda>_.
     let k = vc_sockets s
     in Inr (startConnect (vc_endpoints s)
          (s\<lparr>vc_socket := Some k, vc_sslSocket := Some k, vc_sockets := Suc k\<rparr>))))"

text \<open>The handler of \<open>async_resolve\<close>; \<open>error\<close> is the message of an error code.\<close>

definition resolveCallback ::
  "string option \<Rightarrow> endpoint list \<Rightarrow> 'u VstConnection \<Rightarrow> 'u VstConnection res"
where
  "resolveCallback error iterator s =
     (case error of
        Some msg \<Rightarrow> Inr (onFailure (errorToInt CouldNotConnect) (''resolved failed: error'' @ msg) s)
      | None \<Rightarrow>
          let s = s\<lparr>vc_endpoints := iterator\<rparr>
          in if iterator = []
             then Inr (onFailure (errorToInt CouldNotConnect) ''unable to resolve endpoints'' s)
             else initSocket s)"

definition stopReading :: "'u VstConnection \<Rightarrow> 'u VstConnection" where
  "stopReading s = s\<lparr>vc_readLoop := None\<rparr>"

definition stopWriting :: "'u VstConnection \<Rightarrow> 'u VstConnection" where
  "stopWriting s = s\<lparr>vc_writeLoop := None\<rparr>"

definition shutdownSocket :: "'u VstConnection \<Rightarrow> 'u VstConnection" where
  "shutdownSocket s = s\<lparr>vc_sslSocket := None, vc_socket := None\<rparr>"

definition shutdownConnection :: "ErrorCondition \<Rightarrow> 'u VstConnection \<Rightarrow> 'u VstConnection res" where
  "shutdownConnection error s =
     (let s = shutdownSocket (stopReading (stopWriting s))
      in bind_res (cancelAll (invoke_item None) error (vc_messageStore s) s) (\<lambda>(store, s).
         Inr (s\<lparr>vc_messageStore := store\<rparr>)))"

text \<open>The destructor, after the resolver was cancelled.\<close>

definition VstConnection_destroy :: "'u VstConnection \<Rightarrow> 'u VstConnection res" where
  "VstConnection_destroy s = shutdownConnection CanceledDuringReset s"

definition restartConnection :: "ErrorCondition \<Rightarrow> 'u VstConnection \<Rightarrow> 'u VstConnection res" where
  "restartConnection error s =
     bind_res (check (vc_readLoop s = None) (Assertion ''!_readLoop._current'')) (\<lambda>_.
     bind_res (check (vc_writeLoop s = None) (Assertion ''!_writeLoop._current'')) (\<lambda>_.
     bind_res (shutdownConnection error s) (\<lambda>s.
     Inr (if vc_permanent_failure s then s else startResolveHost s))))"

definition restartConnection_ReadLoop ::
  "nat \<Rightarrow> ErrorCondition \<Rightarrow> 'u VstConnection \<Rightarrow> 'u VstConnection res"
where
  "restartConnection_ReadLoop readLoop error s =
     (if vc_readLoop s \<noteq> Some readLoop then Inr s
      else restartConnection error (s\<lparr>vc_readLoop := None, vc_writeLoop := None\<rparr>))"

definition restartConnection_WriteLoop ::
  "nat \<Rightarrow> ErrorCondition \<Rightarrow> 'u VstConnection \<Rightarrow> 'u VstConnection res"
where
  "restartConnection_WriteLoop writeLoop error s =
     (if vc_writeLoop s \<noteq> Some writeLoop then Inr s
      else restartConnection error (s\<lparr>vc_readLoop := None, vc_writeLoop := None\<rparr>))"

section \<open>Reading\<close>

text \<open>\<open>None\<close> means that the loop must stop, \<open>Some t\<close> that it goes on with the timeout \<open>t\<close>.\<close>

definition item_timeout :: "'u VstConnection \<Rightarrow> item_ptr \<Rightarrow> int res" where
  "item_timeout s p =
     (case ri_request (vc_items s ! p) of
        None \<Rightarrow> Inl (Undefined ''null _request'')
      | Some r \<Rightarrow> Inr (r_timeout r))"

definition shouldStopReading :: "nat \<Rightarrow> 'u VstConnection \<Rightarrow> ('u VstConnection \<times> int option) res" where
  "shouldStopReading readLoop s =
     (if vc_readLoop s \<noteq> Some readLoop then Inr (s, None)
      else if vc_permanent_failure s then Inr (s, None)
      else if store_empty (vc_messageStore s) \<and> queue_empty (vc_sendQueue s)
           then Inr (s\<lparr>vc_readLoop := None\<rparr>, None)
      else bind_res (minimumTimeout (item_timeout s) (vc_messageStore s)) (\<lambda>timeout.
           Inr (s, Some timeout)))"

definition readNextBytes :: "nat \<Rightarrow> 'u VstConnection \<Rightarrow> 'u VstConnection res" where
  "readNextBytes r s =
     bind_res (shouldStopReading r s) (\<lambda>(s, stop).
     case stop of
       None \<Rightarrow> Inr s
     | Some timeout \<Rightarrow>
         let s = pend (Read_Deadline r timeout) s;
             s = s\<lparr>vc_async_calls := vc_async_calls s + 1\<rparr>
         in case rl_socket (vc_readLoops s ! r) of
              None \<Rightarrow> Inl null_socket
            | Some _ \<Rightarrow> Inr (pend (Reading r) s))"

definition ReadLoop_start :: "nat \<Rightarrow> 'u VstConnection \<Rightarrow> 'u VstConnection res" where
  "ReadLoop_start r s =
     (let loop = vc_readLoops s ! r
      in if rl_started loop then Inr s
         else readNextBytes r (s\<lparr>vc_readLoops := (vc_readLoops s)[r := loop\<lparr>rl_started := True\<rparr>]\<rparr>))"

definition startReading :: "'u VstConnection \<Rightarrow> 'u VstConnection res" where
  "startReading s =
     (case vc_readLoop s of
        Some _ \<Rightarrow> Inr s
      | None \<Rightarrow>
          let r = length (vc_readLoops s);
              loop = \<lparr>rl_socket = vc_socket s, rl_receiveBuffer = [], rl_started = False\<rparr>
          in ReadLoop_start r (s\<lparr>vc_readLoops := vc_readLoops s @ [loop], vc_readLoop := Some r\<rparr>))"

definition processChunk :: "velocypack \<Rightarrow> ChunkHeader \<Rightarrow> 'u VstConnection \<Rightarrow> 'u VstConnection res" where
  "processChunk L chunk s =
     (case findByID (ch_messageID chunk) (vc_messageStore s) of
        None \<Rightarrow> Inr s
      | Some p \<Rightarrow>
          bind_res (addChunk chunk (vc_items s ! p)) (\<lambda>item.
          bind_res (assemble item) (\<lambda>(item, completeBuffer).
          let s = set_item p item s
          in case completeBuffer of
               None \<Rightarrow> Inr s
             | Some buffer \<Rightarrow>
                 let s = s\<lparr>vc_messageStore := removeByID (ri_messageID item) (vc_messageStore s)\<rparr>
                 in bind_res (createResponse L item buffer) (\<lambda>response.
                    invoke_item (Some response) 0 p s))))"

lemma bind_res_cong [fundef_cong]:
  "r = r' \<Longrightarrow> (\<And>x. r' = Inr x \<Longrightarrow> f x = f' x) \<Longrightarrow> bind_res r f = bind_res r' f'"
  by (cases r') auto

lemma readChunkHeader_length:
  assumes "readChunkHeader v u cursor = Inr c" and "isChunkComplete cursor \<noteq> 0"
  shows "unat (ch_chunkLength c) = isChunkComplete cursor"
proof -
  have "ch_chunkLength c = rd32 cursor"
    using assms(1)
    by (cases v) (auto simp: readChunkHeaderVST1_0_def readChunkHeaderVST1_1_def mem32_def Let_def
        split: if_splits)
  then show ?thesis using assms(2) by (auto simp: isChunkComplete_def Let_def split: if_splits)
qed

text \<open>
  The \<open>while\<close> of \<open>asyncReadCallback\<close> on the receive buffer \<open>cursor\<close>: what is left of the buffer, and the
  state. Every round removes the length of a complete chunk, which is not 0.
\<close>

function read_chunks ::
  "velocypack \<Rightarrow> ChunkHeader \<Rightarrow> byte list \<Rightarrow> 'u VstConnection \<Rightarrow> (byte list \<times> 'u VstConnection) res"
where
  "read_chunks L u cursor s =
     (if isChunkComplete cursor = 0 then Inr (cursor, s)
      else bind_res (readChunkHeader (vc_vstVersion s) u cursor) (\<lambda>chunk.
           bind_res (processChunk L chunk s) (\<lambda>s.
           read_chunks L u (drop (unat (ch_chunkLength chunk)) cursor) s)))"
  by pat_completeness auto
termination
proof (relation "measure (\<lambda>(L, u, cursor, s). length cursor)")
  fix L :: velocypack and u cursor and s :: "'u VstConnection" and chunk s'
  assume c: "isChunkComplete cursor \<noteq> 0" and "readChunkHeader (vc_vstVersion s) u cursor = Inr chunk"
  then have "unat (ch_chunkLength chunk) = isChunkComplete cursor"
    by (intro readChunkHeader_length)
  moreover have "0 < length cursor"
    using c by (auto simp: isChunkComplete_def)
  ultimately show "((L, u, drop (unat (ch_chunkLength chunk)) cursor, s'), L, u, cursor, s)
      \<in> measure (\<lambda>(L, u, cursor, s). length cursor)"
    using c by auto
qed simp

declare read_chunks.simps [simp del]

text \<open>The handler of \<open>async_read\<close>: an error, or the bytes that were received.\<close>

definition asyncReadCallback ::
  "velocypack \<Rightarrow> ChunkHeader \<Rightarrow> nat \<Rightarrow> byte list option \<Rightarrow> 'u VstConnection \<Rightarrow> 'u VstConnection res"
where
  "asyncReadCallback L u r outcome s =
     (let s = s\<lparr>vc_async_calls := vc_async_calls s - 1\<rparr>
      in case outcome of
           None \<Rightarrow> restartConnection_ReadLoop r VstReadError s
         | Some bytes \<Rightarrow>
             bind_res (read_chunks L u (rl_receiveBuffer (vc_readLoops s ! r) @ bytes) s) (\<lambda>(rest, s).
             readNextBytes r
               (s\<lparr>vc_readLoops := (vc_readLoops s)[r := (vc_readLoops s ! r)\<lparr>rl_receiveBuffer := rest\<rparr>]\<rparr>)))"

definition readDeadlineHandler :: "nat \<Rightarrow> bool \<Rightarrow> 'u VstConnection \<Rightarrow> 'u VstConnection res" where
  "readDeadlineHandler r error s =
     (if \<not> error then restartConnection_ReadLoop r Timeout s else Inr s)"

section \<open>Writing\<close>

definition getNextRequestToSend :: "nat \<Rightarrow> 'u VstConnection \<Rightarrow> ('u VstConnection \<times> item_ptr option) res" where
  "getNextRequestToSend writeLoop s =
     (if vc_writeLoop s \<noteq> Some writeLoop then Inr (s, None)
      else if vc_permanent_failure s then Inr (s, None)
      else case queue_front (vc_sendQueue s) of
             None \<Rightarrow> Inr (s\<lparr>vc_writeLoop := None\<rparr>, None)
           | Some next \<Rightarrow>
               let store = store_add (\<lambda>p. ri_messageID (vc_items s ! p)) next (vc_messageStore s)
               in bind_res (removeFirst (vc_sendQueue s)) (\<lambda>queue.
                  Inr (s\<lparr>vc_messageStore := store, vc_sendQueue := queue\<rparr>, Some next)))"

definition sendNextRequest :: "nat \<Rightarrow> 'u VstConnection \<Rightarrow> 'u VstConnection res" where
  "sendNextRequest w s =
     bind_res (getNextRequestToSend w s) (\<lambda>(s, next).
     case next of
       None \<Rightarrow> Inr s
     | Some p \<Rightarrow>
         bind_res (startReading s) (\<lambda>s.
         let item = vc_items s ! p
         in bind_res (check (ri_requestBuffers item \<noteq> []) (Assertion ''next->_requestBuffers.size()'')) (\<lambda>_.
            bind_res (item_timeout s p) (\<lambda>reqTimeout.
            let s = pend (Write_Deadline w reqTimeout) s;
                s = s\<lparr>vc_async_calls := vc_async_calls s + 1\<rparr>
            in case wl_socket (vc_writeLoops s ! w) of
                 None \<Rightarrow> Inl null_socket
               | Some k \<Rightarrow>
                   bind_res (wire_bytes item) (\<lambda>bytes.
                   Inr (pend (Writing w p) (s\<lparr>vc_sent := vc_sent s @ [(k, bytes)]\<rparr>)))))))"

definition WriteLoop_start :: "nat \<Rightarrow> 'u VstConnection \<Rightarrow> 'u VstConnection res" where
  "WriteLoop_start w s =
     (let loop = vc_writeLoops s ! w
      in if wl_started loop then Inr s
         else sendNextRequest w (s\<lparr>vc_writeLoops := (vc_writeLoops s)[w := loop\<lparr>wl_started := True\<rparr>]\<rparr>))"

definition startWriting :: "'u VstConnection \<Rightarrow> 'u VstConnection res" where
  "startWriting s =
     (case vc_writeLoop s of
        Some _ \<Rightarrow> Inr s
      | None \<Rightarrow>
          let w = length (vc_writeLoops s); loop = \<lparr>wl_socket = vc_socket s, wl_started = False\<rparr>
          in WriteLoop_start w (s\<lparr>vc_writeLoops := vc_writeLoops s @ [loop], vc_writeLoop := Some w\<rparr>))"

text \<open>The handler of \<open>async_write\<close> for the item \<open>p\<close>.\<close>

definition asyncWriteCallback :: "nat \<Rightarrow> item_ptr \<Rightarrow> bool \<Rightarrow> 'u VstConnection \<Rightarrow> 'u VstConnection res" where
  "asyncWriteCallback w p error s =
     (let s = s\<lparr>vc_async_calls := vc_async_calls s - 1\<rparr>
      in if error then
           let s = s\<lparr>vc_messageStore := removeByID (ri_messageID (vc_items s ! p)) (vc_messageStore s)\<rparr>
           in bind_res (invoke_item None (errorToInt VstWriteError) p s) (\<lambda>s.
              restartConnection_WriteLoop w VstWriteError s)
         else sendNextRequest w (set_item p (resetSendData (vc_items s ! p)) s))"

definition writeDeadlineHandler :: "nat \<Rightarrow> bool \<Rightarrow> 'u VstConnection \<Rightarrow> 'u VstConnection res" where
  "writeDeadlineHandler w error s =
     (if \<not> error then restartConnection_WriteLoop w Timeout s else Inr s)"

section \<open>Requests\<close>

text \<open>\<open>createRequestItem\<close> and \<open>sendRequest\<close> can throw in the thread of the user: the state survives.\<close>

definition createRequestItem ::
  "velocypack \<Rightarrow> ChunkHeader \<Rightarrow> Request \<Rightarrow> 'u Callback \<Rightarrow> 'u VstConnection \<Rightarrow>
     'u VstConnection \<times> item_ptr res"
where
  "createRequestItem L u request cb s =
     (let s = s\<lparr>vc_messageID := vc_messageID s + 1\<rparr>;
          item = RequestItem_new\<lparr>ri_messageID := vc_messageID s,
                   ri_callback := CallOnce_assign cb (ri_callback RequestItem_new),
                   ri_request := Some (request\<lparr>r_messageID := vc_messageID s\<rparr>)\<rparr>
      in case prepareForNetwork L u (vc_vstVersion s) item of
           Inl e \<Rightarrow> (s, Inl e)
         | Inr item \<Rightarrow> (s\<lparr>vc_items := vc_items s @ [item]\<rparr>, Inr (length (vc_items s))))"

definition sendRequest ::
  "velocypack \<Rightarrow> ChunkHeader \<Rightarrow> Request \<Rightarrow> 'u \<Rightarrow> 'u VstConnection \<Rightarrow> 'u VstConnection \<times> MessageID res"
where
  "sendRequest L u request cb s =
     (case createRequestItem L u request (User_Callback cb) s of
        (s, Inl e) \<Rightarrow> (s, Inl e)
      | (s, Inr p) \<Rightarrow>
          let s = s\<lparr>vc_sendQueue := queue_add p (vc_sendQueue s)\<rparr>
          in if vc_connected s
             then (case startWriting s of
                     Inl e \<Rightarrow> (s, Inl e)
                   | Inr s \<Rightarrow> (s, Inr (ri_messageID (vc_items s ! p))))
             else (s, Inr (ri_messageID (vc_items s ! p))))"

definition requestsLeft :: "'u VstConnection \<Rightarrow> nat" where
  "requestsLeft s = queue_size (vc_sendQueue s) + store_size (vc_messageStore s)"

section \<open>Connecting\<close>

definition auth_request :: "ConnectionConfiguration \<Rightarrow> Request" where
  "auth_request conf =
     (let r = Request_new MessageHeader_new []
      in r\<lparr>r_header := (r_header r)\<lparr>h_type := Some Authentication, h_encryption := Some ''plain'',
             h_user := Some (c_user conf), h_password := Some (c_password conf)\<rparr>\<rparr>)"

definition insertAuthenticationRequests ::
  "velocypack \<Rightarrow> ChunkHeader \<Rightarrow> 'u VstConnection \<Rightarrow> 'u VstConnection res"
where
  "insertAuthenticationRequests L u s =
     (case c_authenticationType (vc_configuration s) of
        None_Auth \<Rightarrow> Inr s
      | Basic \<Rightarrow>
          (case createRequestItem L u (auth_request (vc_configuration s)) Auth_Callback s of
             (s, Inl e) \<Rightarrow> Inl e
           | (s, Inr p) \<Rightarrow> Inr (s\<lparr>vc_sendQueue := queue_insert p (vc_sendQueue s)\<rparr>))
      | Jwt \<Rightarrow> Inl (Invalid_argument ''JWT authentication not yet implemented''))"

definition string_bytes :: "string \<Rightarrow> byte list" where
  "string_bytes s = map (\<lambda>c. of_nat (of_char c)) s"

fun vstHeader :: "VSTVersion \<Rightarrow> string" where
  "vstHeader VST1_0 = vstHeader1_0"
| "vstHeader VST1_1 = vstHeader1_1"

definition finishInitialization :: "'u VstConnection \<Rightarrow> 'u VstConnection res" where
  "finishInitialization s =
     (case vc_socket s of
        None \<Rightarrow> Inl null_socket
      | Some k \<Rightarrow>
          Inr (pend Writing_Header
                (s\<lparr>vc_sent := vc_sent s @ [(k, string_bytes (c_str (vstHeader (vc_vstVersion s))))]\<rparr>)))"

text \<open>The handler of the \<open>async_write\<close> of the VST header.\<close>

definition headerWrittenCallback ::
  "velocypack \<Rightarrow> ChunkHeader \<Rightarrow> string option \<Rightarrow> 'u VstConnection \<Rightarrow> 'u VstConnection res"
where
  "headerWrittenCallback L u error s =
     (case error of
        Some msg \<Rightarrow>
          bind_res (shutdownConnection CanceledDuringReset (s\<lparr>vc_connected := False\<rparr>)) (\<lambda>s.
          Inr (onFailure (errorToInt CouldNotConnect) (''unable to initialize connection: error='' @ msg) s))
      | None \<Rightarrow>
          bind_res (insertAuthenticationRequests L u s) (\<lambda>s.
          bind_res (startWriting (s\<lparr>vc_connected := True\<rparr>)) startReading))"

definition startSSLHandshake :: "'u VstConnection \<Rightarrow> 'u VstConnection res" where
  "startSSLHandshake s =
     bind_res (if \<not> c_ssl (vc_configuration s) then finishInitialization s else Inr s) (\<lambda>s.
     case vc_sslSocket s of
       None \<Rightarrow> Inl (Undefined ''null _sslSocket'')
     | Some _ \<Rightarrow> Inr (pend Handshaking s))"

definition handshakeCallback :: "string option \<Rightarrow> 'u VstConnection \<Rightarrow> 'u VstConnection res" where
  "handshakeCallback error s =
     (case error of
        Some msg \<Rightarrow>
          Inr (onFailure (errorToInt CouldNotConnect) (''unable to perform ssl handshake: error='' @ msg)
                (shutdownSocket s))
      | None \<Rightarrow> finishInitialization s)"

definition asyncConnectCallback :: "string option \<Rightarrow> 'u VstConnection \<Rightarrow> 'u VstConnection res" where
  "asyncConnectCallback error s =
     (case error of
        Some msg \<Rightarrow>
          bind_res (shutdownConnection CanceledDuringReset s) (\<lambda>s.
          Inr (onFailure (errorToInt CouldNotConnect) (''unable to connect -- '' @ msg) s))
      | None \<Rightarrow>
          if c_ssl (vc_configuration s) then startSSLHandshake s else finishInitialization s)"

end
