(* ===== verification/VstSafety.thy ===== *)
theory VstSafety
  imports VstConnection
begin

text \<open>
  The connection as a state machine. An event is a call of \<open>sendRequest\<close> or the completion of a
  pending asynchronous operation with some outcome; \<open>handle\<close> runs its handler, and \<open>reachable\<close>
  holds of the states that any sequence of events leads to from a started connection. The
  invariants below show what holds in all of them: where every request item is, that callbacks
  are called at most once, and that the conditions the code asserts are true.
\<close>

section \<open>Events\<close>

datatype 'u event =
    Send Request 'u
  | Resolved "string option" "endpoint list"
  | Connected "endpoint list" "string option"
  | Handshaken "string option"
  | Header_Written "string option"
  | Read nat "byte list option"
  | Read_Timer nat int bool
  | Written nat item_ptr bool
  | Write_Timer nat int bool

fun pending_of :: "'u event \<Rightarrow> pending option" where
  "pending_of (Send r cb) = None"
| "pending_of (Resolved e eps) = Some Resolving"
| "pending_of (Connected eps e) = Some (Connecting eps)"
| "pending_of (Handshaken e) = Some Handshaking"
| "pending_of (Header_Written e) = Some Writing_Header"
| "pending_of (Read r b) = Some (Reading r)"
| "pending_of (Read_Timer r t e) = Some (Read_Deadline r t)"
| "pending_of (Written w p e) = Some (Writing w p)"
| "pending_of (Write_Timer w t e) = Some (Write_Deadline w t)"

definition finish :: "'u event \<Rightarrow> 'u VstConnection \<Rightarrow> 'u VstConnection" where
  "finish ev s =
     (case pending_of ev of None \<Rightarrow> s | Some p \<Rightarrow> s\<lparr>vc_pending := remove1 p (vc_pending s)\<rparr>)"

fun run_handler ::
  "velocypack \<Rightarrow> ChunkHeader \<Rightarrow> 'u event \<Rightarrow> 'u VstConnection \<Rightarrow> 'u VstConnection res"
where
  "run_handler L u (Send r cb) s =
     (case sendRequest L u r cb s of
        (s', Inr _) \<Rightarrow> Inr s'
      | (s', Inl e) \<Rightarrow> if fatal e then Inl e else Inr s')"
| "run_handler L u (Resolved e eps) s = resolveCallback e eps s"
| "run_handler L u (Connected eps e) s = asyncConnectCallback e s"
| "run_handler L u (Handshaken e) s = handshakeCallback e s"
| "run_handler L u (Header_Written e) s = headerWrittenCallback L u e s"
| "run_handler L u (Read r b) s = asyncReadCallback L u r b s"
| "run_handler L u (Read_Timer r t e) s = readDeadlineHandler r e s"
| "run_handler L u (Written w p e) s = asyncWriteCallback w p e s"
| "run_handler L u (Write_Timer w t e) s = writeDeadlineHandler w e s"

definition handle ::
  "velocypack \<Rightarrow> ChunkHeader \<Rightarrow> 'u event \<Rightarrow> 'u VstConnection \<Rightarrow> 'u VstConnection res"
where
  "handle L u ev s = run_handler L u ev (finish ev s)"

definition enabled :: "'u event \<Rightarrow> 'u VstConnection \<Rightarrow> bool" where
  "enabled ev s = (case pending_of ev of None \<Rightarrow> True | Some p \<Rightarrow> p \<in> set (vc_pending s))"

text \<open>
  The message id is a 64 bit counter. A run is followed as long as it has not wrapped around.
\<close>

definition ids_left :: "'u VstConnection \<Rightarrow> bool" where
  "ids_left s = (vc_messageID s \<noteq> - 1)"

inductive step :: "velocypack \<Rightarrow> ChunkHeader \<Rightarrow> 'u VstConnection \<Rightarrow> 'u VstConnection \<Rightarrow> bool"
  for L :: velocypack and u :: ChunkHeader
where
  step: "enabled ev s \<Longrightarrow> ids_left s \<Longrightarrow> handle L u ev s = Inr s' \<Longrightarrow> step L u s s'"

inductive reachable :: "velocypack \<Rightarrow> ChunkHeader \<Rightarrow> ConnectionConfiguration \<Rightarrow> 'u VstConnection \<Rightarrow> bool"
  for L :: velocypack and u :: ChunkHeader and conf :: ConnectionConfiguration
where
  started: "reachable L u conf (start (VstConnection_new conf))"
| steps: "reachable L u conf s \<Longrightarrow> step L u s s' \<Longrightarrow> reachable L u conf s'"

inductive_cases stepE: "step L u s s'"

section \<open>Where the request items are\<close>

text \<open>
  \<open>pool_inv H s\<close>: the items in \<open>H\<close>, together with the delivered ones, are all items there are, each
  exactly once; the callback of an item has been called iff the item is delivered, and until
  then the item has its request and its callback.
\<close>

definition pool_inv :: "item_ptr multiset \<Rightarrow> 'u VstConnection \<Rightarrow> bool" where
  "pool_inv H s \<longleftrightarrow>
     H + mset (map d_item (vc_delivered s)) = mset [0..<length (vc_items s)] \<and>
     (\<forall>p < length (vc_items s).
        callonce_inv (ri_callback (vc_items s ! p)) \<and>
        (co_invoked (ri_callback (vc_items s ! p)) \<longleftrightarrow> p \<in> d_item ` set (vc_delivered s)) \<and>
        (\<not> co_invoked (ri_callback (vc_items s ! p)) \<longrightarrow> ri_request (vc_items s ! p) \<noteq> None))"

definition id_inv :: "'u VstConnection \<Rightarrow> bool" where
  "id_inv s \<longleftrightarrow>
     inj_on (\<lambda>p. ri_messageID (vc_items s ! p)) {..<length (vc_items s)} \<and>
     (\<forall>p < length (vc_items s). ri_messageID (vc_items s ! p) \<le> vc_messageID s)"

definition store_inv :: "'u VstConnection \<Rightarrow> bool" where
  "store_inv s \<longleftrightarrow>
     map_inv (vc_messageStore s) \<and>
     (\<forall>(i, p) \<in> set (vc_messageStore s).
        p < length (vc_items s) \<and> ri_messageID (vc_items s ! p) = i)"

definition send_inv :: "'u VstConnection \<Rightarrow> bool" where
  "send_inv s \<longleftrightarrow>
     (\<forall>p \<in> set (vc_sendQueue s). ri_requestBuffers (vc_items s ! p) \<noteq> []) \<and>
     (\<forall>w p. Writing w p \<in> set (vc_pending s) \<longrightarrow>
        p < length (vc_items s) \<and> p \<notin> set (vc_sendQueue s))"

definition waiting :: "'u VstConnection \<Rightarrow> item_ptr multiset" where
  "waiting s = mset (vc_sendQueue s) + mset (map snd (vc_messageStore s))"

definition item_inv :: "'u VstConnection \<Rightarrow> bool" where
  "item_inv s \<longleftrightarrow> pool_inv (waiting s) s \<and> id_inv s \<and> store_inv s \<and> send_inv s"

lemmas item_inv_defs = item_inv_def pool_inv_def id_inv_def store_inv_def send_inv_def waiting_def

text \<open>What a called callback changes: the item, the log of deliveries and the failure flag.\<close>

definition item_frame :: "'u VstConnection \<Rightarrow> 'u VstConnection \<Rightarrow> bool" where
  "item_frame s s' \<longleftrightarrow>
     s'\<lparr>vc_items := vc_items s, vc_delivered := vc_delivered s,
        vc_permanent_failure := vc_permanent_failure s, vc_failures := vc_failures s\<rparr> = s \<and>
     length (vc_items s') = length (vc_items s) \<and>
     (vc_permanent_failure s \<longrightarrow> vc_permanent_failure s') \<and>
     (\<forall>p < length (vc_items s). ri_messageID (vc_items s' ! p) = ri_messageID (vc_items s ! p) \<and>
        ri_requestBuffers (vc_items s' ! p) = ri_requestBuffers (vc_items s ! p))"

lemma item_frame_refl: "item_frame s s"
  by (simp add: item_frame_def)

lemma item_frame_trans: "item_frame s t \<Longrightarrow> item_frame t v \<Longrightarrow> item_frame s v"
  by (cases s; cases t; cases v) (simp add: item_frame_def)

lemma item_frame_fields:
  assumes "item_frame s s'"
  shows "vc_sendQueue s' = vc_sendQueue s" "vc_messageStore s' = vc_messageStore s"
    "vc_pending s' = vc_pending s" "vc_readLoop s' = vc_readLoop s" "vc_writeLoop s' = vc_writeLoop s"
    "vc_readLoops s' = vc_readLoops s" "vc_writeLoops s' = vc_writeLoops s"
    "vc_socket s' = vc_socket s" "vc_sslSocket s' = vc_sslSocket s" "vc_sockets s' = vc_sockets s"
    "vc_async_calls s' = vc_async_calls s" "vc_messageID s' = vc_messageID s"
    "vc_connected s' = vc_connected s" "vc_configuration s' = vc_configuration s"
    "vc_vstVersion s' = vc_vstVersion s" "vc_sent s' = vc_sent s"
    "length (vc_items s') = length (vc_items s)"
    "vc_permanent_failure s \<Longrightarrow> vc_permanent_failure s'"
    "p < length (vc_items s) \<Longrightarrow> ri_messageID (vc_items s' ! p) = ri_messageID (vc_items s ! p)"
    "p < length (vc_items s) \<Longrightarrow> ri_requestBuffers (vc_items s' ! p) = ri_requestBuffers (vc_items s ! p)"
  using assms by (cases s; cases s'; simp add: item_frame_def)+

lemma pool_inv_memb:
  assumes "pool_inv H s" and "p \<in># H"
  shows "p < length (vc_items s)" and "p \<notin> d_item ` set (vc_delivered s)"
    and "\<not> co_invoked (ri_callback (vc_items s ! p))" and "ri_request (vc_items s ! p) \<noteq> None"
proof -
  have eq: "H + mset (map d_item (vc_delivered s)) = mset [0..<length (vc_items s)]"
    using assms(1) by (simp add: pool_inv_def)
  have "p \<in># mset [0..<length (vc_items s)]"
    using assms(2) by (metis eq union_iff)
  then show lt: "p < length (vc_items s)" by simp
  have "count (mset [0..<length (vc_items s)]) p = 1"
    using lt by (simp add: distinct_count_atmost_1)
  then have "count H p + count (mset (map d_item (vc_delivered s))) p = 1"
    by (metis eq count_union)
  moreover have "1 \<le> count H p" using assms(2) by simp
  ultimately have "count (mset (map d_item (vc_delivered s))) p = 0" by linarith
  then show nd: "p \<notin> d_item ` set (vc_delivered s)"
    by (metis count_eq_zero_iff set_map set_mset_mset)
  then show "\<not> co_invoked (ri_callback (vc_items s ! p))"
    and "ri_request (vc_items s ! p) \<noteq> None"
    using assms(1) lt by (auto simp: pool_inv_def)
qed

lemma run_callback_fields:
  "vc_items (run_callback d s) = vc_items s"
  "vc_delivered (run_callback d s) = vc_delivered s @ [d]"
  "item_frame s (run_callback d s)"
  by (auto simp: run_callback_def onFailure_def item_frame_def Let_def split: Callback.split)

lemma set_item_frame:
  "ri_messageID item = ri_messageID (vc_items s ! p) \<Longrightarrow>
   ri_requestBuffers item = ri_requestBuffers (vc_items s ! p) \<Longrightarrow> item_frame s (set_item p item s)"
  by (simp add: set_item_def item_frame_def) (metis nth_list_update_eq nth_list_update_neq)

lemma invoke_item_held:
  assumes inv: "pool_inv (add_mset p H) s"
  obtains s' where "invoke_item resp e p s = Inr s'" and "pool_inv H s'" and "item_frame s s'"
    and "vc_delivered s' = vc_delivered s @ [\<lparr>d_item = p,
           d_callback = the (co_cb (ri_callback (vc_items s ! p))), d_error = e,
           d_request = ri_request (vc_items s ! p), d_response = resp\<rparr>]"
proof -
  let ?item = "vc_items s ! p"
  have p: "p < length (vc_items s)" "\<not> co_invoked (ri_callback ?item)"
    using pool_inv_memb [OF inv] by auto
  then have co: "callonce_inv (ri_callback ?item)"
    using inv by (auto simp: pool_inv_def)
  obtain c where c: "invoke (ri_callback ?item) = Inr (c, co_cb (ri_callback ?item))" "callonce_inv c" "co_invoked c"
    using invoke_inv [OF co] by auto
  obtain cb where cb: "co_cb (ri_callback ?item) = Some cb"
    using co p by (auto simp: callonce_inv_def)
  let ?t = "set_item p (?item\<lparr>ri_callback := c, ri_request := None\<rparr>) s"
  let ?d = "\<lparr>d_item = p, d_callback = cb, d_error = e, d_request = ri_request ?item, d_response = resp\<rparr>"
  have "invoke_item resp e p s = Inr (run_callback ?d ?t)"
    using c cb by (simp add: invoke_item_def Let_def)
  moreover have "item_frame s (run_callback ?d ?t)"
    by (rule item_frame_trans [OF set_item_frame run_callback_fields(3)]) simp_all
  moreover have "pool_inv H (run_callback ?d ?t)"
    using inv p c unfolding pool_inv_def
    by (auto simp: run_callback_fields set_item_def nth_list_update)
  moreover have "vc_delivered (run_callback ?d ?t) = vc_delivered s @ [?d]"
    by (simp add: run_callback_fields set_item_def)
  ultimately show ?thesis using that cb by simp
qed

lemma invoke_item_done:
  assumes inv: "pool_inv H s" and p: "p < length (vc_items s)" "p \<in> d_item ` set (vc_delivered s)"
  obtains s' where "invoke_item resp e p s = Inr s'" and "pool_inv H s'" and "item_frame s s'"
    and "vc_delivered s' = vc_delivered s"
proof -
  let ?item = "vc_items s ! p"
  have co: "co_invoked (ri_callback ?item)" using inv p by (auto simp: pool_inv_def)
  then have i: "invoke (ri_callback ?item) = Inr (ri_callback ?item, None)"
    by (simp add: invoke_def)
  let ?t = "set_item p (?item\<lparr>ri_callback := ri_callback ?item, ri_request := None\<rparr>) s"
  have "invoke_item resp e p s = Inr ?t"
    using i by (simp add: invoke_item_def Let_def)
  moreover have "item_frame s ?t" by (rule set_item_frame) simp_all
  moreover have "pool_inv H ?t"
    using inv p co unfolding pool_inv_def by (auto simp: set_item_def nth_list_update)
  ultimately show ?thesis using that by (simp add: set_item_def)
qed

lemma cancel_loop_pool:
  "pool_inv (H + mset (map snd m)) s \<Longrightarrow>
     \<exists>s' ds. cancel_loop (invoke_item resp e) m s = Inr s' \<and> pool_inv H s' \<and> item_frame s s' \<and>
       vc_delivered s' = vc_delivered s @ ds \<and> map d_item ds = map snd m \<and>
       (\<forall>d \<in> set ds. d_error d = e \<and> d_response d = resp)"
proof (induction m arbitrary: s)
  case Nil
  then show ?case by (simp add: item_frame_refl)
next
  case (Cons x m)
  have "pool_inv (add_mset (snd x) (H + mset (map snd m))) s" using Cons.prems by simp
  then obtain t where t: "invoke_item resp e (snd x) s = Inr t" "pool_inv (H + mset (map snd m)) t"
    "item_frame s t"
    "vc_delivered t = vc_delivered s @ [\<lparr>d_item = snd x,
           d_callback = the (co_cb (ri_callback (vc_items s ! snd x))), d_error = e,
           d_request = ri_request (vc_items s ! snd x), d_response = resp\<rparr>]"
    by (rule invoke_item_held)
  with Cons.IH [OF t(2)] obtain s' ds where "cancel_loop (invoke_item resp e) m t = Inr s'"
    "pool_inv H s'" "item_frame t s'" "vc_delivered s' = vc_delivered t @ ds" "map d_item ds = map snd m"
    "\<forall>d \<in> set ds. d_error d = e \<and> d_response d = resp"
    by blast
  with t show ?case by (cases x) (auto intro: item_frame_trans)
qed

section \<open>The item invariant is preserved\<close>

text \<open>Two states with the same items, queue, store and deliveries; \<open>s'\<close> starts no new write.\<close>

definition io_frame :: "'u VstConnection \<Rightarrow> 'u VstConnection \<Rightarrow> bool" where
  "io_frame s s' \<longleftrightarrow>
     vc_items s' = vc_items s \<and> vc_delivered s' = vc_delivered s \<and>
     vc_sendQueue s' = vc_sendQueue s \<and> vc_messageStore s' = vc_messageStore s \<and>
     vc_messageID s' = vc_messageID s \<and>
     (\<forall>w p. Writing w p \<in> set (vc_pending s') \<longrightarrow> Writing w p \<in> set (vc_pending s))"

lemma io_frame_inv:
  assumes "io_frame s s'"
  shows "pool_inv H s' = pool_inv H s" "id_inv s' = id_inv s" "store_inv s' = store_inv s"
    "waiting s' = waiting s"
  using assms by (auto simp: io_frame_def pool_inv_def id_inv_def store_inv_def waiting_def)

lemma send_inv_io: "send_inv s \<Longrightarrow> io_frame s s' \<Longrightarrow> send_inv s'"
  unfolding send_inv_def io_frame_def by metis

lemma io_frame_item_inv: "item_inv s \<Longrightarrow> io_frame s s' \<Longrightarrow> item_inv s'"
  using send_inv_io by (auto simp: item_inv_def io_frame_inv)

lemma io_frame_refl: "io_frame s s"
  by (simp add: io_frame_def)

lemma io_frame_trans: "io_frame s t \<Longrightarrow> io_frame t v \<Longrightarrow> io_frame s v"
  by (simp add: io_frame_def)

lemma onFailure_io: "io_frame s (onFailure e m s)"
  by (simp add: io_frame_def onFailure_def)

lemma readNextBytes_io: "readNextBytes r s = Inr s' \<Longrightarrow> io_frame s s'"
  by (auto simp: readNextBytes_def shouldStopReading_def io_frame_def pend_def Let_def
      split: if_splits option.splits)

lemma startReading_io: "startReading s = Inr s' \<Longrightarrow> io_frame s s'"
  by (auto simp: startReading_def ReadLoop_start_def Let_def io_frame_refl split: option.splits
      dest!: readNextBytes_io) (auto simp: io_frame_def)

lemma finishInitialization_io: "finishInitialization s = Inr s' \<Longrightarrow> io_frame s s'"
  by (auto simp: finishInitialization_def io_frame_def pend_def split: option.splits)

lemma startSSLHandshake_io: "startSSLHandshake s = Inr s' \<Longrightarrow> io_frame s s'"
  by (auto simp: startSSLHandshake_def pend_def split: if_splits option.splits
      dest!: finishInitialization_io) (auto simp: io_frame_def)

lemma initSocket_io: "initSocket s = Inr s' \<Longrightarrow> io_frame s s'"
  by (auto simp: initSocket_def startConnect_def io_frame_def pend_def Let_def split: if_splits)

lemma resolveCallback_io:
  assumes "resolveCallback e eps s = Inr s'"
  shows "io_frame s s'"
proof -
  have "io_frame s (s\<lparr>vc_endpoints := eps\<rparr>)" by (simp add: io_frame_def)
  with assms show ?thesis
    by (auto simp: resolveCallback_def Let_def onFailure_io split: option.splits if_splits
        intro: io_frame_trans [OF _ onFailure_io] io_frame_trans [OF _ initSocket_io])
qed

lemma waiting_lt: "item_inv s \<Longrightarrow> p \<in># waiting s \<Longrightarrow> p < length (vc_items s)"
  unfolding item_inv_def using pool_inv_memb(1) by blast

lemma send_inv_frame:
  assumes "item_frame s s'" and "\<forall>p \<in> set (vc_sendQueue s). p < length (vc_items s)"
  shows "send_inv s' = send_inv s"
  using assms(2) by (auto simp: send_inv_def item_frame_fields [OF assms(1)])

lemma id_inv_frame:
  assumes "item_frame s s'"
  shows "id_inv s' = id_inv s"
proof -
  have "inj_on (\<lambda>p. ri_messageID (vc_items s' ! p)) {..<length (vc_items s)} \<longleftrightarrow>
      inj_on (\<lambda>p. ri_messageID (vc_items s ! p)) {..<length (vc_items s)}"
    by (intro inj_on_cong) (simp add: item_frame_fields [OF assms])
  then show ?thesis by (simp add: id_inv_def item_frame_fields [OF assms])
qed

lemma store_inv_frame:
  assumes "item_frame s s'"
  shows "store_inv s' = store_inv s"
  by (auto simp: store_inv_def item_frame_fields [OF assms])

lemma queue_lt: "item_inv s \<Longrightarrow> p \<in> set (vc_sendQueue s) \<Longrightarrow> p < length (vc_items s)"
  by (rule waiting_lt) (simp_all add: waiting_def)

lemma item_inv_frame:
  assumes "item_inv s" and "item_frame s s'" and "pool_inv (waiting s) s'"
  shows "item_inv s'"
  using assms queue_lt [OF assms(1)] unfolding item_inv_def
  by (simp add: id_inv_frame store_inv_frame send_inv_frame waiting_def item_frame_fields)

lemma item_frame_store:
  "item_frame s t \<Longrightarrow> item_frame (s\<lparr>vc_messageStore := m\<rparr>) (t\<lparr>vc_messageStore := m\<rparr>)"
  by (cases s; cases t) (simp add: item_frame_def)

lemma shutdownConnection_spec:
  assumes inv: "item_inv s"
  obtains s' ds where "shutdownConnection e s = Inr s'" and "item_inv s'"
    and "item_frame (s\<lparr>vc_sslSocket := None, vc_socket := None, vc_readLoop := None,
           vc_writeLoop := None, vc_messageStore := []\<rparr>) s'"
    and "vc_delivered s' = vc_delivered s @ ds" and "map d_item ds = map snd (vc_messageStore s)"
    and "\<forall>d \<in> set ds. d_error d = errorToInt e \<and> d_response d = None"
proof -
  let ?s0 = "shutdownSocket (stopReading (stopWriting s))"
  let ?s1 = "?s0\<lparr>vc_messageStore := []\<rparr>"
  have s0: "?s0 = s\<lparr>vc_sslSocket := None, vc_socket := None, vc_readLoop := None, vc_writeLoop := None\<rparr>"
    by (simp add: shutdownSocket_def stopReading_def stopWriting_def)
  have "pool_inv (mset (vc_sendQueue s) + mset (map snd (vc_messageStore s))) ?s0"
    using inv by (simp add: item_inv_def pool_inv_def waiting_def s0)
  then obtain t ds where t: "cancel_loop (invoke_item None (errorToInt e)) (vc_messageStore s) ?s0 = Inr t"
    "pool_inv (mset (vc_sendQueue s)) t" "item_frame ?s0 t" "vc_delivered t = vc_delivered ?s0 @ ds"
    "map d_item ds = map snd (vc_messageStore s)" "\<forall>d \<in> set ds. d_error d = errorToInt e \<and> d_response d = None"
    using cancel_loop_pool by blast
  let ?t = "t\<lparr>vc_messageStore := []\<rparr>"
  have fr: "item_frame ?s1 ?t"
    by (rule item_frame_store [OF t(3)])
  have q: "\<forall>p \<in> set (vc_sendQueue ?s1). p < length (vc_items ?s1)"
    using queue_lt [OF inv] by (auto simp: s0)
  have "id_inv ?s1" "send_inv ?s1" "store_inv ?s1"
    using inv by (simp_all add: item_inv_def id_inv_def send_inv_def store_inv_def s0)
  then have "id_inv ?t" "send_inv ?t" "store_inv ?t"
    by (simp_all add: id_inv_frame [OF fr] store_inv_frame [OF fr] send_inv_frame [OF fr q])
  moreover have "waiting ?t = mset (vc_sendQueue s)"
    by (simp add: waiting_def item_frame_fields [OF t(3)] s0)
  moreover have "pool_inv (mset (vc_sendQueue s)) ?t"
    using t(2) by (simp add: pool_inv_def)
  ultimately have "item_inv ?t" by (simp add: item_inv_def)
  moreover have "shutdownConnection e s = Inr ?t"
    using t(1) by (simp add: shutdownConnection_def cancelAll_def Let_def s0)
  ultimately show ?thesis
    using that [of ?t ds] fr t by (simp add: s0)
qed

lemma restartConnection_item:
  assumes inv: "item_inv s" and r: "restartConnection e s = Inr s'"
  shows "item_inv s'"
proof -
  obtain t where t: "shutdownConnection e s = Inr t" "item_inv t"
    using shutdownConnection_spec [OF inv] by metis
  with r have "s' = (if vc_permanent_failure t then t else startResolveHost t)"
    by (simp add: restartConnection_def)
  with t(2) show ?thesis
    by (auto simp: startResolveHost_def pend_def io_frame_def intro: io_frame_item_inv)
qed

lemma no_loops_item: "item_inv s \<Longrightarrow> item_inv (s\<lparr>vc_readLoop := None, vc_writeLoop := None\<rparr>)"
  by (rule io_frame_item_inv [of s]) (simp_all add: io_frame_def)

lemma restart_loops_item:
  "item_inv s \<Longrightarrow> restartConnection_ReadLoop r e s = Inr s' \<Longrightarrow> item_inv s'"
  "item_inv s \<Longrightarrow> restartConnection_WriteLoop w e s = Inr s' \<Longrightarrow> item_inv s'"
  by (auto simp: restartConnection_ReadLoop_def restartConnection_WriteLoop_def
      intro: restartConnection_item [OF no_loops_item] split: if_splits)


lemma find_store:
  assumes "store_inv s"
  shows "findByID i (vc_messageStore s) = Some p \<longleftrightarrow> (i, p) \<in> set (vc_messageStore s)"
  using assms by (simp add: findByID_def store_inv_def std.entries_find)

lemma found_item:
  assumes "item_inv s" and "findByID i (vc_messageStore s) = Some p"
  shows "p < length (vc_items s)" and "ri_messageID (vc_items s ! p) = i" and "p \<in># waiting s"
proof -
  have "(i, p) \<in> set (vc_messageStore s)"
    using assms by (simp add: item_inv_def find_store)
  then show "p < length (vc_items s)" and "ri_messageID (vc_items s ! p) = i" and "p \<in># waiting s"
    using assms(1) by (auto simp: item_inv_def store_inv_def waiting_def intro: rev_image_eqI)
qed

text \<open>Taking an item out of the store leaves it in the hand of the caller.\<close>

lemma removeByID_item:
  assumes inv: "item_inv s" and "findByID i (vc_messageStore s) = Some p"
  shows "pool_inv (add_mset p (waiting (s\<lparr>vc_messageStore := removeByID i (vc_messageStore s)\<rparr>)))
           (s\<lparr>vc_messageStore := removeByID i (vc_messageStore s)\<rparr>)"
    and "id_inv (s\<lparr>vc_messageStore := removeByID i (vc_messageStore s)\<rparr>)"
    and "store_inv (s\<lparr>vc_messageStore := removeByID i (vc_messageStore s)\<rparr>)"
    and "send_inv (s\<lparr>vc_messageStore := removeByID i (vc_messageStore s)\<rparr>)"
proof -
  let ?m = "removeByID i (vc_messageStore s)"
  have m: "map_inv (vc_messageStore s)" using inv by (simp add: item_inv_def store_inv_def)
  have "mset (map snd (vc_messageStore s)) = add_mset p (mset (map snd ?m))"
    by (rule store.remove_held [OF m assms(2)])
  then show "pool_inv (add_mset p (waiting (s\<lparr>vc_messageStore := ?m\<rparr>))) (s\<lparr>vc_messageStore := ?m\<rparr>)"
    using inv by (simp add: item_inv_def pool_inv_def waiting_def)
  have "set ?m \<subseteq> set (vc_messageStore s)"
    using erase_mset [of "vc_messageStore s" i p] assms(2)
    by (simp add: removeByID_def findByID_def) (metis insert_iff mset_eq_setD set_mset_add_mset_insert set_mset_mset subsetI)
  then show "store_inv (s\<lparr>vc_messageStore := ?m\<rparr>)"
    using inv m by (auto simp: item_inv_def store_inv_def removeByID_def)
qed (use inv in \<open>simp_all add: item_inv_def id_inv_def send_inv_def\<close>)

lemma item_inv_invoked:
  assumes "pool_inv (add_mset p (waiting s)) s" and "id_inv s" "store_inv s" "send_inv s"
  obtains s' where "invoke_item resp e p s = Inr s'" and "item_inv s'" and "item_frame s s'"
    and "vc_delivered s' = vc_delivered s @ [\<lparr>d_item = p,
           d_callback = the (co_cb (ri_callback (vc_items s ! p))), d_error = e,
           d_request = ri_request (vc_items s ! p), d_response = resp\<rparr>]"
proof -
  obtain s' where s': "invoke_item resp e p s = Inr s'" "pool_inv (waiting s) s'" "item_frame s s'"
    "vc_delivered s' = vc_delivered s @ [\<lparr>d_item = p,
           d_callback = the (co_cb (ri_callback (vc_items s ! p))), d_error = e,
           d_request = ri_request (vc_items s ! p), d_response = resp\<rparr>]"
    by (rule invoke_item_held [OF assms(1)])
  have "\<forall>q \<in> set (vc_sendQueue s). q < length (vc_items s)"
    using pool_inv_memb(1) [OF assms(1)] by (auto simp: waiting_def)
  with s' assms have "item_inv s'"
    by (simp add: item_inv_def id_inv_frame store_inv_frame send_inv_frame waiting_def item_frame_fields)
  with s' that show ?thesis by blast
qed

lemma addChunk_fields:
  "addChunk c item = Inr item' \<Longrightarrow>
     ri_request item' = ri_request item \<and> ri_callback item' = ri_callback item \<and>
     ri_messageID item' = ri_messageID item \<and> ri_requestBuffers item' = ri_requestBuffers item"
  by (auto simp: addChunk_def Let_def)

lemma assemble_fields:
  "assemble item = Inr (item', b) \<Longrightarrow>
     ri_request item' = ri_request item \<and> ri_callback item' = ri_callback item \<and>
     ri_messageID item' = ri_messageID item \<and> ri_requestBuffers item' = ri_requestBuffers item"
  by (auto simp: assemble_def Let_def split: if_splits)

lemma pool_inv_set_item:
  assumes "pool_inv H s" and "ri_request item = ri_request (vc_items s ! p)"
    and "ri_callback item = ri_callback (vc_items s ! p)"
  shows "pool_inv H (set_item p item s)"
  using assms unfolding pool_inv_def set_item_def
  by (simp add: nth_list_update) (metis nth_list_update_eq nth_list_update_neq)

lemma set_item_inv:
  assumes "item_inv s" and "ri_request item = ri_request (vc_items s ! p)"
    and "ri_callback item = ri_callback (vc_items s ! p)"
    and "ri_messageID item = ri_messageID (vc_items s ! p)"
    and "ri_requestBuffers item = ri_requestBuffers (vc_items s ! p)"
  shows "item_inv (set_item p item s)"
  using assms
  by (intro item_inv_frame [OF assms(1) set_item_frame] pool_inv_set_item)
    (simp_all add: item_inv_def)

lemma item_frame_store_ex: "item_frame s s' \<Longrightarrow> \<exists>m. item_frame (s\<lparr>vc_messageStore := m\<rparr>) s'"
  by (rule exI [of _ "vc_messageStore s"]) simp

lemma processChunk_item:
  assumes inv: "item_inv s" and r: "processChunk L c s = Inr s'"
  shows "item_inv s' \<and> (\<exists>m. item_frame (s\<lparr>vc_messageStore := m\<rparr>) s')"
proof (cases "findByID (ch_messageID c) (vc_messageStore s)")
  case None
  then have "s' = s" using r by (simp add: processChunk_def)
  with inv show ?thesis by (simp add: item_frame_store_ex item_frame_refl)
next
  case (Some p)
  note p = found_item [OF inv Some]
  obtain it1 it b where it: "addChunk c (vc_items s ! p) = Inr it1" "assemble it1 = Inr (it, b)"
    using r Some by (auto simp: processChunk_def)
  note f = addChunk_fields [OF it(1)] assemble_fields [OF it(2)]
  let ?t = "set_item p it s"
  have t: "item_inv ?t" by (rule set_item_inv [OF inv]) (simp_all add: f)
  have fr: "item_frame s ?t" by (rule set_item_frame) (simp_all add: f)
  have id: "ri_messageID it = ch_messageID c" using p f by simp
  show ?thesis
  proof (cases b)
    case None
    then have "s' = ?t" using r Some it by (simp add: processChunk_def Let_def)
    with t fr show ?thesis by (simp add: item_frame_store_ex)
  next
    case (Some buf)
    let ?v = "?t\<lparr>vc_messageStore := removeByID (ch_messageID c) (vc_messageStore ?t)\<rparr>"
    have found: "findByID (ch_messageID c) (vc_messageStore ?t) = Some p"
      using \<open>findByID (ch_messageID c) (vc_messageStore s) = Some p\<close> by (simp add: set_item_def)
    obtain resp where resp: "invoke_item (Some resp) 0 p ?v = Inr s'"
      using r \<open>findByID (ch_messageID c) (vc_messageStore s) = Some p\<close> it Some id
      by (auto simp: processChunk_def Let_def set_item_def)
    obtain v' where "invoke_item (Some resp) 0 p ?v = Inr v'" "item_inv v'" "item_frame ?v v'"
      by (rule item_inv_invoked [OF removeByID_item [OF t found]])
    then have "item_inv s'" "item_frame ?v s'" using resp by auto
    with item_frame_trans [OF item_frame_store [OF fr]] show ?thesis by blast
  qed
qed


lemma item_frame_store_trans:
  assumes "item_frame (s\<lparr>vc_messageStore := m\<rparr>) t" and "item_frame (t\<lparr>vc_messageStore := m'\<rparr>) v"
  shows "item_frame (s\<lparr>vc_messageStore := m'\<rparr>) v"
  using item_frame_trans [OF item_frame_store [OF assms(1)] assms(2)] by simp

lemma read_chunks_item:
  "item_inv s \<Longrightarrow> read_chunks L u buf s = Inr (rest, s') \<Longrightarrow>
     item_inv s' \<and> (\<exists>m. item_frame (s\<lparr>vc_messageStore := m\<rparr>) s')"
proof (induction L u buf s arbitrary: rest s' rule: read_chunks.induct)
  case (1 L u buf s)
  show ?case
  proof (cases "isChunkComplete buf = 0")
    case True
    with 1 show ?thesis by (simp add: read_chunks.simps [of L u buf] item_frame_store_ex item_frame_refl)
  next
    case False
    then obtain c t where c: "readChunkHeader (vc_vstVersion s) u buf = Inr c" "processChunk L c s = Inr t"
      and rest: "read_chunks L u (drop (unat (ch_chunkLength c)) buf) t = Inr (rest, s')"
      using "1.prems"(2) by (auto simp: read_chunks.simps [of L u buf])
    have t: "item_inv t" "\<exists>m. item_frame (s\<lparr>vc_messageStore := m\<rparr>) t"
      using processChunk_item [OF "1.prems"(1) c(2)] by auto
    with "1.IH" [OF False c t(1) rest] show ?thesis
      by (blast intro: item_frame_store_trans)
  qed
qed

lemma pool_inv_once:
  assumes "pool_inv (add_mset q H) s"
  shows "q \<notin># H"
proof -
  have eq: "add_mset q H + mset (map d_item (vc_delivered s)) = mset [0..<length (vc_items s)]"
    using assms by (simp add: pool_inv_def)
  have "count (mset [0..<length (vc_items s)]) q = (if q \<in> set [0..<length (vc_items s)] then 1 else 0)"
    using distinct_upt [of 0 "length (vc_items s)"] unfolding distinct_count_atmost_1 by blast
  then have "count (mset [0..<length (vc_items s)]) q \<le> 1" by (simp split: if_splits)
  moreover have "count (mset [0..<length (vc_items s)]) q =
      Suc (count H q) + count (mset (map d_item (vc_delivered s))) q"
    by (subst eq [symmetric]) simp
  ultimately show ?thesis by (simp add: not_in_iff)
qed

text \<open>The id of the oldest queued request is new to the store, so filing it loses nothing.\<close>

lemma queued_id_new:
  assumes inv: "item_inv s" and q: "vc_sendQueue s = q # queue"
  shows "findByID (ri_messageID (vc_items s ! q)) (vc_messageStore s) = None"
    and "q < length (vc_items s)" and "q \<notin># mset queue + mset (map snd (vc_messageStore s))"
proof -
  have pool: "pool_inv (add_mset q (mset queue + mset (map snd (vc_messageStore s)))) s"
    using inv q by (simp add: item_inv_def waiting_def)
  show lt: "q < length (vc_items s)" using pool_inv_memb(1) [OF pool] by simp
  show once: "q \<notin># mset queue + mset (map snd (vc_messageStore s))"
    by (rule pool_inv_once [OF pool])
  have m: "map_inv (vc_messageStore s)" using inv by (simp add: item_inv_def store_inv_def)
  show "findByID (ri_messageID (vc_items s ! q)) (vc_messageStore s) = None"
  proof (rule ccontr)
    assume "\<not> ?thesis"
    then obtain q' where q': "findByID (ri_messageID (vc_items s ! q)) (vc_messageStore s) = Some q'" by auto
    have "q' < length (vc_items s)" "ri_messageID (vc_items s ! q') = ri_messageID (vc_items s ! q)"
      "q' \<in> set (map snd (vc_messageStore s))"
      using found_item [OF inv q'] store.find_held [OF m] q' by auto
    moreover from this have "q' = q"
      using inv lt by (auto simp: item_inv_def id_inv_def dest: inj_onD)
    ultimately show False using once by simp
  qed
qed

lemma file_front_item:
  assumes inv: "item_inv s" and q: "vc_sendQueue s = q # queue"
    and s': "s' = s\<lparr>vc_messageStore := store_add (\<lambda>p. ri_messageID (vc_items s ! p)) q (vc_messageStore s), vc_sendQueue := queue\<rparr>"
  shows "item_inv s'" and "q \<in># waiting s'" and "q \<notin> set queue"
    and "findByID (ri_messageID (vc_items s ! q)) (vc_messageStore s') = Some q"
proof -
  let ?key = "\<lambda>p. ri_messageID (vc_items s ! p)"
  let ?m = "store_add ?key q (vc_messageStore s)"
  note new = queued_id_new [OF inv q]
  have m: "map_inv (vc_messageStore s)" using inv by (simp add: item_inv_def store_inv_def)
  have held: "mset (map snd ?m) = add_mset q (mset (map snd (vc_messageStore s)))"
    by (rule store.put_held [of "vc_messageStore s" ?key q, OF m new(1)])
  have "set ?m \<subseteq> insert (?key q, q) (set (vc_messageStore s))"
    using emplace_mset [of "vc_messageStore s" "?key q" q] new(1)
    by (simp add: store_add_def findByID_def)
      (metis mset_eq_setD set_mset_add_mset_insert set_mset_mset subset_refl)
  then have "store_inv s'"
    using inv new(2) m by (auto simp: s' item_inv_def store_inv_def store_add_def)
  moreover have "pool_inv (waiting s') s'"
    using inv q held by (simp add: s' item_inv_def waiting_def pool_inv_def)
  moreover have "send_inv s'" "id_inv s'"
    using inv q by (auto simp: s' item_inv_def send_inv_def id_inv_def)
  ultimately show "item_inv s'" by (simp add: item_inv_def)
  show "findByID (?key q) (vc_messageStore s') = Some q"
    using store.put_find [OF m, of ?key q] new(1) by (simp add: s' fun_eq_iff)
  show "q \<notin> set queue" using new(3) by simp
  show "q \<in># waiting s'" using held by (simp add: s' waiting_def)
qed

lemma getNextRequestToSend_item:
  assumes inv: "item_inv s" and r: "getNextRequestToSend w s = Inr (s', next)"
  shows "item_inv s'" and "next = Some p \<Longrightarrow>
    p < length (vc_items s') \<and> p \<notin> set (vc_sendQueue s') \<and> p \<in># waiting s' \<and>
    findByID (ri_messageID (vc_items s' ! p)) (vc_messageStore s') = Some p"
proof -
  have *: "item_inv s' \<and> (next = Some p \<longrightarrow>
    p < length (vc_items s') \<and> p \<notin> set (vc_sendQueue s') \<and> p \<in># waiting s' \<and>
    findByID (ri_messageID (vc_items s' ! p)) (vc_messageStore s') = Some p)"
  proof (cases "vc_writeLoop s = Some w \<and> \<not> vc_permanent_failure s \<and> vc_sendQueue s \<noteq> []")
    case False
    then have "next = None \<and> (s' = s \<or> s' = s\<lparr>vc_writeLoop := None\<rparr>)"
      using r by (auto simp: getNextRequestToSend_def queue_front_def split: if_splits list.splits)
    then show ?thesis
      using inv io_frame_item_inv [OF inv, of s'] by (auto simp: io_frame_def)
  next
    case True
    then obtain q queue where q: "vc_sendQueue s = q # queue" by (cases "vc_sendQueue s") auto
    have s': "s' = s\<lparr>vc_messageStore := store_add (\<lambda>p. ri_messageID (vc_items s ! p)) q (vc_messageStore s),
        vc_sendQueue := queue\<rparr>" "next = Some q"
      using r True q by (auto simp: getNextRequestToSend_def queue_front_def removeFirst_def)
    from file_front_item [OF inv q s'(1)] queued_id_new(2) [OF inv q] s' show ?thesis by auto
  qed
  show "item_inv s'" using * by blast
  show "next = Some p \<Longrightarrow>
    p < length (vc_items s') \<and> p \<notin> set (vc_sendQueue s') \<and> p \<in># waiting s' \<and>
    findByID (ri_messageID (vc_items s' ! p)) (vc_messageStore s') = Some p"
    using * by blast
qed


lemma sendNextRequest_item:
  assumes inv: "item_inv s" and r: "sendNextRequest w s = Inr s'"
  shows "item_inv s'"
proof -
  obtain t nxt where t: "getNextRequestToSend w s = Inr (t, nxt)"
    using r by (auto simp: sendNextRequest_def)
  note gt = getNextRequestToSend_item [OF inv t]
  show ?thesis
  proof (cases nxt)
    case None
    with t r gt(1) show ?thesis by (simp add: sendNextRequest_def)
  next
    case (Some p)
    then obtain v k bs to' where v: "startReading t = Inr v"
      and s': "s' = pend (Writing w p) (pend (Write_Deadline w to') v
        \<lparr>vc_async_calls := vc_async_calls v + 1, vc_sent := vc_sent v @ [(k, bs)]\<rparr>)"
      using r t by (auto simp: sendNextRequest_def Let_def pend_def split: option.splits)
    have v_inv: "item_inv v" and io: "io_frame t v"
      using io_frame_item_inv [OF gt(1)] startReading_io [OF v] by auto
    then have "p < length (vc_items v)" "p \<notin> set (vc_sendQueue v)"
      using gt(2) [OF Some] by (auto simp: io_frame_def)
    with v_inv show ?thesis
      by (auto simp: s' pend_def item_inv_def pool_inv_def id_inv_def store_inv_def send_inv_def waiting_def)
  qed
qed

lemma startWriting_item:
  assumes inv: "item_inv s" and r: "startWriting s = Inr s'"
  shows "item_inv s'"
proof (cases "vc_writeLoop s")
  case None
  let ?w = "length (vc_writeLoops s)"
  let ?l = "\<lparr>wl_socket = vc_socket s, wl_started = False\<rparr>"
  let ?t = "s\<lparr>vc_writeLoop := Some ?w, vc_writeLoops := vc_writeLoops s @ [?l\<lparr>wl_started := True\<rparr>]\<rparr>"
  have "sendNextRequest ?w ?t = Inr s'"
    using r None by (simp add: startWriting_def WriteLoop_start_def Let_def)
  moreover have "item_inv ?t"
    by (rule io_frame_item_inv [OF inv]) (simp add: io_frame_def)
  ultimately show ?thesis by (rule sendNextRequest_item [rotated])
next
  case (Some w)
  with inv r show ?thesis by (simp add: startWriting_def)
qed

lemma not_waiting_delivered:
  assumes "item_inv s" and "p < length (vc_items s)" and "p \<notin># waiting s"
  shows "p \<in> d_item ` set (vc_delivered s)"
proof -
  have "waiting s + mset (map d_item (vc_delivered s)) = mset [0..<length (vc_items s)]"
    using assms(1) by (simp add: item_inv_def pool_inv_def)
  then have "p \<in># waiting s + mset (map d_item (vc_delivered s))" using assms(2) by simp
  with assms(3) show ?thesis by auto
qed

lemma set_item_id:
  "ri_messageID item = ri_messageID (vc_items s ! p) \<Longrightarrow>
     ri_messageID (vc_items (set_item p item s) ! q) = ri_messageID (vc_items s ! q)"
  by (cases "p < length (vc_items s)") (auto simp: set_item_def nth_list_update list_update_beyond)

lemma set_item_simps:
  "vc_sendQueue (set_item p item s) = vc_sendQueue s" "vc_messageStore (set_item p item s) = vc_messageStore s"
  "vc_messageID (set_item p item s) = vc_messageID s" "vc_pending (set_item p item s) = vc_pending s"
  "length (vc_items (set_item p item s)) = length (vc_items s)"
  by (simp_all add: set_item_def)

lemma resetSendData_item:
  assumes inv: "item_inv s" and p: "p < length (vc_items s)" "p \<notin> set (vc_sendQueue s)"
  shows "item_inv (set_item p (resetSendData (vc_items s ! p)) s)"
proof -
  let ?t = "set_item p (resetSendData (vc_items s ! p)) s"
  have r: "ri_messageID (resetSendData (vc_items s ! p)) = ri_messageID (vc_items s ! p)"
    by (simp add: resetSendData_def)
  have "pool_inv (waiting s) ?t"
    by (rule pool_inv_set_item) (use inv in \<open>simp_all add: item_inv_def resetSendData_def\<close>)
  moreover have "id_inv ?t" "store_inv ?t"
    using inv by (simp_all add: item_inv_def id_inv_def store_inv_def set_item_id [OF r] set_item_simps)
  moreover have "vc_items ?t ! q = vc_items s ! q" if "q \<in> set (vc_sendQueue s)" for q
    using that p by (metis nth_list_update_neq set_item_def VstConnection.select_convs(14)
        VstConnection.update_convs(14) VstConnection.surjective)
  then have "send_inv ?t"
    using inv by (simp add: item_inv_def send_inv_def set_item_simps)
  ultimately show ?thesis
    by (simp add: item_inv_def waiting_def set_item_simps)
qed

text \<open>A write that failed: its item is taken out of the store and told, unless that has happened.\<close>

lemma fail_item:
  assumes inv: "item_inv s" and p: "p < length (vc_items s)" "p \<notin> set (vc_sendQueue s)"
  obtains v where
    "invoke_item None e p
       (s\<lparr>vc_messageStore := removeByID (ri_messageID (vc_items s ! p)) (vc_messageStore s)\<rparr>) = Inr v"
    and "item_inv v" and "\<exists>m. item_frame (s\<lparr>vc_messageStore := m\<rparr>) v"
    and "p \<in> d_item ` set (vc_delivered v)"
proof -
  let ?i = "ri_messageID (vc_items s ! p)"
  let ?t = "s\<lparr>vc_messageStore := removeByID ?i (vc_messageStore s)\<rparr>"
  have m: "map_inv (vc_messageStore s)" using inv by (simp add: item_inv_def store_inv_def)
  show ?thesis
  proof (cases "findByID ?i (vc_messageStore s)")
    case None
    then have t: "?t = s" using store.remove_absent [OF m] by simp
    have "p \<notin> snd ` set (vc_messageStore s)"
    proof
      assume "p \<in> snd ` set (vc_messageStore s)"
      then obtain i where i: "(i, p) \<in> set (vc_messageStore s)" by auto
      then have "i = ?i" using inv by (auto simp: item_inv_def store_inv_def)
      with i None m show False by (simp add: findByID_def std.entries_find)
    qed
    then have "p \<notin># waiting s" using p by (simp add: waiting_def)
    then have d: "p \<in> d_item ` set (vc_delivered s)"
      using not_waiting_delivered [OF inv] p by simp
    moreover have "pool_inv (waiting s) s" using inv by (simp add: item_inv_def)
    ultimately obtain v where v: "invoke_item None e p s = Inr v"
      "pool_inv (waiting s) v" "item_frame s v" "vc_delivered v = vc_delivered s"
      using invoke_item_done p by blast
    show ?thesis
      by (rule that [of v]) (use v t d item_inv_frame [OF inv v(3,2)] item_frame_store_ex [OF v(3)] in simp_all)
  next
    case (Some q)
    then have "q = p"
      using found_item [OF inv Some] inv p by (auto simp: item_inv_def id_inv_def dest: inj_onD)
    with Some have f: "findByID ?i (vc_messageStore s) = Some p" by simp
    obtain v where v: "invoke_item None e p ?t = Inr v" "item_inv v" "item_frame ?t v"
      "vc_delivered v = vc_delivered ?t @ [\<lparr>d_item = p,
           d_callback = the (co_cb (ri_callback (vc_items ?t ! p))), d_error = e,
           d_request = ri_request (vc_items ?t ! p), d_response = None\<rparr>]"
      by (rule item_inv_invoked [OF removeByID_item [OF inv f]])
    show ?thesis
      by (rule that [OF v(1,2)]) (use v(3,4) in auto)
  qed
qed

lemma asyncWriteCallback_item:
  assumes inv: "item_inv s" and p: "p < length (vc_items s)" "p \<notin> set (vc_sendQueue s)"
    and r: "asyncWriteCallback w p err s = Inr s'"
  shows "item_inv s'"
proof -
  let ?s = "s\<lparr>vc_async_calls := vc_async_calls s - 1\<rparr>"
  have inv': "item_inv ?s" by (rule io_frame_item_inv [OF inv]) (simp add: io_frame_def)
  show ?thesis
  proof (cases err)
    case False
    have "item_inv (set_item p (resetSendData (vc_items ?s ! p)) ?s)"
      by (rule resetSendData_item [OF inv']) (use p in simp_all)
    then show ?thesis
      using r False sendNextRequest_item by (auto simp: asyncWriteCallback_def Let_def)
  next
    case True
    obtain v where "invoke_item None (errorToInt VstWriteError) p
        (?s\<lparr>vc_messageStore := removeByID (ri_messageID (vc_items ?s ! p)) (vc_messageStore ?s)\<rparr>) = Inr v" "item_inv v"
      by (rule fail_item [OF inv']) (use p in simp_all)
    then show ?thesis
      using r True restart_loops_item(2) by (auto simp: asyncWriteCallback_def Let_def)
  qed
qed

lemma asyncReadCallback_item:
  assumes inv: "item_inv s" and r: "asyncReadCallback L u l outcome s = Inr s'"
  shows "item_inv s'"
proof -
  let ?s = "s\<lparr>vc_async_calls := vc_async_calls s - 1\<rparr>"
  have inv': "item_inv ?s" by (rule io_frame_item_inv [OF inv]) (simp add: io_frame_def)
  show ?thesis
  proof (cases outcome)
    case None
    with r inv' show ?thesis
      by (auto simp: asyncReadCallback_def Let_def intro: restart_loops_item)
  next
    case (Some bs)
    then obtain rest t where t: "read_chunks L u (rl_receiveBuffer (vc_readLoops s ! l) @ bs) ?s = Inr (rest, t)"
      and s': "readNextBytes l (t\<lparr>vc_readLoops := (vc_readLoops t)
         [l := (vc_readLoops t ! l)\<lparr>rl_receiveBuffer := rest\<rparr>]\<rparr>) = Inr s'"
      using r by (auto simp: asyncReadCallback_def Let_def)
    have "item_inv t" using read_chunks_item [OF inv' t] by blast
    then show ?thesis
      by (rule io_frame_item_inv [OF io_frame_item_inv [OF _ _] readNextBytes_io [OF s']]) (simp add: io_frame_def)
  qed
qed


lemma buildChunks_nonempty: "buildChunks L u mid m ss = Inr chunks \<Longrightarrow> chunks \<noteq> []"
  by (auto simp: buildChunks_def Let_def neq_Nil_conv split: list.split_asm)

lemma u64_succ: "(w :: u64) \<noteq> - 1 \<Longrightarrow> w < w + 1"
  using unatSuc [of w] by (simp add: word_less_nat_alt add.commute add_eq_0_iff)

lemma prepareForNetwork_fields:
  assumes "prepareForNetwork L u v item = Inr item'"
  shows "ri_request item' \<noteq> None \<and> ri_callback item' = ri_callback item \<and>
    ri_messageID item' = ri_messageID item \<and> ri_requestBuffers item' \<noteq> []"
proof -
  obtain r msgHdr ss r' chunks where
    b: "buildChunks L u (ri_messageID item) defaultMaxChunkSize (msgHdr # ss) = Inr chunks"
    and item': "item' = item\<lparr>ri_request := Some r', ri_msgHdr := msgHdr,
       ri_requestChunkBuffer := fst (prepare_loop v chunks (ri_requestChunkBuffer item) (ri_requestBuffers item)),
       ri_requestBuffers := snd (prepare_loop v chunks (ri_requestChunkBuffer item) (ri_requestBuffers item))\<rparr>"
    using assms by (auto simp: prepareForNetwork_def Let_def split_beta split: option.splits)
  have "chunks \<noteq> []" by (rule buildChunks_nonempty [OF b])
  then obtain c cs where "chunks = c # cs" by (cases chunks) auto
  then show ?thesis by (simp add: item' prepare_loop_eq)
qed

text \<open>A new item is in the hand of the caller.\<close>

lemma createRequestItem_item:
  assumes inv: "item_inv s" and ids: "ids_left s"
    and r: "createRequestItem L u req cb s = (s', Inr p)"
  shows "p = length (vc_items s) \<and> pool_inv (add_mset p (waiting s')) s' \<and> id_inv s' \<and> store_inv s' \<and>
    (\<forall>q \<in> set (vc_sendQueue s'). ri_requestBuffers (vc_items s' ! q) \<noteq> []) \<and>
    ri_requestBuffers (vc_items s' ! p) \<noteq> [] \<and> p \<notin> set (vc_sendQueue s') \<and>
    (\<forall>w q. Writing w q \<in> set (vc_pending s') \<longrightarrow> q < length (vc_items s) \<and> q \<notin> set (vc_sendQueue s'))"
proof -
  let ?i = "vc_messageID s + 1"
  obtain item where item: "prepareForNetwork L u (vc_vstVersion s)
      (RequestItem_new\<lparr>ri_messageID := ?i, ri_callback := CallOnce_assign cb CallOnce_new,
         ri_request := Some (req\<lparr>r_messageID := ?i\<rparr>)\<rparr>) = Inr item"
    and s': "s' = s\<lparr>vc_messageID := ?i, vc_items := vc_items s @ [item]\<rparr>" and p: "p = length (vc_items s)"
    using r by (auto simp: createRequestItem_def Let_def RequestItem_new_def split: sum.splits)
  note f = prepareForNetwork_fields [OF item]
  have cb: "callonce_inv (ri_callback item)" "\<not> co_invoked (ri_callback item)"
    using f by (simp_all add: callonce_inv_def CallOnce_assign_def CallOnce_new_def)
  have lt: "i < ?i" if "i \<le> vc_messageID s" for i
    using that u64_succ [of "vc_messageID s"] ids by (simp add: ids_left_def)
  have q: "\<forall>q \<in> set (vc_sendQueue s). q < length (vc_items s)"
    using queue_lt [OF inv] by blast
  have nd: "length (vc_items s) \<notin> d_item ` set (vc_delivered s)"
  proof
    assume "length (vc_items s) \<in> d_item ` set (vc_delivered s)"
    then have "length (vc_items s) \<in># waiting s + mset (map d_item (vc_delivered s))" by auto
    also have "waiting s + mset (map d_item (vc_delivered s)) = mset [0..<length (vc_items s)]"
      using inv by (simp add: item_inv_def pool_inv_def)
    finally show False by simp
  qed
  have "pool_inv (add_mset p (waiting s')) s'"
    using inv cb f nd unfolding item_inv_def pool_inv_def waiting_def s' p
    by (auto simp: nth_append less_Suc_eq)
  moreover have "id_inv s'"
    using inv f lt unfolding item_inv_def id_inv_def s'
    by (auto simp: inj_on_def nth_append less_Suc_eq dest: order_less_imp_le) (metis less_irrefl)+
  moreover have "store_inv s'"
    using inv by (auto simp: item_inv_def store_inv_def s' nth_append)
  ultimately show ?thesis
    using inv f q p by (auto simp: item_inv_def send_inv_def s' nth_append)
qed


lemma enqueue_item:
  assumes inv: "item_inv s" and ids: "ids_left s"
    and r: "createRequestItem L u req cb s = (s', Inr p)"
    and q: "mset q = add_mset p (mset (vc_sendQueue s'))"
  shows "item_inv (s'\<lparr>vc_sendQueue := q\<rparr>)"
proof -
  note c = createRequestItem_item [OF inv ids r]
  have sq: "set q = insert p (set (vc_sendQueue s'))"
    using arg_cong [OF q, of set_mset] by simp
  have "pool_inv (add_mset p (waiting s')) s'" using c by blast
  then have "pool_inv (waiting (s'\<lparr>vc_sendQueue := q\<rparr>)) (s'\<lparr>vc_sendQueue := q\<rparr>)"
    by (simp add: pool_inv_def waiting_def q)
  moreover have "id_inv (s'\<lparr>vc_sendQueue := q\<rparr>)" "store_inv (s'\<lparr>vc_sendQueue := q\<rparr>)"
    using c by (simp_all add: id_inv_def store_inv_def)
  moreover have "send_inv (s'\<lparr>vc_sendQueue := q\<rparr>)"
  proof -
    have len: "length (vc_items s') = Suc (length (vc_items s))"
      using r by (auto simp: createRequestItem_def Let_def split: sum.splits)
    show ?thesis
      using c unfolding send_inv_def
      by (auto simp: sq len) (metis less_irrefl less_SucI)+
  qed
  ultimately show ?thesis by (simp add: item_inv_def)
qed

lemma createRequestItem_failed:
  assumes "item_inv s" and "ids_left s" and "createRequestItem L u req cb s = (s', Inl e)"
  shows "item_inv s'"
proof -
  have s': "s' = s\<lparr>vc_messageID := vc_messageID s + 1\<rparr>"
    using assms(3) by (auto simp: createRequestItem_def Let_def split: sum.splits)
  have "vc_messageID s \<le> vc_messageID s + 1"
    using assms(2) u64_succ [of "vc_messageID s"] by (simp add: ids_left_def)
  then show ?thesis
    using assms(1) by (auto simp: s' item_inv_def pool_inv_def id_inv_def store_inv_def send_inv_def waiting_def
        dest: order_trans)
qed

lemma sendRequest_item:
  assumes inv: "item_inv s" and ids: "ids_left s" and r: "run_handler L u (Send req cb) s = Inr s'"
  shows "item_inv s'"
proof -
  obtain t rp where c: "createRequestItem L u req (User_Callback cb) s = (t, rp)" by fastforce
  show ?thesis
  proof (cases rp)
    case (Inl e)
    then have "s' = t" using r c by (auto simp: sendRequest_def split: if_splits)
    with createRequestItem_failed [OF inv ids] c Inl show ?thesis by simp
  next
    case (Inr p)
    let ?t = "t\<lparr>vc_sendQueue := queue_add p (vc_sendQueue t)\<rparr>"
    have t: "item_inv ?t"
      by (rule enqueue_item [OF inv ids c [unfolded Inr]]) (simp add: queue_add_def)
    have "s' = ?t \<or> startWriting ?t = Inr s'"
      using r c Inr by (auto simp: sendRequest_def Let_def split: if_splits sum.splits)
    with t startWriting_item show ?thesis by blast
  qed
qed

lemma headerWrittenCallback_item:
  assumes inv: "item_inv s" and ids: "ids_left s" and r: "headerWrittenCallback L u e s = Inr s'"
  shows "item_inv s'"
proof (cases e)
  case (Some msg)
  let ?s = "s\<lparr>vc_connected := False\<rparr>"
  have "item_inv ?s" by (rule io_frame_item_inv [OF inv]) (simp add: io_frame_def)
  then obtain t where "shutdownConnection CanceledDuringReset ?s = Inr t" "item_inv t"
    using shutdownConnection_spec by metis
  with r Some show ?thesis
    by (auto simp: headerWrittenCallback_def intro: io_frame_item_inv [OF _ onFailure_io])
next
  case None
  then obtain t v where t: "insertAuthenticationRequests L u s = Inr t"
    and v: "startWriting (t\<lparr>vc_connected := True\<rparr>) = Inr v" and s': "startReading v = Inr s'"
    using r by (auto simp: headerWrittenCallback_def)
  have "item_inv t"
  proof (cases "c_authenticationType (vc_configuration s)")
    case Basic
    then obtain w p where c: "createRequestItem L u (auth_request (vc_configuration s)) Auth_Callback s = (w, Inr p)"
      and "t = w\<lparr>vc_sendQueue := queue_insert p (vc_sendQueue w)\<rparr>"
      using t by (auto simp: insertAuthenticationRequests_def split: prod.splits sum.splits)
    then show ?thesis
      using enqueue_item [OF inv ids c] by (simp add: queue_insert_def)
  qed (use t inv in \<open>auto simp: insertAuthenticationRequests_def\<close>)
  then have "item_inv (t\<lparr>vc_connected := True\<rparr>)"
    by (rule io_frame_item_inv) (simp add: io_frame_def)
  then show ?thesis
    using startWriting_item [OF _ v] io_frame_item_inv [OF _ startReading_io [OF s']] by blast
qed

lemma asyncConnectCallback_item:
  assumes inv: "item_inv s" and r: "asyncConnectCallback e s = Inr s'"
  shows "item_inv s'"
proof (cases e)
  case (Some msg)
  obtain t where "shutdownConnection CanceledDuringReset s = Inr t" "item_inv t"
    using shutdownConnection_spec [OF inv] by metis
  with r Some show ?thesis
    by (auto simp: asyncConnectCallback_def intro: io_frame_item_inv [OF _ onFailure_io])
next
  case None
  with r have "io_frame s s'"
    by (auto simp: asyncConnectCallback_def finishInitialization_io startSSLHandshake_io split: if_splits)
  with inv show ?thesis by (rule io_frame_item_inv)
qed

lemma handshakeCallback_io: "handshakeCallback e s = Inr s' \<Longrightarrow> io_frame s s'"
  by (auto simp: handshakeCallback_def finishInitialization_io shutdownSocket_def split: option.splits
      intro!: io_frame_trans [OF _ onFailure_io]) (simp add: io_frame_def)

lemma finish_item:
  assumes "item_inv s"
  shows "item_inv (finish ev s)"
  by (rule io_frame_item_inv [OF assms])
    (auto simp: finish_def io_frame_def split: option.splits dest: set_remove1_subset [THEN subsetD])

lemma handle_item:
  assumes inv: "item_inv s" and en: "enabled ev s" and ids: "ids_left s" and r: "handle L u ev s = Inr s'"
  shows "item_inv s'"
proof -
  let ?f = "finish ev s"
  have f: "item_inv ?f" by (rule finish_item [OF inv])
  have fi: "ids_left ?f" using ids by (simp add: ids_left_def finish_def split: option.splits)
  have rf: "run_handler L u ev ?f = Inr s'" using r by (simp add: handle_def)
  show ?thesis
  proof (cases ev)
    case (Send req cb)
    then show ?thesis using sendRequest_item [OF f fi] rf by blast
  next
    case (Resolved e eps)
    then show ?thesis using rf io_frame_item_inv [OF f resolveCallback_io] by simp
  next
    case (Connected eps e)
    then show ?thesis using rf asyncConnectCallback_item [OF f] by simp
  next
    case (Handshaken e)
    then show ?thesis using rf io_frame_item_inv [OF f handshakeCallback_io] by simp
  next
    case (Header_Written e)
    then show ?thesis using rf headerWrittenCallback_item [OF f fi] by simp
  next
    case (Read l b)
    then show ?thesis using rf asyncReadCallback_item [OF f] by simp
  next
    case (Read_Timer l t e)
    then show ?thesis using rf f restart_loops_item(1) [OF f]
      by (auto simp: readDeadlineHandler_def split: if_splits)
  next
    case (Written w p e)
    then have "p < length (vc_items s) \<and> p \<notin> set (vc_sendQueue s)"
      using en inv by (auto simp: enabled_def item_inv_def send_inv_def)
    then have "p < length (vc_items ?f)" "p \<notin> set (vc_sendQueue ?f)"
      by (simp_all add: finish_def split: option.splits)
    then show ?thesis using rf Written asyncWriteCallback_item [OF f] by simp
  next
    case (Write_Timer w t e)
    then show ?thesis using rf f restart_loops_item(2) [OF f]
      by (auto simp: writeDeadlineHandler_def split: if_splits)
  qed
qed

lemma reachable_item: "reachable L u conf s \<Longrightarrow> item_inv s"
proof (induction rule: reachable.induct)
  case started
  show ?case
    by (simp add: start_def startResolveHost_def pend_def VstConnection_new_def item_inv_defs)
next
  case (steps s s')
  then show ?case by (auto elim!: stepE intro: handle_item)
qed

end
