(* ===== verification/VstLoops.thy ===== *)
theory VstLoops
  imports VstSafety
begin

text \<open>
  The loops of the connection: in every reachable state the counter of asynchronous calls is the
  number of reads and writes in flight, no loop has two of them in flight, and while a host is
  being resolved there is no socket and no loop that could restart the connection. The last part
  is what the assertions of \<open>initSocket\<close> rest on.
\<close>

section \<open>Invariants\<close>

text \<open>The loop that a read (\<open>True\<close>) or a write (\<open>False\<close>) in flight belongs to.\<close>

fun io_loop :: "pending \<Rightarrow> (bool \<times> nat) option" where
  "io_loop (Reading r) = Some (True, r)"
| "io_loop (Writing w p) = Some (False, w)"
| "io_loop _ = None"

definition io_loops :: "'u VstConnection \<Rightarrow> (bool \<times> nat) list" where
  "io_loops s = List.map_filter io_loop (vc_pending s)"

fun loop_bound :: "nat \<Rightarrow> nat \<Rightarrow> pending \<Rightarrow> bool" where
  "loop_bound r w (Reading l) = (l < r)"
| "loop_bound r w (Read_Deadline l t) = (l < r)"
| "loop_bound r w (Writing l p) = (l < w)"
| "loop_bound r w (Write_Deadline l t) = (l < w)"
| "loop_bound r w _ = True"

definition loop_inv :: "'u VstConnection \<Rightarrow> bool" where
  "loop_inv s \<longleftrightarrow>
     vc_async_calls s = of_nat (length (io_loops s)) \<and> distinct (io_loops s) \<and>
     list_all (loop_bound (length (vc_readLoops s)) (length (vc_writeLoops s))) (vc_pending s) \<and>
     (\<forall>r. vc_readLoop s = Some r \<longrightarrow> r < length (vc_readLoops s)) \<and>
     (\<forall>w. vc_writeLoop s = Some w \<longrightarrow> w < length (vc_writeLoops s)) \<and>
     vc_sslSocket s = vc_socket s"

fun read_loop_of :: "pending \<Rightarrow> nat option" where
  "read_loop_of (Reading r) = Some r"
| "read_loop_of (Read_Deadline r t) = Some r"
| "read_loop_of _ = None"

fun write_loop_of :: "pending \<Rightarrow> nat option" where
  "write_loop_of (Writing w p) = Some w"
| "write_loop_of (Write_Deadline w t) = Some w"
| "write_loop_of _ = None"

definition resolve_inv :: "'u VstConnection \<Rightarrow> bool" where
  "resolve_inv s \<longleftrightarrow>
     (Resolving \<in> set (vc_pending s) \<longrightarrow>
        count_list (vc_pending s) Resolving = 1 \<and> vc_socket s = None \<and>
        (\<forall>r. vc_readLoop s = Some r \<longrightarrow>
           vc_permanent_failure s \<and> (\<forall>p \<in> set (vc_pending s). read_loop_of p \<noteq> Some r)) \<and>
        (\<forall>w. vc_writeLoop s = Some w \<longrightarrow>
           vc_permanent_failure s \<and> (\<forall>p \<in> set (vc_pending s). write_loop_of p \<noteq> Some w)))"

text \<open>What the loop invariants look at.\<close>

definition same_loops :: "'u VstConnection \<Rightarrow> 'u VstConnection \<Rightarrow> bool" where
  "same_loops s s' \<longleftrightarrow>
     vc_pending s' = vc_pending s \<and> vc_async_calls s' = vc_async_calls s \<and>
     length (vc_readLoops s') = length (vc_readLoops s) \<and>
     length (vc_writeLoops s') = length (vc_writeLoops s) \<and>
     vc_readLoop s' = vc_readLoop s \<and> vc_writeLoop s' = vc_writeLoop s \<and>
     vc_socket s' = vc_socket s \<and> vc_sslSocket s' = vc_sslSocket s \<and>
     (vc_permanent_failure s \<longrightarrow> vc_permanent_failure s')"

definition conn_inv :: "'u VstConnection \<Rightarrow> bool" where
  "conn_inv s \<longleftrightarrow> loop_inv s \<and> resolve_inv s"

lemma same_loops_inv:
  assumes "same_loops s s'"
  shows "loop_inv s \<Longrightarrow> loop_inv s'" and "resolve_inv s \<Longrightarrow> resolve_inv s'" and "conn_inv s \<Longrightarrow> conn_inv s'"
  using assms by (auto simp: same_loops_def loop_inv_def resolve_inv_def io_loops_def conn_inv_def)

lemma same_loops_refl: "same_loops s s"
  by (simp add: same_loops_def)

lemma same_loops_trans: "same_loops s t \<Longrightarrow> same_loops t v \<Longrightarrow> same_loops s v"
  by (simp add: same_loops_def)

lemma item_frame_same: "item_frame s s' \<Longrightarrow> same_loops s s'"
  by (simp add: same_loops_def item_frame_fields)

lemma store_frame_same: "item_frame (s\<lparr>vc_messageStore := m\<rparr>) s' \<Longrightarrow> same_loops s s'"
  by (drule item_frame_same) (simp add: same_loops_def)

lemma io_loops_cong: "vc_pending s' = vc_pending s \<Longrightarrow> io_loops s' = io_loops s"
  by (simp add: io_loops_def)

lemma onFailure_same: "same_loops s (onFailure e m s)"
  by (simp add: same_loops_def onFailure_def)

lemma io_loops_pend: "io_loops (pend p s) = io_loops s @ (case io_loop p of None \<Rightarrow> [] | Some l \<Rightarrow> [l])"
  by (simp add: io_loops_def pend_def map_filter_def split: option.split)

lemma io_loops_async [simp]: "io_loops (s\<lparr>vc_async_calls := n\<rparr>) = io_loops s"
  by (simp add: io_loops_def)

lemma pend_simps [simp]:
  "vc_pending (pend p s) = vc_pending s @ [p]" "vc_async_calls (pend p s) = vc_async_calls s"
  "vc_readLoops (pend p s) = vc_readLoops s" "vc_writeLoops (pend p s) = vc_writeLoops s"
  "vc_readLoop (pend p s) = vc_readLoop s" "vc_writeLoop (pend p s) = vc_writeLoop s"
  "vc_socket (pend p s) = vc_socket s" "vc_sslSocket (pend p s) = vc_sslSocket s"
  "vc_permanent_failure (pend p s) = vc_permanent_failure s"
  by (simp_all add: pend_def)

lemma map_filter_remove1:
  "p \<in> set xs \<Longrightarrow> mset (List.map_filter f (remove1 p xs)) =
     mset (List.map_filter f xs) - (case f p of None \<Rightarrow> {#} | Some l \<Rightarrow> {#l#})"
proof (induction xs)
  case (Cons x xs)
  show ?case
  proof (cases "x = p")
    case False
    with Cons have "p \<in> set xs" by simp
    then have "f p = Some l \<Longrightarrow> l \<in># mset (List.map_filter f xs)" for l
      by (auto simp: map_filter_def intro!: rev_image_eqI [of p])
    with False Cons show ?thesis by (auto simp: map_filter_simps split: option.splits)
  qed (simp add: map_filter_simps split: option.split)
qed simp

section \<open>Reading\<close>

lemma pend_read_loop_inv:
  assumes "loop_inv s" and "(True, r) \<notin> set (io_loops s)" and "r < length (vc_readLoops s)"
  shows "loop_inv (pend (Reading r) (pend (Read_Deadline r t) s\<lparr>vc_async_calls := vc_async_calls s + 1\<rparr>))"
  using assms by (simp add: loop_inv_def io_loops_pend io_loops_async pend_simps)

lemma readNextBytes_loop:
  assumes inv: "loop_inv s" and "(True, r) \<notin> set (io_loops s)" and "r < length (vc_readLoops s)"
    and "readNextBytes r s = Inr s'"
  shows "loop_inv s'"
proof -
  have stop: "loop_inv (s\<lparr>vc_readLoop := None\<rparr>)"
    using inv by (simp add: loop_inv_def io_loops_def)
  show ?thesis
    using assms(4) inv stop pend_read_loop_inv [OF assms(1-3)]
    by (auto simp: readNextBytes_def shouldStopReading_def Let_def pend_def split: if_splits option.splits)
qed

lemma readNextBytes_resolve:
  assumes "resolve_inv s" and "readNextBytes r s = Inr s'"
    and "Resolving \<in> set (vc_pending s) \<longrightarrow> vc_permanent_failure s \<or> vc_readLoop s \<noteq> Some r \<or>
      rl_socket (vc_readLoops s ! r) = None"
  shows "resolve_inv s' \<and> (Resolving \<in> set (vc_pending s') \<longleftrightarrow> Resolving \<in> set (vc_pending s))"
  using assms
  by (auto simp: readNextBytes_def shouldStopReading_def Let_def pend_def resolve_inv_def split: if_splits option.splits)

lemma io_loop_eq:
  "io_loop p = Some (True, r) \<longleftrightarrow> p = Reading r"
  "io_loop p = Some (False, w) \<longleftrightarrow> (\<exists>q. p = Writing w q)"
  by (cases p; simp)+

lemma read_loop_of_eq: "read_loop_of p = Some r \<longleftrightarrow> p = Reading r \<or> (\<exists>t. p = Read_Deadline r t)"
  by (cases p; simp)

lemma write_loop_of_eq: "write_loop_of p = Some w \<longleftrightarrow> (\<exists>q. p = Writing w q) \<or> (\<exists>t. p = Write_Deadline w t)"
  by (cases p; simp)

lemma in_io_loops: "l \<in> set (io_loops s) \<longleftrightarrow> (\<exists>p \<in> set (vc_pending s). io_loop p = Some l)"
  by (force simp: io_loops_def map_filter_def)

lemma io_bound:
  assumes "loop_inv s"
  shows "(True, r) \<in> set (io_loops s) \<Longrightarrow> r < length (vc_readLoops s)"
    and "(False, w) \<in> set (io_loops s) \<Longrightarrow> w < length (vc_writeLoops s)"
    and "p \<in> set (vc_pending s) \<Longrightarrow> read_loop_of p = Some r \<Longrightarrow> r < length (vc_readLoops s)"
    and "p \<in> set (vc_pending s) \<Longrightarrow> write_loop_of p = Some w \<Longrightarrow> w < length (vc_writeLoops s)"
proof -
  have lb: "loop_bound (length (vc_readLoops s)) (length (vc_writeLoops s)) p" if "p \<in> set (vc_pending s)" for p
    using assms that by (auto simp: loop_inv_def list_all_iff)
  show "(True, r) \<in> set (io_loops s) \<Longrightarrow> r < length (vc_readLoops s)"
    using lb [of "Reading r"] by (auto simp: in_io_loops io_loop_eq)
  show "(False, w) \<in> set (io_loops s) \<Longrightarrow> w < length (vc_writeLoops s)"
    using lb by (force simp: in_io_loops io_loop_eq)
  show "p \<in> set (vc_pending s) \<Longrightarrow> read_loop_of p = Some r \<Longrightarrow> r < length (vc_readLoops s)"
    using lb by (force simp: read_loop_of_eq)
  show "p \<in> set (vc_pending s) \<Longrightarrow> write_loop_of p = Some w \<Longrightarrow> w < length (vc_writeLoops s)"
    using lb by (force simp: write_loop_of_eq)
qed


lemma startReading_loop:
  assumes inv: "loop_inv s" and r: "startReading s = Inr s'"
  shows "loop_inv s'"
proof (cases "vc_readLoop s")
  case None
  let ?r = "length (vc_readLoops s)"
  let ?t = "s\<lparr>vc_readLoop := Some ?r,
    vc_readLoops := vc_readLoops s @ [\<lparr>rl_socket = vc_socket s, rl_receiveBuffer = [], rl_started = True\<rparr>]\<rparr>"
  have rd: "readNextBytes ?r ?t = Inr s'"
    using r None by (simp add: startReading_def ReadLoop_start_def Let_def)
  have io: "io_loops ?t = io_loops s" by (rule io_loops_cong) simp
  have "loop_bound ?r w p \<Longrightarrow> loop_bound (Suc ?r) w p" for w p
    by (cases p) auto
  then have t: "loop_inv ?t"
    using inv by (auto simp: loop_inv_def io list_all_iff)
  have "(True, ?r) \<notin> set (io_loops ?t)"
    using io_bound(1) [OF inv, of ?r] by (auto simp: io)
  then show ?thesis using readNextBytes_loop [OF t _ _ rd] by simp
next
  case (Some l)
  with inv r show ?thesis by (simp add: startReading_def)
qed

lemma startReading_cases:
  assumes "startReading s = Inr s'"
  obtains (running) r where "vc_readLoop s = Some r" and "s' = s"
  | (failed) l where "vc_readLoop s = None" and "vc_permanent_failure s"
      and "s' = s\<lparr>vc_readLoop := Some (length (vc_readLoops s)), vc_readLoops := vc_readLoops s @ [l]\<rparr>"
  | (idle) l where "vc_readLoop s = None" and "vc_messageStore s = []" and "vc_sendQueue s = []"
      and "s' = s\<lparr>vc_readLoops := vc_readLoops s @ [l]\<rparr>"
  | (reading) k l t where "vc_readLoop s = None" and "\<not> vc_permanent_failure s" and "vc_socket s = Some k"
      and "s' = s\<lparr>vc_readLoop := Some (length (vc_readLoops s)), vc_readLoops := vc_readLoops s @ [l],
             vc_async_calls := vc_async_calls s + 1,
             vc_pending := vc_pending s @ [Read_Deadline (length (vc_readLoops s)) t, Reading (length (vc_readLoops s))]\<rparr>"
proof (cases "vc_readLoop s")
  case None
  let ?r = "length (vc_readLoops s)"
  let ?l = "\<lparr>rl_socket = vc_socket s, rl_receiveBuffer = [], rl_started = True\<rparr>"
  let ?t = "s\<lparr>vc_readLoop := Some ?r, vc_readLoops := vc_readLoops s @ [?l]\<rparr>"
  have rd: "readNextBytes ?r ?t = Inr s'"
    using assms None by (simp add: startReading_def ReadLoop_start_def Let_def)
  show ?thesis
  proof (cases "vc_permanent_failure s")
    case True
    with rd have "s' = ?t" by (simp add: readNextBytes_def shouldStopReading_def)
    with None True show ?thesis by (rule failed)
  next
    case perm: False
    show ?thesis
    proof (cases "vc_messageStore s = [] \<and> vc_sendQueue s = []")
      case True
      with rd perm have "s' = s\<lparr>vc_readLoops := vc_readLoops s @ [?l]\<rparr>"
        by (cases s) (use None in \<open>simp add: readNextBytes_def shouldStopReading_def store_empty_def queue_empty_def\<close>)
      with None True show ?thesis using idle by blast
    next
      case False
      have go: "bind_res (minimumTimeout (item_timeout ?t) (vc_messageStore s)) (\<lambda>t.
          case vc_socket s of None \<Rightarrow> Inl null_socket
          | Some _ \<Rightarrow> Inr (pend (Reading ?r) (pend (Read_Deadline ?r t) ?t\<lparr>vc_async_calls := vc_async_calls s + 1\<rparr>))) = Inr s'"
        using rd perm False
        by (cases "vc_socket s")
          (auto simp: readNextBytes_def shouldStopReading_def store_empty_def queue_empty_def Let_def)
      then obtain t k where "vc_socket s = Some k"
        and "s' = pend (Reading ?r) (pend (Read_Deadline ?r t) ?t\<lparr>vc_async_calls := vc_async_calls s + 1\<rparr>)"
        by (cases "vc_socket s") auto
      with None perm show ?thesis by (intro reading [where k = k and l = ?l and t = t]) (simp_all add: pend_def)
    qed
  qed
next
  case (Some r)
  with assms have "s' = s" by (simp add: startReading_def)
  with Some show ?thesis by (rule running)
qed

lemma startReading_resolve:
  assumes inv: "loop_inv s" "resolve_inv s" and r: "startReading s = Inr s'"
  shows "resolve_inv s' \<and> (Resolving \<in> set (vc_pending s') \<longleftrightarrow> Resolving \<in> set (vc_pending s))"
  using r
proof (cases rule: startReading_cases)
  case (failed l)
  have "\<forall>p \<in> set (vc_pending s). read_loop_of p \<noteq> Some (length (vc_readLoops s))"
    using io_bound(3) [OF inv(1)] by blast
  with failed inv(2) show ?thesis by (simp add: resolve_inv_def)
qed (use inv(2) in \<open>simp_all add: resolve_inv_def\<close>)

lemma startReading_null:
  assumes "vc_socket s = None" and "vc_readLoop s = None" and "\<not> vc_permanent_failure s"
    and "vc_messageStore s \<noteq> []"
  shows "startReading s \<noteq> Inr s'"
proof
  assume "startReading s = Inr s'"
  then show False by (cases rule: startReading_cases) (use assms in simp_all)
qed

lemma startReading_frame:
  assumes "startReading s = Inr s'"
  shows "vc_writeLoops s' = vc_writeLoops s" and "vc_writeLoop s' = vc_writeLoop s"
    and "(False, w) \<in> set (io_loops s') \<longleftrightarrow> (False, w) \<in> set (io_loops s)"
  using assms by (cases rule: startReading_cases; simp add: in_io_loops)+

section \<open>Writing\<close>

lemma pend_write_loop_inv:
  assumes "loop_inv s" and "(False, w) \<notin> set (io_loops s)" and "w < length (vc_writeLoops s)"
  shows "loop_inv (pend (Writing w p) (pend (Write_Deadline w t) s
           \<lparr>vc_async_calls := vc_async_calls s + 1, vc_sent := x\<rparr>))"
proof -
  have "io_loops (pend (Write_Deadline w t) s\<lparr>vc_async_calls := n, vc_sent := x\<rparr>) = io_loops s" for n
    by (simp add: io_loops_def map_filter_def pend_def)
  with assms show ?thesis by (simp add: loop_inv_def io_loops_pend)
qed

lemma store_add_nonempty: "store_add key p m \<noteq> []"
  by (cases "(key p, p, m)" rule: map_emplace.cases) (auto simp: store_add_def)

lemma getNextRequestToSend_cases:
  assumes "getNextRequestToSend w s = Inr (s', nxt)"
  obtains (stop) "s' = s" "nxt = None" "vc_writeLoop s \<noteq> Some w \<or> vc_permanent_failure s"
  | (idle) "s' = s\<lparr>vc_writeLoop := None\<rparr>" "nxt = None" "vc_sendQueue s = []"
  | (send) p q where "vc_writeLoop s = Some w" and "\<not> vc_permanent_failure s" and "vc_sendQueue s = p # q"
      and "nxt = Some p" and "s' = s\<lparr>vc_messageStore :=
             store_add (\<lambda>p. ri_messageID (vc_items s ! p)) p (vc_messageStore s), vc_sendQueue := q\<rparr>"
proof (cases "vc_writeLoop s = Some w \<and> \<not> vc_permanent_failure s")
  case False
  with assms stop show ?thesis by (auto simp: getNextRequestToSend_def split: if_splits)
next
  case True
  show ?thesis
  proof (cases "vc_sendQueue s")
    case Nil
    with assms True show ?thesis by (intro idle) (simp_all add: getNextRequestToSend_def queue_front_def)
  next
    case (Cons p q)
    with assms True show ?thesis
      by (intro send [of p q]) (simp_all add: getNextRequestToSend_def queue_front_def removeFirst_def)
  qed
qed

lemma sendNextRequest_cases:
  assumes "sendNextRequest w s = Inr s'"
  obtains (stop) "s' = s" "vc_writeLoop s \<noteq> Some w \<or> vc_permanent_failure s"
  | (idle) "s' = s\<lparr>vc_writeLoop := None\<rparr>"
  | (send) m q t p to' k bs where "vc_writeLoop s = Some w" and "\<not> vc_permanent_failure s" and "m \<noteq> []"
      and "startReading (s\<lparr>vc_messageStore := m, vc_sendQueue := q\<rparr>) = Inr t"
      and "s' = pend (Writing w p) (pend (Write_Deadline w to') t
             \<lparr>vc_async_calls := vc_async_calls t + 1, vc_sent := vc_sent t @ [(k, bs)]\<rparr>)"
proof -
  obtain v nxt where v: "getNextRequestToSend w s = Inr (v, nxt)"
    using assms by (auto simp: sendNextRequest_def)
  then show ?thesis
  proof (cases rule: getNextRequestToSend_cases)
    case stop
    with assms v that(1) show ?thesis by (simp add: sendNextRequest_def)
  next
    case idle
    with assms v that(2) show ?thesis by (simp add: sendNextRequest_def)
  next
    case (send p q)
    then obtain t where t: "startReading v = Inr t"
      using assms v by (auto simp: sendNextRequest_def)
    with assms v send(4) obtain to' k bs where eq: "s' = pend (Writing w p) (pend (Write_Deadline w to') t
             \<lparr>vc_async_calls := vc_async_calls t + 1, vc_sent := vc_sent t @ [(k, bs)]\<rparr>)"
      by (auto simp: sendNextRequest_def Let_def pend_def split: option.splits)
    show ?thesis
      by (rule that(3) [OF send(1,2) store_add_nonempty t [unfolded send(5)] eq])
  qed
qed

lemma sendNextRequest_loop:
  assumes inv: "loop_inv s" and "(False, w) \<notin> set (io_loops s)" and "w < length (vc_writeLoops s)"
    and r: "sendNextRequest w s = Inr s'"
  shows "loop_inv s'"
  using r
proof (cases rule: sendNextRequest_cases)
  case idle
  with inv show ?thesis by (simp add: loop_inv_def io_loops_def)
next
  case (send m q t p to' k bs)
  let ?s = "s\<lparr>vc_messageStore := m, vc_sendQueue := q\<rparr>"
  have "loop_inv ?s" by (rule same_loops_inv(1) [OF _ inv]) (simp add: same_loops_def)
  then have t: "loop_inv t" by (rule startReading_loop) (rule send(4))
  have "(False, w) \<notin> set (io_loops t)"
    using assms(2) startReading_frame(3) [OF send(4)] by (simp add: io_loops_def)
  with t assms(3) startReading_frame(1) [OF send(4)] show ?thesis
    unfolding send(5) by (intro pend_write_loop_inv) simp_all
qed (use inv in simp)

text \<open>A loop that is not to send while a host is being resolved.\<close>

lemma sendNextRequest_resolve:
  assumes inv: "loop_inv s" "resolve_inv s" and r: "sendNextRequest w s = Inr s'"
    and "Resolving \<in> set (vc_pending s) \<Longrightarrow> vc_writeLoop s \<noteq> Some w"
  shows "resolve_inv s' \<and> (Resolving \<in> set (vc_pending s') \<longleftrightarrow> Resolving \<in> set (vc_pending s))"
  using r
proof (cases rule: sendNextRequest_cases)
  case idle
  with inv show ?thesis by (simp add: resolve_inv_def)
next
  case (send m q t p to' k bs)
  let ?s = "s\<lparr>vc_messageStore := m, vc_sendQueue := q\<rparr>"
  have "loop_inv ?s" by (rule same_loops_inv(1) [OF _ inv(1)]) (simp add: same_loops_def)
  moreover have "resolve_inv ?s" by (rule same_loops_inv(2) [OF _ inv(2)]) (simp add: same_loops_def)
  ultimately have "Resolving \<in> set (vc_pending t) \<longleftrightarrow> Resolving \<in> set (vc_pending s)"
    using startReading_resolve [OF _ _ send(4)] by simp
  moreover have "Resolving \<notin> set (vc_pending s)" using assms(4) send(1) by blast
  ultimately show ?thesis by (simp add: send(5) resolve_inv_def)
qed (use inv in simp)

lemma startWriting_loop:
  assumes inv: "loop_inv s" "resolve_inv s" and r: "startWriting s = Inr s'"
  shows "loop_inv s' \<and> resolve_inv s' \<and> (Resolving \<in> set (vc_pending s') \<longleftrightarrow> Resolving \<in> set (vc_pending s))"
proof (cases "vc_writeLoop s")
  case None
  let ?w = "length (vc_writeLoops s)"
  let ?t = "s\<lparr>vc_writeLoop := Some ?w,
    vc_writeLoops := vc_writeLoops s @ [\<lparr>wl_socket = vc_socket s, wl_started = True\<rparr>]\<rparr>"
  have sd: "sendNextRequest ?w ?t = Inr s'"
    using r None by (simp add: startWriting_def WriteLoop_start_def Let_def)
  have io: "io_loops ?t = io_loops s" by (rule io_loops_cong) simp
  have "loop_bound l ?w p \<Longrightarrow> loop_bound l (Suc ?w) p" for l p
    by (cases p) auto
  then have t: "loop_inv ?t"
    using inv by (auto simp: loop_inv_def io list_all_iff)
  have "(False, ?w) \<notin> set (io_loops ?t)"
    using io_bound(2) [OF inv(1), of ?w] by (auto simp: io)
  then have "loop_inv s'" using sendNextRequest_loop [OF t _ _ sd] by simp
  moreover have "resolve_inv s' \<and> (Resolving \<in> set (vc_pending s') \<longleftrightarrow> Resolving \<in> set (vc_pending s))"
  proof (cases "Resolving \<in> set (vc_pending s)")
    case False
    then have "resolve_inv ?t" by (simp add: resolve_inv_def)
    with sendNextRequest_resolve [OF t _ sd] False show ?thesis by simp
  next
    case True
    have fresh: "\<forall>p \<in> set (vc_pending s). write_loop_of p \<noteq> Some ?w"
      using io_bound(4) [OF inv(1)] by blast
    show ?thesis using sd
    proof (cases rule: sendNextRequest_cases)
      case stop
      then show ?thesis using inv(2) True fresh by (simp add: resolve_inv_def)
    next
      case idle
      then show ?thesis using inv(2) True by (simp add: resolve_inv_def)
    next
      case (send m q t p to' k bs)
      let ?u = "?t\<lparr>vc_messageStore := m, vc_sendQueue := q\<rparr>"
      have "vc_socket ?u = None" "vc_readLoop ?u = None" "\<not> vc_permanent_failure ?u" "vc_messageStore ?u \<noteq> []"
        using inv(2) True send(2,3) by (auto simp: resolve_inv_def)
      then show ?thesis using startReading_null [of ?u] send(4) by blast
    qed
  qed
  ultimately show ?thesis by blast
next
  case (Some l)
  with inv r show ?thesis by (simp add: startWriting_def)
qed

section \<open>Shutting down and restarting\<close>

lemma shutdownConnection_conn:
  assumes "item_inv s" and inv: "conn_inv s" and r: "shutdownConnection e s = Inr s'"
  shows "conn_inv s' \<and> vc_pending s' = vc_pending s \<and> vc_socket s' = None \<and> vc_readLoop s' = None \<and>
    vc_writeLoop s' = None"
proof -
  let ?t = "s\<lparr>vc_sslSocket := None, vc_socket := None, vc_readLoop := None, vc_writeLoop := None, vc_messageStore := []\<rparr>"
  have fr: "item_frame ?t s'"
    using shutdownConnection_spec [OF assms(1), of e] r by (metis sum.inject(2))
  have "conn_inv ?t"
    using inv by (simp add: conn_inv_def loop_inv_def resolve_inv_def io_loops_def)
  then have "conn_inv s'" by (rule same_loops_inv(3) [OF item_frame_same [OF fr]])
  then show ?thesis by (simp add: item_frame_fields [OF fr])
qed

lemma restartConnection_conn:
  assumes "item_inv s" and inv: "conn_inv s" and r: "restartConnection e s = Inr s'"
    and "Resolving \<notin> set (vc_pending s)"
  shows "conn_inv s'"
proof -
  obtain t where t: "shutdownConnection e s = Inr t"
    and s': "s' = (if vc_permanent_failure t then t else startResolveHost t)"
    using r by (auto simp: restartConnection_def)
  note ct = shutdownConnection_conn [OF assms(1) inv t]
  then have "conn_inv (startResolveHost t)"
    using assms(4) by (auto simp: startResolveHost_def conn_inv_def loop_inv_def resolve_inv_def io_loops_pend
        count_list_0_iff)
  with s' ct show ?thesis by simp
qed

lemma restart_loops_conn:
  assumes inv: "item_inv s" "conn_inv s"
  shows "restartConnection_ReadLoop r e s = Inr s' \<Longrightarrow>
      (Resolving \<in> set (vc_pending s) \<Longrightarrow> vc_readLoop s \<noteq> Some r) \<Longrightarrow> conn_inv s'"
    and "restartConnection_WriteLoop w e s = Inr s' \<Longrightarrow>
      (Resolving \<in> set (vc_pending s) \<Longrightarrow> vc_writeLoop s \<noteq> Some w) \<Longrightarrow> conn_inv s'"
proof -
  let ?t = "s\<lparr>vc_readLoop := None, vc_writeLoop := None\<rparr>"
  have t: "item_inv ?t" "conn_inv ?t"
    using no_loops_item [OF inv(1)] inv(2)
    by (simp_all add: conn_inv_def loop_inv_def resolve_inv_def io_loops_def)
  show "conn_inv s'" if "restartConnection_ReadLoop r e s = Inr s'"
    and "Resolving \<in> set (vc_pending s) \<Longrightarrow> vc_readLoop s \<noteq> Some r"
    using that inv restartConnection_conn [OF t] by (auto simp: restartConnection_ReadLoop_def split: if_splits)
  show "conn_inv s'" if "restartConnection_WriteLoop w e s = Inr s'"
    and "Resolving \<in> set (vc_pending s) \<Longrightarrow> vc_writeLoop s \<noteq> Some w"
    using that inv restartConnection_conn [OF t] by (auto simp: restartConnection_WriteLoop_def split: if_splits)
qed

section \<open>Completing an operation\<close>

lemma remove_io_loop:
  assumes "p \<in> set (vc_pending s)" and "io_loop p = Some l"
  shows "mset (io_loops (s\<lparr>vc_pending := remove1 p (vc_pending s)\<rparr>)) = mset (remove1 l (io_loops s))"
    and "l \<in> set (io_loops s)"
  using assms map_filter_remove1 [OF assms(1), of io_loop] by (auto simp: io_loops_def map_filter_def intro!: rev_image_eqI)

lemma finish_io:
  assumes inv: "loop_inv s" and en: "enabled ev s" and p: "pending_of ev = Some p" and l: "io_loop p = Some l"
  shows "loop_inv ((finish ev s)\<lparr>vc_async_calls := vc_async_calls (finish ev s) - 1\<rparr>)"
    and "l \<notin> set (io_loops (finish ev s))"
proof -
  let ?f = "s\<lparr>vc_pending := remove1 p (vc_pending s)\<rparr>"
  have f: "finish ev s = ?f" using p by (simp add: finish_def)
  have mem: "p \<in> set (vc_pending s)" using en p by (simp add: enabled_def)
  note m = remove_io_loop [OF mem l]
  have d: "distinct (io_loops s)" using inv by (simp add: loop_inv_def)
  have dist: "distinct (io_loops ?f)"
    using mset_eq_imp_distinct_iff [OF m(1)] d by simp
  have set: "set (io_loops ?f) = set (io_loops s) - {l}"
    using mset_eq_setD [OF m(1)] d by simp
  have "length (io_loops ?f) = length (io_loops s) - 1"
    using arg_cong [OF m(1), of size] m(2) by (simp add: size_Diff_singleton)
  moreover have "0 < length (io_loops s)" using m(2) by auto
  ultimately have "vc_async_calls s - 1 = of_nat (length (io_loops ?f))"
    using inv by (simp add: loop_inv_def of_nat_diff Suc_leI)
  then show "loop_inv ((finish ev s)\<lparr>vc_async_calls := vc_async_calls (finish ev s) - 1\<rparr>)"
    using inv dist unfolding f
    by (auto simp: loop_inv_def list_all_iff dest: set_remove1_subset [THEN subsetD])
  show "l \<notin> set (io_loops (finish ev s))" using set by (simp add: f)
qed

lemma map_filter_remove1_None: "f p = None \<Longrightarrow> List.map_filter f (remove1 p xs) = List.map_filter f xs"
  by (induction xs) (auto simp: map_filter_simps split: option.split)

lemma finish_other:
  assumes inv: "loop_inv s" and p: "pending_of ev = None \<or> io_loop (the (pending_of ev)) = None"
  shows "loop_inv (finish ev s)"
proof (cases "pending_of ev")
  case (Some p)
  then have "io_loop p = None" using p by simp
  then have "io_loops (s\<lparr>vc_pending := remove1 p (vc_pending s)\<rparr>) = io_loops s"
    by (simp add: io_loops_def map_filter_remove1_None)
  then show ?thesis
    using inv Some by (auto simp: finish_def loop_inv_def list_all_iff dest: set_remove1_subset [THEN subsetD])
qed (use inv in \<open>simp add: finish_def\<close>)

lemma count_list_remove1: "p \<in> set xs \<Longrightarrow> count_list (remove1 p xs) x = count_list xs x - (if x = p then 1 else 0)"
  by (induction xs) auto

lemma finish_resolve:
  assumes inv: "resolve_inv s" and en: "enabled ev s"
  shows "resolve_inv (finish ev s)"
    and "pending_of ev = Some Resolving \<Longrightarrow> Resolving \<notin> set (vc_pending (finish ev s))"
proof -
  have *: "resolve_inv (finish ev s) \<and>
      (pending_of ev = Some Resolving \<longrightarrow> Resolving \<notin> set (vc_pending (finish ev s)))"
  proof (cases "pending_of ev")
    case (Some p)
    let ?f = "s\<lparr>vc_pending := remove1 p (vc_pending s)\<rparr>"
    have f: "finish ev s = ?f" using Some by (simp add: finish_def)
    have mem: "p \<in> set (vc_pending s)" using en Some by (simp add: enabled_def)
    have sub: "set (remove1 p (vc_pending s)) \<subseteq> set (vc_pending s)" by (rule set_remove1_subset)
    show ?thesis
    proof (cases "p = Resolving")
      case True
      then have "count_list (remove1 p (vc_pending s)) Resolving = 0"
        using inv mem by (simp add: resolve_inv_def count_list_remove1)
      then have "Resolving \<notin> set (remove1 p (vc_pending s))" by (simp only: count_list_0_iff not_False_eq_True)
      then show ?thesis by (simp add: f resolve_inv_def)
    next
      case False
      then show ?thesis
        using inv sub mem Some by (auto simp: f resolve_inv_def count_list_remove1)
    qed
  qed (use inv in \<open>simp add: finish_def\<close>)
  then show "resolve_inv (finish ev s)"
    and "pending_of ev = Some Resolving \<Longrightarrow> Resolving \<notin> set (vc_pending (finish ev s))" by auto
qed


lemma finish_current:
  assumes "resolve_inv s" and "enabled ev s" and "Resolving \<in> set (vc_pending (finish ev s))"
    and p: "pending_of ev = Some p"
  shows "read_loop_of p = Some r \<Longrightarrow> vc_readLoop (finish ev s) \<noteq> Some r"
    and "write_loop_of p = Some w \<Longrightarrow> vc_writeLoop (finish ev s) \<noteq> Some w"
proof -
  have mem: "p \<in> set (vc_pending s)" using assms(2) p by (simp add: enabled_def)
  have "Resolving \<in> set (vc_pending s)"
    using assms(3) p set_remove1_subset [of p "vc_pending s"] by (auto simp: finish_def)
  then have r: "vc_readLoop s = Some r \<longrightarrow> (\<forall>p \<in> set (vc_pending s). read_loop_of p \<noteq> Some r)"
    and w: "vc_writeLoop s = Some w \<longrightarrow> (\<forall>p \<in> set (vc_pending s). write_loop_of p \<noteq> Some w)"
    using assms(1) by (auto simp: resolve_inv_def)
  show "read_loop_of p = Some r \<Longrightarrow> vc_readLoop (finish ev s) \<noteq> Some r"
    using r mem p by (auto simp: finish_def)
  show "write_loop_of p = Some w \<Longrightarrow> vc_writeLoop (finish ev s) \<noteq> Some w"
    using w mem p by (auto simp: finish_def)
qed

section \<open>Handlers\<close>

lemma io_frame_conn:
  "conn_inv s \<Longrightarrow> same_loops s s' \<Longrightarrow> conn_inv s'"
  by (rule same_loops_inv(3))

lemma finishInitialization_conn: "conn_inv s \<Longrightarrow> finishInitialization s = Inr s' \<Longrightarrow> conn_inv s'"
  by (auto simp: finishInitialization_def conn_inv_def loop_inv_def resolve_inv_def io_loops_pend split: option.splits)
    (auto simp: io_loops_def)

lemma initSocket_conn:
  "conn_inv s \<Longrightarrow> Resolving \<notin> set (vc_pending s) \<Longrightarrow> initSocket s = Inr s' \<Longrightarrow> conn_inv s'"
  by (auto simp: initSocket_def startConnect_def Let_def conn_inv_def loop_inv_def resolve_inv_def io_loops_pend
      split: if_splits) (auto simp: io_loops_def)

lemma resolveCallback_conn:
  assumes inv: "conn_inv s" and "Resolving \<notin> set (vc_pending s)" and r: "resolveCallback e eps s = Inr s'"
  shows "conn_inv s'"
proof -
  let ?t = "s\<lparr>vc_endpoints := eps\<rparr>"
  have t: "conn_inv ?t" by (rule io_frame_conn [OF inv]) (simp add: same_loops_def)
  show ?thesis
  proof (cases e)
    case (Some msg)
    with r io_frame_conn [OF inv onFailure_same] show ?thesis by (auto simp: resolveCallback_def)
  next
    case None
    show ?thesis
    proof (cases "eps = []")
      case True
      with None r io_frame_conn [OF t onFailure_same] show ?thesis
        by (auto simp: resolveCallback_def Let_def)
    next
      case False
      with None r have "initSocket ?t = Inr s'" by (simp add: resolveCallback_def Let_def)
      with initSocket_conn [OF t] assms(2) show ?thesis by simp
    qed
  qed
qed

lemma startSSLHandshake_conn: "conn_inv s \<Longrightarrow> startSSLHandshake s = Inr s' \<Longrightarrow> conn_inv s'"
proof -
  assume inv: "conn_inv s" and r: "startSSLHandshake s = Inr s'"
  obtain t where t: "conn_inv t" and s': "s' = pend Handshaking t"
    using r inv finishInitialization_conn [OF inv]
    by (auto simp: startSSLHandshake_def split: if_splits option.splits)
  then show "conn_inv s'" by (simp add: conn_inv_def loop_inv_def resolve_inv_def io_loops_pend)
qed

lemma asyncConnectCallback_conn:
  assumes "item_inv s" and inv: "conn_inv s" and r: "asyncConnectCallback e s = Inr s'"
  shows "conn_inv s'"
proof (cases e)
  case None
  with r have "startSSLHandshake s = Inr s' \<or> finishInitialization s = Inr s'"
    by (simp add: asyncConnectCallback_def split: if_splits)
  with inv show ?thesis using startSSLHandshake_conn finishInitialization_conn by blast
next
  case (Some msg)
  then obtain t where "shutdownConnection CanceledDuringReset s = Inr t"
    and "s' = onFailure (errorToInt CouldNotConnect) (''unable to connect -- '' @ msg) t"
    using r by (auto simp: asyncConnectCallback_def)
  with shutdownConnection_conn [OF assms(1) inv] show ?thesis
    using io_frame_conn [OF _ onFailure_same] by blast
qed

lemma handshakeCallback_conn:
  assumes inv: "conn_inv s" and r: "handshakeCallback e s = Inr s'"
  shows "conn_inv s'"
proof (cases e)
  case None
  with r have "finishInitialization s = Inr s'" by (simp add: handshakeCallback_def)
  with inv show ?thesis by (rule finishInitialization_conn)
next
  case (Some msg)
  have "conn_inv (shutdownSocket s)"
    using inv by (auto simp: shutdownSocket_def conn_inv_def loop_inv_def resolve_inv_def io_loops_def)
  then show ?thesis
    using Some r io_frame_conn [OF _ onFailure_same] by (auto simp: handshakeCallback_def)
qed

lemma createRequestItem_same:
  "createRequestItem L u req cb s = (s', r) \<Longrightarrow> same_loops s s'"
  by (auto simp: createRequestItem_def Let_def same_loops_def split: sum.splits)

lemma sendRequest_conn:
  assumes inv: "conn_inv s" and r: "run_handler L u (Send req cb) s = Inr s'"
  shows "conn_inv s'"
proof -
  obtain t rp where c: "createRequestItem L u req (User_Callback cb) s = (t, rp)" by fastforce
  have t: "conn_inv t" by (rule io_frame_conn [OF inv createRequestItem_same [OF c]])
  show ?thesis
  proof (cases rp)
    case (Inl e)
    with r c t show ?thesis by (auto simp: sendRequest_def split: if_splits)
  next
    case (Inr p)
    let ?t = "t\<lparr>vc_sendQueue := queue_add p (vc_sendQueue t)\<rparr>"
    have "conn_inv ?t" by (rule io_frame_conn [OF t]) (simp add: same_loops_def)
    moreover have "s' = ?t \<or> startWriting ?t = Inr s'"
      using r c Inr by (auto simp: sendRequest_def Let_def split: if_splits sum.splits)
    ultimately show ?thesis using startWriting_loop by (auto simp: conn_inv_def)
  qed
qed

lemma headerWrittenCallback_conn:
  assumes "item_inv s" and inv: "conn_inv s" and r: "headerWrittenCallback L u e s = Inr s'"
  shows "conn_inv s'"
proof (cases e)
  case (Some msg)
  let ?s = "s\<lparr>vc_connected := False\<rparr>"
  have "item_inv ?s" by (rule io_frame_item_inv [OF assms(1)]) (simp add: io_frame_def)
  moreover have "conn_inv ?s" by (rule io_frame_conn [OF inv]) (simp add: same_loops_def)
  moreover obtain t where "shutdownConnection CanceledDuringReset ?s = Inr t"
    and "s' = onFailure (errorToInt CouldNotConnect) (''unable to initialize connection: error='' @ msg) t"
    using r Some by (auto simp: headerWrittenCallback_def)
  ultimately show ?thesis
    using shutdownConnection_conn io_frame_conn [OF _ onFailure_same] by blast
next
  case None
  then obtain t v where t: "insertAuthenticationRequests L u s = Inr t"
    and v: "startWriting (t\<lparr>vc_connected := True\<rparr>) = Inr v" and s': "startReading v = Inr s'"
    using r by (auto simp: headerWrittenCallback_def)
  have "same_loops s t"
    using t by (auto simp: insertAuthenticationRequests_def same_loops_refl dest!: createRequestItem_same
        split: AuthenticationType.splits prod.splits sum.splits) (simp add: same_loops_def)
  then have "same_loops s (t\<lparr>vc_connected := True\<rparr>)" by (simp add: same_loops_def)
  then have "conn_inv (t\<lparr>vc_connected := True\<rparr>)" by (rule io_frame_conn [OF inv])
  then have "loop_inv v" "resolve_inv v" using startWriting_loop [OF _ _ v] by (auto simp: conn_inv_def)
  then show ?thesis
    using startReading_loop [OF _ s'] startReading_resolve [OF _ _ s'] by (simp add: conn_inv_def)
qed

lemma asyncReadCallback_conn:
  assumes item: "item_inv s" and loop: "loop_inv (s\<lparr>vc_async_calls := vc_async_calls s - 1\<rparr>)"
    and res: "resolve_inv s" and fresh: "(True, r) \<notin> set (io_loops s)" and bound: "r < length (vc_readLoops s)"
    and cur: "Resolving \<in> set (vc_pending s) \<Longrightarrow> vc_readLoop s \<noteq> Some r"
    and cb: "asyncReadCallback L u r outcome s = Inr s'"
  shows "conn_inv s'"
proof -
  let ?s = "s\<lparr>vc_async_calls := vc_async_calls s - 1\<rparr>"
  have item': "item_inv ?s" by (rule io_frame_item_inv [OF item]) (simp add: io_frame_def)
  have conn: "conn_inv ?s" using loop res by (simp add: conn_inv_def resolve_inv_def)
  show ?thesis
  proof (cases outcome)
    case None
    with cb have "restartConnection_ReadLoop r VstReadError ?s = Inr s'"
      by (simp add: asyncReadCallback_def Let_def)
    then show ?thesis by (rule restart_loops_conn(1) [OF item' conn]) (use cur in simp)
  next
    case (Some bs)
    then obtain rest t where t: "read_chunks L u (rl_receiveBuffer (vc_readLoops s ! r) @ bs) ?s = Inr (rest, t)"
      and rd: "readNextBytes r (t\<lparr>vc_readLoops := (vc_readLoops t)
         [r := (vc_readLoops t ! r)\<lparr>rl_receiveBuffer := rest\<rparr>]\<rparr>) = Inr s'"
      using cb by (auto simp: asyncReadCallback_def Let_def)
    let ?t = "t\<lparr>vc_readLoops := (vc_readLoops t)[r := (vc_readLoops t ! r)\<lparr>rl_receiveBuffer := rest\<rparr>]\<rparr>"
    have "same_loops ?s t" using read_chunks_item [OF item' t] store_frame_same by blast
    then have same: "same_loops ?s ?t" by (simp add: same_loops_def)
    have tl: "loop_inv ?t" and tr: "resolve_inv ?t"
      using same_loops_inv [OF same] conn by (auto simp: conn_inv_def)
    have io: "io_loops ?t = io_loops s" using same by (simp add: same_loops_def io_loops_def)
    have "loop_inv s'"
      by (rule readNextBytes_loop [OF tl _ _ rd]) (use fresh bound same io in \<open>simp_all add: same_loops_def\<close>)
    moreover have "resolve_inv s'"
      using readNextBytes_resolve [OF tr rd] cur same by (auto simp: same_loops_def)
    ultimately show ?thesis by (simp add: conn_inv_def)
  qed
qed

lemma asyncWriteCallback_conn:
  assumes item: "item_inv s" and loop: "loop_inv (s\<lparr>vc_async_calls := vc_async_calls s - 1\<rparr>)"
    and res: "resolve_inv s" and fresh: "(False, w) \<notin> set (io_loops s)" and bound: "w < length (vc_writeLoops s)"
    and cur: "Resolving \<in> set (vc_pending s) \<Longrightarrow> vc_writeLoop s \<noteq> Some w"
    and p: "p < length (vc_items s)" "p \<notin> set (vc_sendQueue s)"
    and cb: "asyncWriteCallback w p err s = Inr s'"
  shows "conn_inv s'"
proof -
  let ?s = "s\<lparr>vc_async_calls := vc_async_calls s - 1\<rparr>"
  have item': "item_inv ?s" by (rule io_frame_item_inv [OF item]) (simp add: io_frame_def)
  have conn: "conn_inv ?s" using loop res by (simp add: conn_inv_def resolve_inv_def)
  show ?thesis
  proof (cases err)
    case False
    let ?t = "set_item p (resetSendData (vc_items ?s ! p)) ?s"
    have same: "same_loops ?s ?t" by (simp add: same_loops_def set_item_def)
    have tl: "loop_inv ?t" and tr: "resolve_inv ?t"
      using same_loops_inv [OF same] conn by (auto simp: conn_inv_def)
    have sd: "sendNextRequest w ?t = Inr s'"
      using cb False by (simp add: asyncWriteCallback_def Let_def)
    have io: "io_loops ?t = io_loops s" by (simp add: io_loops_def set_item_def)
    have "loop_inv s'"
      by (rule sendNextRequest_loop [OF tl _ _ sd]) (use fresh bound io in \<open>simp_all add: set_item_def\<close>)
    moreover have "resolve_inv s'"
      using sendNextRequest_resolve [OF tl tr sd] cur by (simp add: set_item_def)
    ultimately show ?thesis by (simp add: conn_inv_def)
  next
    case True
    let ?t = "?s\<lparr>vc_messageStore := removeByID (ri_messageID (vc_items ?s ! p)) (vc_messageStore ?s)\<rparr>"
    obtain v where v: "invoke_item None (errorToInt VstWriteError) p ?t = Inr v"
      and rs: "restartConnection_WriteLoop w VstWriteError v = Inr s'"
      using cb True by (auto simp: asyncWriteCallback_def Let_def)
    obtain m where vi: "item_inv v" and fr: "item_frame (?s\<lparr>vc_messageStore := m\<rparr>) v"
    proof (rule fail_item [OF item', of p "errorToInt VstWriteError"])
      fix v' assume "invoke_item None (errorToInt VstWriteError) p ?t = Inr v'" and "item_inv v'"
        and "\<exists>m. item_frame (?s\<lparr>vc_messageStore := m\<rparr>) v'"
      with v that show thesis by auto
    qed (use p in simp_all)
    have "same_loops ?s v" by (rule store_frame_same [OF fr])
    then have "conn_inv v" and "vc_pending v = vc_pending s" "vc_writeLoop v = vc_writeLoop s"
      using io_frame_conn [OF conn] by (simp_all add: same_loops_def)
    then show ?thesis
      using restart_loops_conn(2) [OF vi _ rs] cur by simp
  qed
qed


text \<open>The completions of the operations of a loop.\<close>

lemma read_event_conn:
  assumes item: "item_inv s" and inv: "conn_inv s" and en: "enabled (Read l b) s" and r: "handle L u (Read l b) s = Inr s'"
  shows "conn_inv s'"
proof -
  let ?f = "finish (Read l b) s"
  have loop: "loop_inv s" and res: "resolve_inv s" using inv by (auto simp: conn_inv_def)
  have mem: "Reading l \<in> set (vc_pending s)" using en by (simp add: enabled_def)
  have "l < length (vc_readLoops ?f)" using io_bound(3) [OF loop mem] by (simp add: finish_def)
  moreover have "loop_inv (?f\<lparr>vc_async_calls := vc_async_calls ?f - 1\<rparr>)" "(True, l) \<notin> set (io_loops ?f)"
    using finish_io [OF loop en, of "Reading l" "(True, l)"] by simp_all
  moreover have "Resolving \<in> set (vc_pending ?f) \<Longrightarrow> vc_readLoop ?f \<noteq> Some l"
    using finish_current(1) [OF res en, of "Reading l" l] by simp
  ultimately show ?thesis
    using asyncReadCallback_conn [OF finish_item [OF item] _ finish_resolve(1) [OF res en]] r by (simp add: handle_def)
qed

lemma written_event_conn:
  assumes item: "item_inv s" and inv: "conn_inv s" and en: "enabled (Written w p e) s" and r: "handle L u (Written w p e) s = Inr s'"
  shows "conn_inv s'"
proof -
  let ?f = "finish (Written w p e) s"
  have loop: "loop_inv s" and res: "resolve_inv s" using inv by (auto simp: conn_inv_def)
  have mem: "Writing w p \<in> set (vc_pending s)" using en by (simp add: enabled_def)
  have "w < length (vc_writeLoops ?f)" using io_bound(4) [OF loop mem] by (simp add: finish_def)
  moreover have "p < length (vc_items ?f)" "p \<notin> set (vc_sendQueue ?f)"
    using item mem by (auto simp: item_inv_def send_inv_def finish_def)
  moreover have "loop_inv (?f\<lparr>vc_async_calls := vc_async_calls ?f - 1\<rparr>)" "(False, w) \<notin> set (io_loops ?f)"
    using finish_io [OF loop en, of "Writing w p" "(False, w)"] by simp_all
  moreover have "Resolving \<in> set (vc_pending ?f) \<Longrightarrow> vc_writeLoop ?f \<noteq> Some w"
    using finish_current(2) [OF res en, of "Writing w p" w] by simp
  ultimately show ?thesis
    using asyncWriteCallback_conn [OF finish_item [OF item] _ finish_resolve(1) [OF res en]] r by (simp add: handle_def)
qed

lemma handle_conn:
  assumes item: "item_inv s" and inv: "conn_inv s" and en: "enabled ev s" and r: "handle L u ev s = Inr s'"
  shows "conn_inv s'"
proof -
  let ?f = "finish ev s"
  have f: "item_inv ?f" by (rule finish_item [OF item])
  have loop: "loop_inv s" and res: "resolve_inv s" using inv by (auto simp: conn_inv_def)
  have other: "pending_of ev = None \<or> io_loop (the (pending_of ev)) = None \<Longrightarrow> conn_inv ?f"
    using finish_other [OF loop] finish_resolve(1) [OF res en] by (simp add: conn_inv_def)
  have rf: "run_handler L u ev ?f = Inr s'" using r by (simp add: handle_def)
  note current = finish_current [OF res en]
  show ?thesis
  proof (cases ev)
    case (Send req cb)
    then show ?thesis using sendRequest_conn [OF other] rf by simp
  next
    case (Resolved e eps)
    then show ?thesis
      using resolveCallback_conn [OF other] finish_resolve(2) [OF res en] rf by simp
  next
    case (Connected eps e)
    then show ?thesis using asyncConnectCallback_conn [OF f other] rf by simp
  next
    case (Handshaken e)
    then show ?thesis using handshakeCallback_conn [OF other] rf by simp
  next
    case (Header_Written e)
    then show ?thesis using headerWrittenCallback_conn [OF f other] rf by simp
  next
    case (Read l b)
    with read_event_conn [OF item inv] en r show ?thesis by simp
  next
    case (Written w p e)
    with written_event_conn [OF item inv] en r show ?thesis by simp
  next
    case (Read_Timer l t e)
    then show ?thesis
      using rf restart_loops_conn(1) [OF f other] current(1) [of "Read_Deadline l t" l] other
      by (simp add: readDeadlineHandler_def split: if_splits)
  next
    case (Write_Timer w t e)
    then show ?thesis
      using rf restart_loops_conn(2) [OF f other] current(2) [of "Write_Deadline w t" w] other
      by (simp add: writeDeadlineHandler_def split: if_splits)
  qed
qed

lemma reachable_conn: "reachable L u conf s \<Longrightarrow> conn_inv s"
proof (induction rule: reachable.induct)
  case started
  show ?case
    by (simp add: start_def startResolveHost_def VstConnection_new_def conn_inv_def loop_inv_def
        resolve_inv_def io_loops_def map_filter_def)
next
  case (steps s s')
  then show ?case by (auto elim!: stepE intro: handle_conn reachable_item)
qed

end
