(* ===== verification/VstStream.thy ===== *)
theory VstStream
  imports VstLoops
begin

text \<open>
  Receiving a byte stream: the chunks are found whatever the pieces in which the bytes arrive, and
  the chunks of a response, in whatever order the server sends them, end in one call of the
  callback of its request with the response.
\<close>

section \<open>Pieces of the stream\<close>

lemma rd_append:
  "4 \<le> length a \<Longrightarrow> rd32 (a @ b) = rd32 a"
  "8 \<le> length a \<Longrightarrow> rd64 (a @ b) = rd64 a"
  by (simp_all add: rd32_def rd64_def)

lemma isChunkComplete_append: "isChunkComplete a \<noteq> 0 \<Longrightarrow> isChunkComplete (a @ b) = isChunkComplete a"
  by (auto simp: isChunkComplete_def Let_def rd_append split: if_splits)

lemma isChunkComplete_le: "isChunkComplete a \<le> length a"
  by (simp add: isChunkComplete_def Let_def)

text \<open>A chunk header that was read from more bytes: its data may refer to more memory.\<close>

definition longer :: "byte list \<Rightarrow> ChunkHeader \<Rightarrow> ChunkHeader" where
  "longer b c = c\<lparr>ch_data := (ch_data c)\<lparr>cb_mem := cb_mem (ch_data c) @ b\<rparr>\<rparr>"

lemma mem_append:
  "mem32 a k = Inr w \<Longrightarrow> mem32 (a @ b) k = Inr w \<and> k + 4 \<le> length a"
  "mem64 a k = Inr x \<Longrightarrow> mem64 (a @ b) k = Inr x \<and> k + 8 \<le> length a"
  by (auto simp: mem32_def mem64_def rd_append split: if_splits)

lemma readChunkHeader_append:
  assumes "readChunkHeader v u a = Inr c"
  shows "readChunkHeader v u (a @ b) = Inr (longer b c)"
proof (cases v)
  case VST1_0
  obtain len x mid where m: "mem32 a 0 = Inr len" "mem32 a 4 = Inr x" "mem64 a 8 = Inr mid"
    using assms VST1_0 by (auto simp: readChunkHeaderVST1_0_def)
  note m' = m(1,2) [THEN mem_append(1), of b] m(3) [THEN mem_append(2), of b]
  show ?thesis
  proof (cases "x AND 1 = 1 \<and> 1 < drop_bit 1 x")
    case True
    then obtain mlen where n: "mem64 a 16 = Inr mlen"
      using assms VST1_0 m by (auto simp: readChunkHeaderVST1_0_def Let_def)
    show ?thesis
      using assms VST1_0 True m m' n n [THEN mem_append(2), of b]
      by (auto simp: readChunkHeaderVST1_0_def longer_def header_size_defs Let_def)
  next
    case False
    with assms VST1_0 m m' show ?thesis
      by (auto simp: readChunkHeaderVST1_0_def longer_def header_size_defs Let_def)
  qed
next
  case VST1_1
  then obtain len x mid mlen where m: "mem32 a 0 = Inr len" "mem32 a 4 = Inr x" "mem64 a 8 = Inr mid"
    "mem64 a 16 = Inr mlen"
    using assms by (auto simp: readChunkHeaderVST1_1_def)
  note m' = m(1,2) [THEN mem_append(1), of b] m(3,4) [THEN mem_append(2), of b]
  show ?thesis
    using assms VST1_1 m m' by (auto simp: readChunkHeaderVST1_1_def longer_def header_size_defs)
qed

lemma addChunk_longer: "addChunk c item = Inr item' \<Longrightarrow> addChunk (longer b c) item = Inr item'"
  by (auto simp: addChunk_def longer_def buffer_bytes_def Let_def isFirst_def numberOfChunks_def split: if_splits)

lemma processChunk_longer: "processChunk L c s = Inr s' \<Longrightarrow> processChunk L (longer b c) s = Inr s'"
  by (auto simp: processChunk_def longer_def dest: addChunk_longer [of c _ _ b, unfolded longer_def] split: option.splits)

lemma read_chunks_append:
  "read_chunks L u a s = Inr (rest, s') \<Longrightarrow> read_chunks L u (a @ b) s = read_chunks L u (rest @ b) s'"
proof (induction L u a s rule: read_chunks.induct)
  case (1 L u a s)
  show ?case
  proof (cases "isChunkComplete a = 0")
    case True
    with 1 show ?thesis by (simp add: read_chunks.simps [of L u a])
  next
    case False
    then obtain c t where c: "readChunkHeader (vc_vstVersion s) u a = Inr c" "processChunk L c s = Inr t"
      and t: "read_chunks L u (drop (unat (ch_chunkLength c)) a) t = Inr (rest, s')"
      using "1.prems" by (auto simp: read_chunks.simps [of L u a])
    have len: "unat (ch_chunkLength c) \<le> length a"
      using readChunkHeader_length [OF c(1) False] isChunkComplete_le [of a] by simp
    have "read_chunks L u (a @ b) s =
        read_chunks L u (drop (unat (ch_chunkLength c)) (a @ b)) t"
      using False readChunkHeader_append [OF c(1), of b] processChunk_longer [OF c(2), of b]
      by (simp add: read_chunks.simps [of L u "a @ b"] isChunkComplete_append longer_def)
    also have "\<dots> = read_chunks L u (rest @ b) s'"
      using "1.IH" [OF False c t] len by simp
    finally show ?thesis .
  qed
qed

text \<open>The loop stops only where no complete chunk is left.\<close>

lemma read_chunks_rest: "read_chunks L u a s = Inr (rest, s') \<Longrightarrow> isChunkComplete rest = 0"
proof (induction L u a s rule: read_chunks.induct)
  case (1 L u a s)
  show ?case
  proof (cases "isChunkComplete a = 0")
    case True
    with 1 show ?thesis by (simp add: read_chunks.simps [of L u a])
  next
    case False
    with 1 show ?thesis by (auto simp: read_chunks.simps [of L u a])
  qed
qed

section \<open>A response\<close>

lemma processChunk_known:
  assumes "findByID (ch_messageID c) (vc_messageStore s) = Some p" and "addChunk c (vc_items s ! p) = Inr it"
  shows "assemble it = Inr (it', None) \<Longrightarrow> processChunk L c s = Inr (set_item p it' s)"
    and processChunk_complete: "assemble it = Inr (it', Some buf) \<Longrightarrow>
      processChunk L c s = bind_res (createResponse L it' buf) (\<lambda>resp. invoke_item (Some resp) 0 p
        ((set_item p it' s)\<lparr>vc_messageStore := removeByID (ri_messageID it') (vc_messageStore s)\<rparr>))"
  using assms by (simp_all add: processChunk_def Let_def set_item_def)

lemma announced_key:
  "announced rs = (let fs = filter (\<lambda>x. x AND 1 = 1) (map ch_chunkX rs)
     in if fs = [] then 0 else unat (drop_bit 1 (last fs)))"
proof -
  have f: "filter (\<lambda>x. x AND 1 = 1) (map ch_chunkX rs) = map ch_chunkX (filter isFirst rs)"
    by (simp add: filter_map comp_def isFirst_def [abs_def])
  have "isFirst (last (filter isFirst rs))" if "filter isFirst rs \<noteq> []"
    using last_in_set [OF that] by simp
  then show ?thesis
    by (auto simp: announced_def f Let_def last_map numberOfChunks_def isFirst_def)
qed

lemma received_key:
  assumes "map chunk_key rs = map chunk_key rs'"
  shows "received item rs \<longleftrightarrow> received item rs'"
proof -
  have len: "length rs = length rs'" using assms by (rule map_eq_imp_length_eq)
  have nth: "ch_chunkX (rs ! i) = ch_chunkX (rs' ! i) \<and> chunk_data (rs ! i) = chunk_data (rs' ! i)"
    if "i < length rs'" for i
    using arg_cong [OF assms, of "\<lambda>xs. xs ! i"] that len by (simp add: chunk_key_def)
  then have "map ch_chunkX rs = map ch_chunkX rs'"
    using len by (intro nth_equalityI) simp_all
  then have "announced rs = announced rs'" by (simp add: announced_key)
  with len nth show ?thesis by (auto simp: received_def list_all2_conv_all_nth)
qed

lemma read_back_key:
  "data_ok c \<Longrightarrow> chunk_key (read_back v u c tail) = chunk_key c \<and> data_ok (read_back v u c tail) \<and>
     ch_messageID (read_back v u c tail) = ch_messageID c"
  by (simp add: read_back_def chunk_key_def)

lemma read_chunks_wire:
  assumes "data_ok c" and "length (wire_chunk v c) < 2 ^ 32" and v: "vc_vstVersion s = v"
  shows "read_chunks L u (wire_chunk v c @ tail) s =
    bind_res (processChunk L (read_back v u c tail) s) (read_chunks L u tail)"
proof -
  have pos: "length (wire_chunk v c) \<noteq> 0"
    using wire_chunk_prefix [of v c] by (auto simp: le32_def)
  have "unat (ch_chunkLength (read_back v u c tail)) = length (wire_chunk v c)"
    using assms(2) by (simp add: read_back_def unat_of_nat_u32)
  then show ?thesis
    using pos assms
    by (simp add: read_chunks.simps [of L u "wire_chunk v c @ tail"] isChunkComplete_wire readChunkHeader_wire)
qed

definition response_of :: "velocypack \<Rightarrow> MessageID \<Rightarrow> VBuffer \<Rightarrow> Response res" where
  "response_of L mid data =
     bind_res (validateAndExtractMessageHeader L 1 data) (\<lambda>(h, n).
     Inr (setPayload data n ((Response_new h [])\<lparr>s_messageID := mid\<rparr>)))"

lemma createResponse_eq: "createResponse L item data = response_of L (ri_messageID item) data"
  by (simp add: createResponse_def response_of_def)

text \<open>One chunk of a response arrives: the item keeps it and its identity.\<close>

lemma read_one:
  assumes inv: "item_inv s" and found: "findByID mid (vc_messageStore s) = Some p"
    and rc: "received (vc_items s ! p) rs" and c: "data_ok c"
  obtains it where "addChunk (read_back v u c tail) (vc_items s ! p) = Inr it" and "received it (rs @ [c])"
    and "item_inv (set_item p (it\<lparr>ri_responseChunks := sort_key index (ri_responseChunks it)\<rparr>) s)"
    and "item_inv (set_item p it s)" and "ri_request it = ri_request (vc_items s ! p)" and "ri_callback it = ri_callback (vc_items s ! p)"
    and "ri_messageID it = mid"
proof -
  let ?item = "vc_items s ! p"
  note rb = read_back_key [OF c, of v u tail]
  obtain it where it: "addChunk (read_back v u c tail) ?item = Inr it" "received it (rs @ [read_back v u c tail])"
    and f: "ri_request it = ri_request ?item" "ri_callback it = ri_callback ?item"
      "ri_messageID it = ri_messageID ?item"
    using addChunk_received [OF rc] rb by blast
  have "received it (rs @ [c])"
    using it(2) received_key [of "rs @ [c]" "rs @ [read_back v u c tail]" it] rb by simp
  moreover have "ri_requestBuffers it = ri_requestBuffers ?item" using addChunk_fields [OF it(1)] by simp
  then have "item_inv (set_item p (it\<lparr>ri_responseChunks := ks\<rparr>) s)" and "item_inv (set_item p it s)" for ks
    using f by (simp_all add: set_item_inv [OF inv])
  ultimately show thesis using that [OF it(1)] f found_item(2) [OF inv found] by blast
qed

lemma read_more:
  assumes mc: "message_chunks mid cs data" and perm: "mset (map chunk_key (rs1 @ c # rs2)) = mset (map chunk_key cs)"
    and more: "rs2 \<noteq> []" and inv: "item_inv s" and found: "findByID mid (vc_messageStore s) = Some p"
    and rc: "received (vc_items s ! p) rs1" and c: "data_ok c" "ch_messageID c = mid"
  obtains it where "processChunk L (read_back v u c tail) s = Inr (set_item p it s)"
    and "item_inv (set_item p it s)" and "received it (rs1 @ [c])"
    and "ri_request it = ri_request (vc_items s ! p)" and "ri_callback it = ri_callback (vc_items s ! p)"
proof -
  obtain it where it: "addChunk (read_back v u c tail) (vc_items s ! p) = Inr it" "received it (rs1 @ [c])"
    "item_inv (set_item p it s)" "ri_request it = ri_request (vc_items s ! p)" "ri_callback it = ri_callback (vc_items s ! p)"
    by (rule read_one [OF inv found rc c(1), of v u tail])
  have "take (length (rs1 @ [c])) (rs1 @ c # rs2) = rs1 @ [c]" by simp
  then have asm: "assemble it = Inr (it, None)"
    using assemble_incomplete [OF mc perm, of "length (rs1 @ [c])" it] it(2) more by simp
  have "findByID (ch_messageID (read_back v u c tail)) (vc_messageStore s) = Some p"
    using found c(2) read_back_key [OF c(1), of v u tail] by simp
  from processChunk_known(1) [OF this it(1) asm] show thesis using that it by blast
qed

lemma read_last:
  assumes mc: "message_chunks mid cs data" and perm: "mset (map chunk_key (rs @ [c])) = mset (map chunk_key cs)"
    and inv: "item_inv s" and found: "findByID mid (vc_messageStore s) = Some p"
    and rc: "received (vc_items s ! p) rs" and c: "data_ok c" "ch_messageID c = mid"
  obtains t where "processChunk L (read_back v u c tail) s =
      bind_res (response_of L mid data) (\<lambda>response. invoke_item (Some response) 0 p t)"
    and "pool_inv (add_mset p (waiting t)) t" and "id_inv t" and "store_inv t" and "send_inv t"
    and "findByID mid (vc_messageStore t) = None" and "vc_vstVersion t = vc_vstVersion s"
    and "vc_delivered t = vc_delivered s" and "ri_callback (vc_items t ! p) = ri_callback (vc_items s ! p)"
    and "ri_request (vc_items t ! p) = ri_request (vc_items s ! p)"
proof -
  obtain it where it: "addChunk (read_back v u c tail) (vc_items s ! p) = Inr it" "received it (rs @ [c])"
    "item_inv (set_item p (it\<lparr>ri_responseChunks := sort_key index (ri_responseChunks it)\<rparr>) s)"
    "ri_request it = ri_request (vc_items s ! p)" "ri_callback it = ri_callback (vc_items s ! p)" "ri_messageID it = mid"
    by (rule read_one [OF inv found rc c(1), of v u tail])
  let ?t = "set_item p (it\<lparr>ri_responseChunks := sort_key index (ri_responseChunks it)\<rparr>) s"
  let ?v = "?t\<lparr>vc_messageStore := removeByID mid (vc_messageStore ?t)\<rparr>"
  have fnd: "findByID (ch_messageID (read_back v u c tail)) (vc_messageStore s) = Some p"
    using found c(2) read_back_key [OF c(1), of v u tail] by simp
  have "processChunk L (read_back v u c tail) s =
      bind_res (response_of L mid data) (\<lambda>response. invoke_item (Some response) 0 p ?v)"
    using processChunk_complete [OF fnd it(1) assemble_received [OF mc perm it(2)]] it(6)
    by (simp only: createResponse_eq RequestItem.simps) (simp add: set_item_def)
  moreover have "map_inv (vc_messageStore s)" using inv by (simp add: item_inv_def store_inv_def)
  then have "findByID mid (vc_messageStore ?v) = None"
    using store.remove_find [of "vc_messageStore s" mid] by (simp add: set_item_def fun_eq_iff)
  moreover have "findByID mid (vc_messageStore ?t) = Some p" using found by (simp add: set_item_def)
  note removeByID_item [OF it(3) this]
  ultimately show thesis
    using that [of ?v] it(4,5) found_item(1) [OF inv found] by (simp add: set_item_def)
qed

text \<open>
  Up to the point where the response is decoded: the item is out of the store and in the hand of the
  reader, with its callback and request.
\<close>

lemma read_message:
  assumes mc: "message_chunks mid cs data"
    and ok: "\<forall>c \<in> set (rs1 @ rs2). data_ok c \<and> length (wire_chunk v c) < 2 ^ 32 \<and> ch_messageID c = mid"
    and perm: "mset (map chunk_key (rs1 @ rs2)) = mset (map chunk_key cs)" and "rs2 \<noteq> []"
    and inv: "item_inv s" and v: "vc_vstVersion s = v"
    and found: "findByID mid (vc_messageStore s) = Some p" and rc: "received (vc_items s ! p) rs1"
  shows "\<exists>t. read_chunks L u (concat (map (wire_chunk v) rs2) @ tail) s =
      bind_res (response_of L mid data) (\<lambda>response.
      bind_res (invoke_item (Some response) 0 p t) (read_chunks L u tail)) \<and>
    pool_inv (add_mset p (waiting t)) t \<and> id_inv t \<and> store_inv t \<and> send_inv t \<and>
    findByID mid (vc_messageStore t) = None \<and> vc_vstVersion t = v \<and> vc_delivered t = vc_delivered s \<and>
    ri_callback (vc_items t ! p) = ri_callback (vc_items s ! p) \<and> ri_request (vc_items t ! p) = ri_request (vc_items s ! p)"
  using ok perm \<open>rs2 \<noteq> []\<close> inv v found rc
proof (induction rs2 arbitrary: s rs1)
  case (Cons c rs2)
  let ?tail = "concat (map (wire_chunk v) rs2) @ tail"
  have c: "data_ok c" "length (wire_chunk v c) < 2 ^ 32" "ch_messageID c = mid"
    using Cons.prems(1) by auto
  have step: "read_chunks L u (concat (map (wire_chunk v) (c # rs2)) @ tail) s =
      bind_res (processChunk L (read_back v u c ?tail) s) (read_chunks L u ?tail)"
    using read_chunks_wire [OF c(1,2) Cons.prems(5), of L u ?tail] by simp
  show ?case
  proof (cases "rs2 = []")
    case False
    obtain it where it: "processChunk L (read_back v u c ?tail) s = Inr (set_item p it s)" "item_inv (set_item p it s)"
      "received it (rs1 @ [c])" "ri_request it = ri_request (vc_items s ! p)" "ri_callback it = ri_callback (vc_items s ! p)"
      by (rule read_more [OF mc Cons.prems(2) False Cons.prems(4,6,7) c(1,3)])
    with Cons.IH [of "rs1 @ [c]" "set_item p it s"] Cons.prems False step found_item(1) [OF Cons.prems(4,6)]
    show ?thesis by (simp add: set_item_def)
  next
    case True
    from Cons.prems(2) True have "mset (map chunk_key (rs1 @ [c])) = mset (map chunk_key cs)" by simp
    then obtain t where t: "processChunk L (read_back v u c ?tail) s =
        bind_res (response_of L mid data) (\<lambda>response. invoke_item (Some response) 0 p t)"
      "pool_inv (add_mset p (waiting t)) t" "id_inv t" "store_inv t" "send_inv t"
      "findByID mid (vc_messageStore t) = None" "vc_vstVersion t = vc_vstVersion s"
      "vc_delivered t = vc_delivered s" "ri_callback (vc_items t ! p) = ri_callback (vc_items s ! p)"
      "ri_request (vc_items t ! p) = ri_request (vc_items s ! p)"
      by (rule read_last [OF mc _ Cons.prems(4,6,7) c(1,3), of L v u ?tail])
    with step True Cons.prems(5) show ?thesis by (intro exI [of _ t]) (simp add: bind_res_assoc)
  qed
qed simp

lemma read_response:
  assumes mc: "message_chunks mid cs data" and resp: "response_of L mid data = Inr response"
    and ok: "\<forall>c \<in> set (rs1 @ rs2). data_ok c \<and> length (wire_chunk v c) < 2 ^ 32 \<and> ch_messageID c = mid"
    and perm: "mset (map chunk_key (rs1 @ rs2)) = mset (map chunk_key cs)" and "rs2 \<noteq> []"
    and inv: "item_inv s" and v: "vc_vstVersion s = v"
    and found: "findByID mid (vc_messageStore s) = Some p" and rc: "received (vc_items s ! p) rs1"
  shows "\<exists>s'. read_chunks L u (concat (map (wire_chunk v) rs2) @ tail) s = read_chunks L u tail s' \<and>
    item_inv s' \<and> findByID mid (vc_messageStore s') = None \<and> vc_vstVersion s' = v \<and>
    vc_delivered s' = vc_delivered s @ [\<lparr>d_item = p,
       d_callback = the (co_cb (ri_callback (vc_items s ! p))), d_error = 0,
       d_request = ri_request (vc_items s ! p), d_response = Some response\<rparr>]"
proof -
  obtain t where t: "read_chunks L u (concat (map (wire_chunk v) rs2) @ tail) s =
      bind_res (invoke_item (Some response) 0 p t) (read_chunks L u tail)"
    and held: "pool_inv (add_mset p (waiting t)) t" "id_inv t" "store_inv t" "send_inv t"
    and f: "findByID mid (vc_messageStore t) = None" "vc_vstVersion t = v" "vc_delivered t = vc_delivered s"
      "ri_callback (vc_items t ! p) = ri_callback (vc_items s ! p)" "ri_request (vc_items t ! p) = ri_request (vc_items s ! p)"
    using read_message [OF mc ok perm \<open>rs2 \<noteq> []\<close> inv v found rc, of L u tail] resp by auto
  obtain s' where s': "invoke_item (Some response) 0 p t = Inr s'" "item_inv s'" "item_frame t s'"
    "vc_delivered s' = vc_delivered t @ [\<lparr>d_item = p,
         d_callback = the (co_cb (ri_callback (vc_items t ! p))), d_error = 0,
         d_request = ri_request (vc_items t ! p), d_response = Some response\<rparr>]"
    by (rule item_inv_invoked [OF held])
  then show ?thesis
    using t f by (intro exI [of _ s']) (simp add: item_frame_fields [OF s'(3)])
qed

text \<open>A response that cannot be decoded ends the reading with the exception.\<close>

lemma read_bad_response:
  assumes "message_chunks mid cs data" and bad: "response_of L mid data = Inl e"
    and "\<forall>c \<in> set (rs1 @ rs2). data_ok c \<and> length (wire_chunk v c) < 2 ^ 32 \<and> ch_messageID c = mid"
    and "mset (map chunk_key (rs1 @ rs2)) = mset (map chunk_key cs)" and "rs2 \<noteq> []"
    and "item_inv s" and "vc_vstVersion s = v"
    and "findByID mid (vc_messageStore s) = Some p" and "received (vc_items s ! p) rs1"
  shows "read_chunks L u (concat (map (wire_chunk v) rs2) @ tail) s = Inl e"
  using read_message [OF assms(1,3-), of L u tail] bad by auto

end
