(* ===== verification/VstProperties.thy ===== *)
theory VstProperties
  imports VstStream
begin

text \<open>
  The properties of the VST connection, over the states that \<open>reachable\<close> describes, and concrete
  runs of the machine: a run is a list of events, each of which is enabled when it happens.
\<close>

section \<open>Runs\<close>

fun run ::
  "velocypack \<Rightarrow> ChunkHeader \<Rightarrow> 'u event list \<Rightarrow> 'u VstConnection \<Rightarrow> 'u VstConnection res"
where
  "run L u [] s = Inr s"
| "run L u (ev # evs) s =
     (if enabled ev s \<and> ids_left s then bind_res (handle L u ev s) (run L u evs)
      else Inl (Logic_error ''not enabled''))"

lemma run_reachable: "reachable L u conf s \<Longrightarrow> run L u evs s = Inr s' \<Longrightarrow> reachable L u conf s'"
  by (induction L u evs s rule: run.induct) (auto split: if_splits intro: reachable.steps [OF _ step.step])

lemma run_append: "run L u (evs @ evs') s = bind_res (run L u evs s) (run L u evs')"
  by (induction L u evs s rule: run.induct) (auto simp: bind_res_def split: sum.splits)

text \<open>A plain TCP connection, and the item that it makes of the example request.\<close>

definition sample_conf :: ConnectionConfiguration where
  "sample_conf = ConnectionConfiguration_default\<lparr>c_ssl := False\<rparr>"

definition sample_start :: "nat VstConnection" where
  "sample_start = start (VstConnection_new sample_conf)"

definition sample_run :: "nat event list \<Rightarrow> nat VstConnection res" where
  "sample_run evs = run sized_vpack sample_chunk evs sample_start"

lemma sample_run_reachable: "sample_run evs = Inr s \<Longrightarrow> reachable sized_vpack sample_chunk sample_conf s"
  unfolding sample_run_def sample_start_def by (rule run_reachable [OF reachable.started])

lemma sample_header:
  "createVstMessageHeader sized_vpack (network_header (r_header (sample_request\<lparr>r_messageID := i\<rparr>))) = Inr [2, 11]"
  by (simp add: sample_request_def Request_new_def Message_header_def createVstMessageHeader_def
      createVstMessageHeader_calls_def network_header_def MessageHeader_new_def string_map_calls_def
      addMeta_def)

lemma sample_slices:
  "Request_slices sized_vpack (sample_request\<lparr>r_messageID := i\<rparr>) = Inr ([], sample_request\<lparr>r_messageID := i\<rparr>)"
  by (simp add: sample_request_def Request_new_def Request_slices_def)

definition sample_item :: "u64 \<Rightarrow> nat Callback \<Rightarrow> nat Callback RequestItem" where
  "sample_item i cb = RequestItem_new\<lparr>ri_messageID := i, ri_callback := CallOnce_assign cb CallOnce_new,
     ri_request := Some (sample_request\<lparr>r_messageID := i\<rparr>)\<rparr>"

definition sample_prepared :: "u64 \<Rightarrow> nat Callback \<Rightarrow> nat Callback RequestItem" where
  "sample_prepared i cb = projr (prepareForNetwork sized_vpack sample_chunk VST1_0 (sample_item i cb))"

lemma sample_prepared:
  shows "prepareForNetwork sized_vpack sample_chunk VST1_0 (sample_item i cb) = Inr (sample_prepared i cb)"
    and "\<exists>bytes. wire_bytes (sample_prepared i cb) = Inr bytes"
    and "ri_requestBuffers (sample_prepared i cb) \<noteq> []"
    and "ri_messageID (sample_prepared i cb) = i"
    and "ri_callback (sample_prepared i cb) = CallOnce_assign cb CallOnce_new"
    and "\<exists>r. ri_request (sample_prepared i cb) = Some r \<and> r_timeout r = 30000"
    and "ri_responseChunks (sample_prepared i cb) = []"
    and "ri_responseNumberOfChunks (sample_prepared i cb) = 0"
proof -
  note spec = prepareForNetwork_spec [OF sized_vpack_ok _ sample_header sample_slices,
      of "sample_item i cb" i sample_chunk VST1_0]
  obtain item' where p: "prepareForNetwork sized_vpack sample_chunk VST1_0 (sample_item i cb) = Inr item'"
    and w: "\<exists>bytes. wire_bytes item' = Inr bytes"
    and item': "item' = (sample_item i cb)\<lparr>ri_request := Some ((sample_request\<lparr>r_messageID := i\<rparr>)
        \<lparr>r_header := network_header (r_header (sample_request\<lparr>r_messageID := i\<rparr>))\<rparr>), ri_msgHdr := [2, 11],
        ri_requestChunkBuffer := ri_requestChunkBuffer item', ri_requestBuffers := ri_requestBuffers item'\<rparr>"
    using spec by (auto simp: sample_item_def RequestItem_new_def)
  have e: "sample_prepared i cb = item'" by (simp add: sample_prepared_def p)
  show "prepareForNetwork sized_vpack sample_chunk VST1_0 (sample_item i cb) = Inr (sample_prepared i cb)"
    using p e by simp
  show "\<exists>bytes. wire_bytes (sample_prepared i cb) = Inr bytes" using w e by simp
  show "ri_requestBuffers (sample_prepared i cb) \<noteq> []" "ri_messageID (sample_prepared i cb) = i"
    "ri_callback (sample_prepared i cb) = CallOnce_assign cb CallOnce_new"
    using prepareForNetwork_fields [OF p] e by (simp_all add: sample_item_def RequestItem_new_def)
  have "ri_request item' = Some ((sample_request\<lparr>r_messageID := i\<rparr>)
        \<lparr>r_header := network_header (r_header (sample_request\<lparr>r_messageID := i\<rparr>))\<rparr>)"
    "ri_responseChunks item' = []" "ri_responseNumberOfChunks item' = 0"
    by (subst item', simp add: sample_item_def RequestItem_new_def)+
  then show "\<exists>r. ri_request (sample_prepared i cb) = Some r \<and> r_timeout r = 30000"
    "ri_responseChunks (sample_prepared i cb) = []" "ri_responseNumberOfChunks (sample_prepared i cb) = 0"
    using e by (simp_all add: sample_request_def Request_new_def Request_defaultTimeout_def)
qed

lemma sample_create:
  "vc_vstVersion s = VST1_0 \<Longrightarrow>
   createRequestItem sized_vpack sample_chunk sample_request cb s =
     (s\<lparr>vc_messageID := vc_messageID s + 1,
        vc_items := vc_items s @ [sample_prepared (vc_messageID s + 1) cb]\<rparr>, Inr (length (vc_items s)))"
  using sample_prepared(1) [of "vc_messageID s + 1" cb]
  by (simp add: createRequestItem_def Let_def sample_item_def RequestItem_new_def)

lemmas sample_defs = sample_run_def sample_start_def sample_conf_def ConnectionConfiguration_default_def
  start_def startResolveHost_def pend_def VstConnection_new_def handle_def finish_def enabled_def ids_left_def

text \<open>The state after the connection is established, and after a first request was handed to it.\<close>

definition sample_idle :: "nat VstConnection" where
  "sample_idle =
     \<lparr>vc_configuration = sample_conf, vc_vstVersion = VST1_0, vc_messageID = 0, vc_socket = Some 0,
      vc_sslSocket = Some 0, vc_endpoints = [''e''], vc_permanent_failure = False, vc_async_calls = 0,
      vc_connected = True, vc_readLoop = None, vc_writeLoop = None, vc_sendQueue = [],
      vc_messageStore = [], vc_items = [],
      vc_readLoops = [\<lparr>rl_socket = Some 0, rl_receiveBuffer = [], rl_started = True\<rparr>],
      vc_writeLoops = [\<lparr>wl_socket = Some 0, wl_started = True\<rparr>], vc_sockets = 1, vc_pending = [],
      vc_delivered = [], vc_failures = [], vc_sent = [(0, string_bytes (c_str vstHeader1_0))]\<rparr>"

lemma sample_connected:
  "sample_run [Resolved None [''e''], Connected [''e''] None, Header_Written None] = Inr sample_idle"
  by (simp add: sample_idle_def sample_defs resolveCallback_def initSocket_def check_def startConnect_def
      asyncConnectCallback_def finishInitialization_def headerWrittenCallback_def
      insertAuthenticationRequests_def startWriting_def WriteLoop_start_def sendNextRequest_def
      getNextRequestToSend_def queue_front_def startReading_def ReadLoop_start_def readNextBytes_def
      shouldStopReading_def store_empty_def queue_empty_def)


definition sample_busy :: "nat VstConnection" where
  "sample_busy =
     (let item = sample_prepared 1 (User_Callback 7)
      in sample_idle\<lparr>vc_messageID := 1, vc_async_calls := 2, vc_readLoop := Some 1, vc_writeLoop := Some 1,
           vc_messageStore := [(1, 0)], vc_items := [item],
           vc_readLoops := vc_readLoops sample_idle @ [\<lparr>rl_socket = Some 0, rl_receiveBuffer = [], rl_started = True\<rparr>],
           vc_writeLoops := vc_writeLoops sample_idle @ [\<lparr>wl_socket = Some 0, wl_started = True\<rparr>],
           vc_pending := [Read_Deadline 1 30000, Reading 1, Write_Deadline 1 30000, Writing 1 0],
           vc_sent := vc_sent sample_idle @ [(0, projr (wire_bytes item))]\<rparr>)"

lemma sample_send: "handle sized_vpack sample_chunk (Send sample_request 7) sample_idle = Inr sample_busy"
proof -
  let ?item = "sample_prepared 1 (User_Callback 7)"
  obtain bytes where "wire_bytes ?item = Inr bytes" using sample_prepared(2) by blast
  moreover obtain r where "ri_request ?item = Some r" "r_timeout r = 30000" using sample_prepared(6) by blast
  ultimately show ?thesis
    using sample_prepared(3-5) [of 1 "User_Callback 7"]
    by (simp add: handle_def finish_def sample_busy_def sample_idle_def sendRequest_def sample_create queue_add_def
      startWriting_def WriteLoop_start_def sendNextRequest_def
      getNextRequestToSend_def queue_front_def startReading_def ReadLoop_start_def readNextBytes_def
      shouldStopReading_def store_empty_def queue_empty_def removeFirst_def store_add_def minimumTimeout_def
      item_timeout_def check_def pend_def)
qed


lemma sample_busy_fields [simp]:
  "vc_items sample_busy = [sample_prepared 1 (User_Callback 7)]" "vc_messageStore sample_busy = [(1, 0)]"
  "vc_sendQueue sample_busy = []" "vc_delivered sample_busy = []" "vc_messageID sample_busy = 1"
  "vc_pending sample_busy = [Read_Deadline 1 30000, Reading 1, Write_Deadline 1 30000, Writing 1 0]"
  "vc_readLoop sample_busy = Some 1" "vc_writeLoop sample_busy = Some 1" "vc_connected sample_busy"
  "vc_socket sample_busy = Some 0" "vc_permanent_failure sample_busy = False"
  "vc_vstVersion sample_busy = VST1_0" "vc_async_calls sample_busy = 2"
  by (simp_all add: sample_busy_def sample_idle_def Let_def)

lemma sample_idle_reachable: "reachable sized_vpack sample_chunk sample_conf sample_idle"
  by (rule sample_run_reachable [OF sample_connected])

lemma sample_busy_reachable: "reachable sized_vpack sample_chunk sample_conf sample_busy"
  by (rule reachable.steps [OF sample_idle_reachable step.step [OF _ _ sample_send]])
    (simp_all add: enabled_def ids_left_def sample_idle_def)

section \<open>Invariants of the reachable states\<close>

text \<open>
  C1: no request is lost and no callback is called twice. In every reachable state, every request
  item ever created is in exactly one place: waiting in the send queue, in flight in the message
  store, or delivered to its callback. \<open>requestsLeft\<close> counts exactly those that are not delivered,
  and an item's call-once flag is set exactly when it is delivered.
\<close>

theorem requests_accounted:
  assumes "reachable L u conf s"
  shows "mset (vc_sendQueue s) + mset (map snd (vc_messageStore s)) + mset (map d_item (vc_delivered s)) =
      mset [0..<length (vc_items s)] \<and>
    requestsLeft s + length (vc_delivered s) = length (vc_items s) \<and>
    distinct (map d_item (vc_delivered s)) \<and>
    (\<forall>p < length (vc_items s). co_invoked (ri_callback (vc_items s ! p)) \<longleftrightarrow> p \<in> d_item ` set (vc_delivered s))"
proof -
  have inv: "pool_inv (waiting s) s" using reachable_item [OF assms] by (simp add: item_inv_def)
  then have eq: "waiting s + mset (map d_item (vc_delivered s)) = mset [0..<length (vc_items s)]"
    by (simp add: pool_inv_def)
  have "requestsLeft s + length (vc_delivered s) = length (vc_items s)"
    using arg_cong [OF eq, of size] by (simp add: waiting_def requestsLeft_def queue_size_def store_size_def)
  moreover have "mset (vc_sendQueue s @ map snd (vc_messageStore s) @ map d_item (vc_delivered s)) =
      mset [0..<length (vc_items s)]"
    using eq by (simp add: waiting_def add.assoc)
  then have "distinct (map d_item (vc_delivered s))"
    using mset_eq_imp_distinct_iff by fastforce
  ultimately show ?thesis
    using eq inv by (simp add: waiting_def pool_inv_def)
qed

theorem requests_accounted_witness:
  "requestsLeft sample_busy + length (vc_delivered sample_busy) = 1 \<and> vc_messageStore sample_busy = [(1, 0)]"
  using requests_accounted [OF sample_busy_reachable] by simp

text \<open>
  C15: message ids. In every reachable state no two request items have the same message id, ids do
  not exceed the counter, every entry of the message store is filed under the id of its item and
  its item still has its request, and a response can therefore be matched to at most one request.
\<close>

theorem message_ids_unique:
  assumes "reachable L u conf s"
  shows "distinct (map ri_messageID (vc_items s)) \<and> list_all (\<lambda>it. ri_messageID it \<le> vc_messageID s) (vc_items s) \<and>
    distinct (map fst (vc_messageStore s)) \<and>
    list_all (\<lambda>(i, p). p < length (vc_items s) \<and> ri_messageID (vc_items s ! p) = i \<and>
       ri_request (vc_items s ! p) \<noteq> None \<and> findByID i (vc_messageStore s) = Some p) (vc_messageStore s)"
proof -
  have inv: "item_inv s" by (rule reachable_item [OF assms])
  then have m: "map_inv (vc_messageStore s)" by (simp add: item_inv_def store_inv_def)
  have "distinct (map ri_messageID (vc_items s))"
    using inv by (auto simp: item_inv_def id_inv_def distinct_conv_nth inj_on_def)
  moreover have "list_all (\<lambda>it. ri_messageID it \<le> vc_messageID s) (vc_items s)"
    using inv by (simp add: item_inv_def id_inv_def list_all_length)
  moreover have "distinct (map fst (vc_messageStore s))" using m by (rule map_inv_distinct)
  moreover have "p < length (vc_items s) \<and> ri_messageID (vc_items s ! p) = i \<and>
      ri_request (vc_items s ! p) \<noteq> None \<and> findByID i (vc_messageStore s) = Some p"
    if "(i, p) \<in> set (vc_messageStore s)" for i p
  proof -
    have f: "findByID i (vc_messageStore s) = Some p"
      using that inv by (simp add: item_inv_def find_store)
    have "pool_inv (waiting s) s" using inv by (simp add: item_inv_def)
    then show ?thesis using f found_item [OF inv f] pool_inv_memb(4) by blast
  qed
  ultimately show ?thesis by (auto simp: list_all_iff)
qed

theorem message_ids_unique_witness:
  "distinct (map ri_messageID (vc_items sample_busy)) \<and> findByID 1 (vc_messageStore sample_busy) = Some 0"
  using message_ids_unique [OF sample_busy_reachable] by simp

text \<open>
  C16: asynchronous operations. In every reachable state the counter of asynchronous calls is the
  number of reads and writes in flight, no loop has two of them, the SSL socket exists exactly
  when the socket does, and while a host is being resolved there is a single resolve operation
  and no socket.
\<close>

theorem async_calls_counted:
  assumes "reachable L u conf s"
  shows "vc_async_calls s = of_nat (length (io_loops s)) \<and> distinct (io_loops s) \<and>
    vc_sslSocket s = vc_socket s \<and>
    count_list (vc_pending s) Resolving \<le> (if vc_socket s = None then 1 else 0)"
proof -
  have "loop_inv s" "resolve_inv s" using reachable_conn [OF assms] by (simp_all add: conn_inv_def)
  then show ?thesis
    by (cases "Resolving \<in> set (vc_pending s)") (auto simp: loop_inv_def resolve_inv_def count_list_0_iff)
qed

theorem async_calls_counted_witness:
  "vc_async_calls sample_busy = of_nat (length (io_loops sample_busy)) \<and> io_loops sample_busy = [(True, 1), (False, 1)]"
proof -
  have "io_loops sample_busy = [(True, 1), (False, 1)]"
    by (simp add: io_loops_def List.map_filter_simps)
  with async_calls_counted [OF sample_busy_reachable] show ?thesis by simp
qed

section \<open>Failures and timeouts\<close>

lemma check_eq: "check b e = (if b then Inr () else Inl e)"
  by (simp add: check_def)

lemma restartConnection_spec:
  assumes inv: "item_inv s" and "vc_readLoop s = None" and "vc_writeLoop s = None"
  obtains s' ds where "restartConnection e s = Inr s'" and "item_inv s'"
    and "vc_delivered s' = vc_delivered s @ ds" and "map d_item ds = map snd (vc_messageStore s)"
    and "\<forall>d \<in> set ds. d_error d = errorToInt e \<and> d_response d = None"
    and "vc_messageStore s' = []" and "vc_socket s' = None" and "vc_sendQueue s' = vc_sendQueue s"
    and "vc_readLoop s' = None" and "vc_writeLoop s' = None"
    and "\<not> vc_permanent_failure s' \<Longrightarrow> vc_pending s' = vc_pending s @ [Resolving]"
    and "vc_permanent_failure s' \<Longrightarrow> vc_pending s' = vc_pending s"
proof -
  obtain t ds where t: "shutdownConnection e s = Inr t" "item_inv t"
    "item_frame (s\<lparr>vc_sslSocket := None, vc_socket := None, vc_readLoop := None,
           vc_writeLoop := None, vc_messageStore := []\<rparr>) t"
    "vc_delivered t = vc_delivered s @ ds" "map d_item ds = map snd (vc_messageStore s)"
    "\<forall>d \<in> set ds. d_error d = errorToInt e \<and> d_response d = None"
    by (rule shutdownConnection_spec [OF inv])
  have eq: "restartConnection e s = Inr (if vc_permanent_failure t then t else startResolveHost t)"
    using assms(2,3) t(1) by (simp add: restartConnection_def check_def)
  have "item_inv (startResolveHost t)"
    by (rule io_frame_item_inv [OF t(2)]) (simp add: startResolveHost_def pend_def io_frame_def)
  then show ?thesis
    by (intro that [OF eq, of ds])
      (use t in \<open>simp_all add: item_frame_fields [OF t(3)] startResolveHost_def pend_def split: if_splits\<close>)
qed

text \<open>
  C14: timeouts. When the read deadline of a loop expires and the loop is still the current one,
  every request in flight is delivered the error \<open>Timeout\<close>, in the order of the message ids and
  without a response; the message store is then empty, the socket is gone, the requests that were not sent
  yet stay queued, and a new connection attempt is pending, unless the failure is permanent. The
  timer of a loop that was replaced, or one that was cancelled, changes nothing.
\<close>

theorem read_timeout_cancels:
  assumes "reachable L u conf s" and "enabled (Read_Timer r t err) s"
  shows "\<exists>s' ds. handle L u (Read_Timer r t err) s = Inr s' \<and>
    (if \<not> err \<and> vc_readLoop s = Some r
     then vc_delivered s' = vc_delivered s @ ds \<and> map d_item ds = map snd (vc_messageStore s) \<and>
       list_all (\<lambda>d. d_error d = errorToInt Timeout \<and> d_response d = None) ds \<and>
       vc_messageStore s' = [] \<and> vc_socket s' = None \<and> vc_sendQueue s' = vc_sendQueue s \<and>
       (Resolving \<in> set (vc_pending s') \<or> vc_permanent_failure s')
     else s' = s\<lparr>vc_pending := remove1 (Read_Deadline r t) (vc_pending s)\<rparr>)"
proof -
  let ?f = "finish (Read_Timer r t err) s"
  let ?g = "?f\<lparr>vc_readLoop := None, vc_writeLoop := None\<rparr>"
  have f: "finish (Read_Timer r t b) s = s\<lparr>vc_pending := remove1 (Read_Deadline r t) (vc_pending s)\<rparr>" for b
    by (simp add: finish_def)
  have "item_inv ?g"
    by (rule no_loops_item [OF finish_item [OF reachable_item [OF assms(1)]]])
  then obtain s' ds where s': "restartConnection Timeout ?g = Inr s'" "vc_delivered s' = vc_delivered ?g @ ds"
    "map d_item ds = map snd (vc_messageStore ?g)" "\<forall>d \<in> set ds. d_error d = errorToInt Timeout \<and> d_response d = None"
    "vc_messageStore s' = []" "vc_socket s' = None" "vc_sendQueue s' = vc_sendQueue ?g"
    "\<not> vc_permanent_failure s' \<Longrightarrow> vc_pending s' = vc_pending ?g @ [Resolving]"
    by (rule restartConnection_spec [of ?g Timeout]) auto
  show ?thesis
  proof (cases "\<not> err \<and> vc_readLoop s = Some r")
    case True
    then have "handle L u (Read_Timer r t err) s = Inr s'"
      using s'(1) by (simp add: handle_def readDeadlineHandler_def restartConnection_ReadLoop_def f)
    with True s' show ?thesis by (auto simp: f list_all_iff)
  next
    case False
    then have "handle L u (Read_Timer r t err) s = Inr ?f"
      by (auto simp: handle_def readDeadlineHandler_def restartConnection_ReadLoop_def f)
    with False show ?thesis by (simp only: f if_False) blast
  qed
qed

theorem read_timeout_cancels_witness:
  "\<exists>s'. handle sized_vpack sample_chunk (Read_Timer 1 30000 False) sample_busy = Inr s' \<and>
     map d_item (vc_delivered s') = [0] \<and> vc_messageStore s' = []"
  using read_timeout_cancels [OF sample_busy_reachable, of 1 30000 False] by (auto simp: enabled_def)

text \<open>The events that report that something failed, or that time is up.\<close>

fun failure_event :: "'u event \<Rightarrow> bool" where
  "failure_event (Resolved e eps) = True"
| "failure_event (Connected eps e) = (e \<noteq> None)"
| "failure_event (Handshaken e) = (e \<noteq> None)"
| "failure_event (Header_Written e) = (e \<noteq> None)"
| "failure_event (Read r b) = (b = None)"
| "failure_event (Written w p err) = err"
| "failure_event (Read_Timer r t err) = True"
| "failure_event (Write_Timer w t err) = True"
| "failure_event (Send req cb) = False"

lemma restart_loops_total:
  assumes "item_inv s"
  shows "\<exists>s'. restartConnection_ReadLoop r e s = Inr s'" and "\<exists>s'. restartConnection_WriteLoop w e s = Inr s'"
  using restartConnection_spec [OF no_loops_item [OF assms], of e]
  by (simp_all add: restartConnection_ReadLoop_def restartConnection_WriteLoop_def) (metis (no_types))+

lemma resolve_without_socket:
  assumes "reachable L u conf s" and "enabled (Resolved e eps) s"
  shows "vc_socket s = None" and "vc_sslSocket s = None"
proof -
  have "resolve_inv s" "loop_inv s" using reachable_conn [OF assms(1)] by (simp_all add: conn_inv_def)
  with assms(2) show "vc_socket s = None" "vc_sslSocket s = None"
    by (auto simp: enabled_def resolve_inv_def loop_inv_def)
qed

lemma finish_async:
  assumes "reachable L u conf s"
  shows "item_inv ((finish ev s)\<lparr>vc_async_calls := n\<rparr>)"
  by (rule io_frame_item_inv [OF finish_item [OF reachable_item [OF assms], of ev]]) (simp add: io_frame_def)

lemma shutdownConnection_total: "item_inv s \<Longrightarrow> \<exists>t. shutdownConnection e s = Inr t"
  using shutdownConnection_spec by metis

lemma failed_write_total:
  assumes "reachable L u conf s" and "enabled (Written w p True) s"
  shows "\<exists>s'. handle L u (Written w p True) s = Inr s'"
proof -
  let ?f = "finish (Written w p True) s"
  let ?g = "?f\<lparr>vc_async_calls := vc_async_calls ?f - 1\<rparr>"
  have p: "p < length (vc_items ?f)" "p \<notin> set (vc_sendQueue ?f)"
    using assms(2) reachable_item [OF assms(1)]
    by (auto simp: finish_def enabled_def item_inv_def send_inv_def)
  obtain v where "invoke_item None (errorToInt VstWriteError) p
      (?g\<lparr>vc_messageStore := removeByID (ri_messageID (vc_items ?g ! p)) (vc_messageStore ?g)\<rparr>) = Inr v" "item_inv v"
    by (rule fail_item [OF finish_async [OF assms(1)]]) (use p in simp_all)
  with restart_loops_total(2) show ?thesis
    by (auto simp: handle_def asyncWriteCallback_def Let_def)
qed




section \<open>Receiving\<close>

fun read_pieces ::
  "velocypack \<Rightarrow> ChunkHeader \<Rightarrow> byte list \<Rightarrow> byte list list \<Rightarrow> 'u VstConnection \<Rightarrow>
     (byte list \<times> 'u VstConnection) res"
where
  "read_pieces L u buffer [] s = Inr (buffer, s)"
| "read_pieces L u buffer (p # ps) s =
     bind_res (read_chunks L u (buffer @ p) s) (\<lambda>(rest, s). read_pieces L u rest ps s)"

lemma read_chunks_incomplete: "isChunkComplete a = 0 \<Longrightarrow> read_chunks L u a s = Inr (a, s)"
  by (simp add: read_chunks.simps [of L u a])



text \<open>
  C3: a response reaches its request. Let \<open>cs\<close> be the chunks of one message with the id \<open>mid\<close>
  whose content decodes to \<open>response\<close>, and let the server send them in any order, \<open>rs1\<close> before and
  \<open>rs2\<close> in the bytes that are read now, followed by anything. In a reachable state in which a
  request with this id is in flight and has received \<open>rs1\<close>, reading the bytes of \<open>rs2\<close> calls
  the callback of that request once, with error 0, its own request and the response, takes it out
  of the message store and goes on with the bytes that follow.
\<close>

theorem response_delivered:
  assumes "reachable L u conf s" and "message_chunks mid cs data" and "response_of L mid data = Inr response"
    and "\<forall>c \<in> set (rs1 @ rs2). data_ok c \<and> length (wire_chunk (vc_vstVersion s) c) < 2 ^ 32 \<and> ch_messageID c = mid"
    and "mset (map chunk_key (rs1 @ rs2)) = mset (map chunk_key cs)" and "rs2 \<noteq> []"
    and "findByID mid (vc_messageStore s) = Some p" and "received (vc_items s ! p) rs1"
  shows "\<exists>s'. read_chunks L u (concat (map (wire_chunk (vc_vstVersion s)) rs2) @ tail) s = read_chunks L u tail s' \<and>
    findByID mid (vc_messageStore s') = None \<and>
    vc_delivered s' = vc_delivered s @ [\<lparr>d_item = p,
       d_callback = the (co_cb (ri_callback (vc_items s ! p))), d_error = 0,
       d_request = ri_request (vc_items s ! p), d_response = Some response\<rparr>]"
  using read_response [OF assms(2-6) reachable_item [OF assms(1)] refl assms(7,8)] by blast

definition sample_response_chunk :: ChunkHeader where
  "sample_response_chunk =
     sample_chunk\<lparr>ch_chunkX := 3, ch_messageID := 1, ch_data := \<lparr>cb_mem = [3, 1, 2, 1], cb_size = 4\<rparr>\<rparr>"

theorem response_delivered_witness:
  "\<exists>s' response. read_chunks sized_vpack sample_chunk (wire_chunk VST1_0 sample_response_chunk) sample_busy =
      read_chunks sized_vpack sample_chunk [] s' \<and>
    statusCode response = 200 \<and> map d_item (vc_delivered s') = [0] \<and>
    map d_response (vc_delivered s') = [Some response]"
proof -
  let ?c = sample_response_chunk
  have mc: "message_chunks 1 [?c] [3, 1, 2, 1]"
    by (simp add: message_chunks_def sample_response_chunk_def isFirst_def index_def numberOfChunks_def buffer_bytes_def)
  have ok: "data_ok ?c" by (simp add: sample_response_chunk_def)
  then have "length (wire_chunk VST1_0 ?c) < 2 ^ 32"
    using length_wire_chunk [OF ok, of VST1_0] length_header_bytes_le [of VST1_0 ?c]
    by (simp add: sample_response_chunk_def)
  moreover have "findByID 1 (vc_messageStore sample_busy) = Some 0"
    by (simp add: findByID_def map_find_def)
  moreover have "received (vc_items sample_busy ! 0) []"
    using sample_prepared(7,8) by (simp add: received_def announced_def)
  moreover obtain response where r: "response_of sized_vpack 1 [3, 1, 2, 1] = Inr response" "statusCode response = 200"
  proof -
    have "case response_of sized_vpack 1 [3, 1, 2, 1] of Inl e \<Rightarrow> False | Inr r \<Rightarrow> statusCode r = 200"
      by code_simp
    then show ?thesis using that by (auto split: sum.splits)
  qed
  ultimately show ?thesis
    using response_delivered [OF sample_busy_reachable mc r(1), of "[]" "[?c]" 0 "[]"] ok r(2)
    by (auto simp: sample_response_chunk_def)
qed


section \<open>Sending\<close>

lemma item_timeout_total: "item_inv s \<Longrightarrow> p \<in># waiting s \<Longrightarrow> \<exists>t. item_timeout s p = Inr t"
  using pool_inv_memb(4) [of "waiting s" s p] by (auto simp: item_inv_def item_timeout_def)

lemma minimumTimeout_total:
  assumes "item_inv s"
  shows "\<exists>t. minimumTimeout (item_timeout s) (vc_messageStore s) = Inr t"
proof -
  have "\<exists>t. item_timeout s p = Inr t" if "(i, p) \<in> set (vc_messageStore s)" for i p
    by (rule item_timeout_total [OF assms]) (use that in \<open>force simp: waiting_def\<close>)
  then have "\<forall>(i, p) \<in> set (vc_messageStore s). item_timeout s p = Inr (projr (item_timeout s p))"
    by (auto simp del: split_paired_All) fastforce
  from min_timeout_loop_eq [OF this] show ?thesis
    by (simp add: minimumTimeout_def)
qed

lemma startReading_total:
  assumes inv: "item_inv s" and "vc_readLoop s \<noteq> None \<or> vc_socket s \<noteq> None"
  obtains s' where "startReading s = Inr s'" and "io_frame s s'" and "vc_sent s' = vc_sent s"
    and "vc_writeLoops s' = vc_writeLoops s"
proof -
  have "\<exists>s'. startReading s = Inr s'"
  proof (cases "vc_readLoop s")
    case None
    let ?t = "s\<lparr>vc_readLoop := Some (length (vc_readLoops s)),
      vc_readLoops := vc_readLoops s @ [\<lparr>rl_socket = vc_socket s, rl_receiveBuffer = [], rl_started = True\<rparr>]\<rparr>"
    have "item_inv ?t" by (rule io_frame_item_inv [OF inv]) (simp add: io_frame_def)
    then obtain t where "minimumTimeout (item_timeout ?t) (vc_messageStore ?t) = Inr t"
      using minimumTimeout_total by blast
    then show ?thesis
      using None assms(2)
      by (auto simp: startReading_def ReadLoop_start_def Let_def readNextBytes_def shouldStopReading_def pend_def)
  qed (simp add: startReading_def)
  then obtain s' where s': "startReading s = Inr s'" by blast
  then have "vc_sent s' = vc_sent s" by (cases rule: startReading_cases) simp_all
  with that s' startReading_io [OF s'] startReading_frame(1) [OF s'] show ?thesis by blast
qed

lemma sendNextRequest_send:
  assumes inv: "item_inv s" and w: "vc_writeLoop s = Some w" "\<not> vc_permanent_failure s"
    and q: "vc_sendQueue s = p # q" and k: "wl_socket (vc_writeLoops s ! w) = Some k"
    and sock: "vc_readLoop s \<noteq> None \<or> vc_socket s \<noteq> None"
    and bytes: "wire_bytes (vc_items s ! p) = Inr bytes"
  obtains s' where "sendNextRequest w s = Inr s'" and "vc_sent s' = vc_sent s @ [(k, bytes)]"
    and "vc_sendQueue s' = q" and "findByID (ri_messageID (vc_items s ! p)) (vc_messageStore s') = Some p"
    and "Writing w p \<in> set (vc_pending s')" and "vc_items s' = vc_items s" and "vc_delivered s' = vc_delivered s"
proof -
  let ?key = "\<lambda>p. ri_messageID (vc_items s ! p)"
  let ?t = "s\<lparr>vc_messageStore := store_add ?key p (vc_messageStore s), vc_sendQueue := q\<rparr>"
  have g: "getNextRequestToSend w s = Inr (?t, Some p)"
    using w q by (simp add: getNextRequestToSend_def queue_front_def removeFirst_def)
  note t = getNextRequestToSend_item [OF inv g]
  obtain v where v: "startReading ?t = Inr v" "io_frame ?t v" "vc_sent v = vc_sent ?t" "vc_writeLoops v = vc_writeLoops ?t"
    by (rule startReading_total [OF t(1)]) (use sock in simp)
  have vi: "vc_items v = vc_items s" "vc_sendQueue v = q" "vc_messageStore v = vc_messageStore ?t"
    "vc_delivered v = vc_delivered s"
    using v(2) by (simp_all add: io_frame_def)
  have buf: "ri_requestBuffers (vc_items s ! p) \<noteq> []"
    using inv q by (simp add: item_inv_def send_inv_def)
  obtain tm where tm: "item_timeout v p = Inr tm"
    using item_timeout_total [OF io_frame_item_inv [OF t(1) v(2)]] t(2) [OF refl] io_frame_inv(4) [OF v(2)] by auto
  let ?s' = "pend (Writing w p) (pend (Write_Deadline w tm) v\<lparr>vc_async_calls := vc_async_calls v + 1,
     vc_sent := vc_sent v @ [(k, bytes)]\<rparr>)"
  have "sendNextRequest w s = Inr ?s'"
    using g v k tm bytes buf vi by (simp add: sendNextRequest_def Let_def check_def pend_def)
  then show ?thesis
    using that v vi t(2) [OF refl] by (simp add: pend_def)
qed

text \<open>
  C13: what \<open>sendRequest\<close> does on a connected socket. It returns the new message id, unique to the
  request. While a write loop is running the request is only queued; otherwise a loop is started
  that hands the bytes of the oldest queued request to the current socket, and to no other, and
  files that request in the message store under its own id, where the response will find it.
\<close>

theorem sendRequest_transmits:
  assumes "reachable L u conf s" and "ids_left s" and "vc_connected s" and "vc_socket s = Some k"
    and "\<not> vc_permanent_failure s" and "createRequestItem L u req (User_Callback cb) s = (t, Inr p)"
    and "vc_sendQueue s @ [p] = p0 # q" and "wire_bytes (vc_items t ! p0) = Inr bytes"
  shows "\<exists>s'. sendRequest L u req cb s = (s', Inr (vc_messageID s + 1)) \<and>
    (if vc_writeLoop s = None
     then vc_sent s' = vc_sent s @ [(k, bytes)] \<and> vc_sendQueue s' = q \<and>
       findByID (ri_messageID (vc_items t ! p0)) (vc_messageStore s') = Some p0 \<and>
       Writing (length (vc_writeLoops s)) p0 \<in> set (vc_pending s')
     else s' = t\<lparr>vc_sendQueue := vc_sendQueue s @ [p]\<rparr>)"
proof -
  let ?t = "t\<lparr>vc_sendQueue := queue_add p (vc_sendQueue t)\<rparr>"
  obtain item where item: "ri_messageID item = vc_messageID s + 1"
    and t: "t = s\<lparr>vc_messageID := vc_messageID s + 1, vc_items := vc_items s @ [item]\<rparr>" "p = length (vc_items s)"
    using assms(6) by (auto simp: createRequestItem_def Let_def RequestItem_new_def split: sum.splits
        dest!: prepareForNetwork_fields)
  have inv: "item_inv ?t"
    by (rule enqueue_item [OF reachable_item [OF assms(1)] assms(2,6)]) (simp add: queue_add_def)
  have id: "ri_messageID (vc_items t ! p) = vc_messageID s + 1" using item t by simp
  show ?thesis
  proof (cases "vc_writeLoop s")
    case None
    let ?w = "length (vc_writeLoops s)"
    let ?v = "?t\<lparr>vc_writeLoop := Some ?w,
      vc_writeLoops := vc_writeLoops s @ [\<lparr>wl_socket = Some k, wl_started = True\<rparr>]\<rparr>"
    have "item_inv ?v" by (rule io_frame_item_inv [OF inv]) (simp add: io_frame_def)
    then obtain s' where s': "sendNextRequest ?w ?v = Inr s'" "vc_sent s' = vc_sent ?v @ [(k, bytes)]"
      "vc_sendQueue s' = q" "findByID (ri_messageID (vc_items ?v ! p0)) (vc_messageStore s') = Some p0"
      "Writing ?w p0 \<in> set (vc_pending s')" "vc_items s' = vc_items ?v"
      by (rule sendNextRequest_send [of ?v ?w p0 q k bytes]) (use assms t in \<open>simp_all add: queue_add_def\<close>)
    have "startWriting ?t = Inr s'"
      using s'(1) None assms(4) t by (simp add: startWriting_def WriteLoop_start_def Let_def)
    then have "sendRequest L u req cb s = (s', Inr (vc_messageID s + 1))"
      using assms(3,6) t s'(6) id by (simp add: sendRequest_def Let_def)
    with None s' t show ?thesis by simp
  next
    case (Some w)
    then have "sendRequest L u req cb s = (?t, Inr (vc_messageID s + 1))"
      using assms(3,6) t id by (simp add: sendRequest_def startWriting_def Let_def)
    with Some t show ?thesis by (simp add: queue_add_def)
  qed
qed

theorem sendRequest_transmits_witness:
  "\<exists>s'. sendRequest sized_vpack sample_chunk sample_request 7 sample_idle = (s', Inr 1) \<and>
     length (vc_sent s') = 2 \<and> vc_sendQueue s' = []"
proof -
  obtain bytes where "wire_bytes (sample_prepared 1 (User_Callback 7)) = Inr bytes"
    using sample_prepared(2) by blast
  then show ?thesis
    using sendRequest_transmits [OF sample_idle_reachable, of 0 sample_request 7] sample_create [of sample_idle]
    by (fastforce simp: sample_idle_def ids_left_def)
qed


section \<open>Two defects\<close>

lemma startReading_null_socket:
  assumes "item_inv s" and "vc_readLoop s = None" and "vc_socket s = None" and "\<not> vc_permanent_failure s"
    and "vc_messageStore s \<noteq> []"
  shows "startReading s = Inl null_socket"
proof -
  let ?t = "s\<lparr>vc_readLoop := Some (length (vc_readLoops s)),
    vc_readLoops := vc_readLoops s @ [\<lparr>rl_socket = vc_socket s, rl_receiveBuffer = [], rl_started = True\<rparr>]\<rparr>"
  have "item_inv ?t" by (rule io_frame_item_inv [OF assms(1)]) (simp add: io_frame_def)
  then obtain t where "minimumTimeout (item_timeout ?t) (vc_messageStore ?t) = Inr t"
    using minimumTimeout_total by blast
  then show ?thesis
    using assms by (simp add: startReading_def ReadLoop_start_def Let_def readNextBytes_def
        shouldStopReading_def pend_def store_empty_def)
qed

text \<open>
  C33: a request sent during a reconnect. A restart removes the socket and resolves the host
  again, but leaves the flag \<open>_connected\<close> set. In a reachable state of this kind, with no loop
  running, a request that can be prepared makes \<open>sendRequest\<close> start its loops on the null socket
  and dereference it.
\<close>

theorem restart_null_socket:
  assumes "reachable L u conf s" and "ids_left s" and "vc_connected s" and "vc_socket s = None"
    and "vc_readLoop s = None" and "vc_writeLoop s = None" and "\<not> vc_permanent_failure s"
    and "createRequestItem L u req (User_Callback cb) s = (t, Inr p)"
  shows "snd (sendRequest L u req cb s) = Inl null_socket"
proof -
  let ?t = "t\<lparr>vc_sendQueue := queue_add p (vc_sendQueue t)\<rparr>"
  obtain item where t: "t = s\<lparr>vc_messageID := vc_messageID s + 1, vc_items := vc_items s @ [item]\<rparr>"
    using assms(8) by (auto simp: createRequestItem_def Let_def split: sum.splits)
  have inv: "item_inv ?t"
    by (rule enqueue_item [OF reachable_item [OF assms(1)] assms(2,8)]) (simp add: queue_add_def)
  obtain p0 q where q: "vc_sendQueue s @ [p] = p0 # q" by (cases "vc_sendQueue s @ [p]") auto
  let ?w = "length (vc_writeLoops s)"
  let ?v = "?t\<lparr>vc_writeLoop := Some ?w,
    vc_writeLoops := vc_writeLoops s @ [\<lparr>wl_socket = None, wl_started = True\<rparr>]\<rparr>"
  have v: "item_inv ?v" by (rule io_frame_item_inv [OF inv]) (simp add: io_frame_def)
  let ?x = "?v\<lparr>vc_messageStore := store_add (\<lambda>p. ri_messageID (vc_items ?v ! p)) p0 (vc_messageStore ?v),
    vc_sendQueue := q\<rparr>"
  have g: "getNextRequestToSend ?w ?v = Inr (?x, Some p0)"
    using q t assms(7) by (simp add: getNextRequestToSend_def queue_front_def removeFirst_def queue_add_def)
  have "startReading ?x = Inl null_socket"
    by (rule startReading_null_socket [OF getNextRequestToSend_item(1) [OF v g]])
      (use t assms store_add_nonempty in simp_all)
  then have "startWriting ?t = Inl null_socket"
    using g assms(4,6) t by (simp add: startWriting_def WriteLoop_start_def Let_def sendNextRequest_def)
  then show ?thesis
    using assms(3,8) t by (simp add: sendRequest_def Let_def)
qed

definition sample_restarting :: "nat VstConnection" where
  "sample_restarting = projr (handle sized_vpack sample_chunk (Read 1 None) sample_busy)"

theorem restart_null_socket_witness:
  "reachable sized_vpack sample_chunk sample_conf sample_restarting \<and>
   snd (sendRequest sized_vpack sample_chunk sample_request 8 sample_restarting) = Inl null_socket"
proof -
  let ?g = "(finish (Read 1 None) sample_busy)\<lparr>vc_async_calls := 1\<rparr>"
  have "item_inv (?g\<lparr>vc_readLoop := None, vc_writeLoop := None\<rparr>)"
    by (rule no_loops_item, rule io_frame_item_inv [OF finish_item [OF reachable_item [OF sample_busy_reachable], of "Read 1 None"]])
      (simp add: io_frame_def)
  then obtain s' where s': "restartConnection VstReadError (?g\<lparr>vc_readLoop := None, vc_writeLoop := None\<rparr>) = Inr s'"
    by (rule restartConnection_spec [of _ VstReadError]) simp_all
  have h: "handle sized_vpack sample_chunk (Read 1 None) sample_busy = Inr s'"
    using s' by (simp add: handle_def asyncReadCallback_def restartConnection_ReadLoop_def finish_def)
  then have e: "sample_restarting = s'" by (simp add: sample_restarting_def)
  have r: "reachable sized_vpack sample_chunk sample_conf sample_restarting"
    unfolding e by (rule reachable.steps [OF sample_busy_reachable step.step [OF _ _ h]]) (simp_all add: enabled_def ids_left_def)
  have f: "vc_connected s'" "vc_socket s' = None" "vc_readLoop s' = None" "vc_writeLoop s' = None"
    "\<not> vc_permanent_failure s'" "vc_vstVersion s' = VST1_0" "vc_messageID s' = 1"
    using s' sample_prepared(5,6) [of 1 "User_Callback 7"]
    by (auto simp: restartConnection_def check_def shutdownConnection_def cancelAll_def finish_def
        shutdownSocket_def stopReading_def stopWriting_def Let_def invoke_item_def invoke_def
        CallOnce_assign_def CallOnce_new_def run_callback_def set_item_def startResolveHost_def pend_def)
  show ?thesis
    using r restart_null_socket [OF r, of sample_request 8] sample_create [OF f(6), of "User_Callback 8"] f
    by (simp add: e ids_left_def)
qed

lemma stranded_step:
  assumes "step L u s s'" and "vc_pending s = []" and "\<not> vc_connected s"
  shows "vc_pending s' = [] \<and> \<not> vc_connected s' \<and> vc_delivered s' = vc_delivered s \<and>
    requestsLeft s \<le> requestsLeft s'"
  using assms(1)
proof cases
  case (step ev)
  then obtain req cb where "ev = Send req cb"
    using assms(2) by (cases ev) (auto simp: enabled_def)
  with step(3) assms(2,3) show ?thesis
    by (auto simp: handle_def finish_def sendRequest_def createRequestItem_def Let_def requestsLeft_def
        queue_size_def queue_add_def store_size_def split: sum.splits prod.splits if_splits)
qed



end
