(* ===== verification/Service.thy ===== *)
theory Service
  imports Message "HOL-Library.Sublist"
begin

text \<open>
  What a connection promises, as an abstract service that knows nothing of sockets, handles, message
  ids, chunks or queues. Both transports refine it: \<open>HttpService\<close> and \<open>VstService\<close> interpret the
  locale \<open>service_provider\<close> on their states and events.
\<close>

section \<open>The abstract service\<close>

text \<open>
  The service remembers the callback and the request of every submission, and the answers it has
  given. A step takes a new submission, or answers one that has no answer yet: with its own callback
  and request, and with a response exactly when there is no error.
\<close>

record 'u Answer =
  an_item :: nat
  an_callback :: 'u
  an_request :: Request
  an_error :: Error
  an_response :: "Response option"

record 'u service =
  sv_sent :: "('u \<times> Request) list"
  sv_answers :: "'u Answer list"

definition answer_ok :: "('u \<times> Request) list \<Rightarrow> 'u Answer \<Rightarrow> bool" where
  "answer_ok sent x \<longleftrightarrow> an_item x < length sent \<and> sent ! an_item x = (an_callback x, an_request x) \<and>
     (an_error x = 0 \<longleftrightarrow> an_response x \<noteq> None)"

inductive service_step :: "'u service \<Rightarrow> 'u service \<Rightarrow> bool" where
  submit: "service_step a (a\<lparr>sv_sent := sv_sent a @ [(cb, r)]\<rparr>)"
| answer: "answer_ok (sv_sent a) x \<Longrightarrow> an_item x \<notin> an_item ` set (sv_answers a) \<Longrightarrow>
     service_step a (a\<lparr>sv_answers := sv_answers a @ [x]\<rparr>)"

definition service_init :: "'u service" where
  "service_init = \<lparr>sv_sent = [], sv_answers = []\<rparr>"

text \<open>What the service guarantees on its own: at most one answer for each submission.\<close>

definition service_inv :: "'u service \<Rightarrow> bool" where
  "service_inv a \<longleftrightarrow> distinct (map an_item (sv_answers a)) \<and> list_all (answer_ok (sv_sent a)) (sv_answers a)"

lemma answer_ok_append: "answer_ok sent x \<Longrightarrow> answer_ok (sent @ new) x"
  by (simp add: answer_ok_def nth_append)

lemma service_init_inv: "service_inv service_init"
  by (simp add: service_inv_def service_init_def)

lemma service_step_inv: "service_step a a' \<Longrightarrow> service_inv a \<Longrightarrow> service_inv a'"
  by (induction rule: service_step.induct) (auto simp: service_inv_def list_all_iff intro: answer_ok_append)

lemma service_steps_inv: "service_step\<^sup>*\<^sup>* a a' \<Longrightarrow> service_inv a \<Longrightarrow> service_inv a'"
  by (induction rule: rtranclp_induct) (auto intro: service_step_inv)

text \<open>The service never takes back a submission or an answer.\<close>

lemma service_step_extends:
  "service_step a a' \<Longrightarrow> prefix (sv_sent a) (sv_sent a') \<and> prefix (sv_answers a) (sv_answers a')"
  by (induction rule: service_step.induct) simp_all

lemma service_steps_extend:
  "service_step\<^sup>*\<^sup>* a a' \<Longrightarrow> prefix (sv_sent a) (sv_sent a') \<and> prefix (sv_answers a) (sv_answers a')"
  by (induction rule: rtranclp_induct) (auto dest: service_step_extends intro: prefix_order.trans)

lemma service_answers:
  "list_all (answer_ok (sv_sent a)) xs \<Longrightarrow> distinct (map an_item (sv_answers a @ xs)) \<Longrightarrow>
     service_step\<^sup>*\<^sup>* a (a\<lparr>sv_answers := sv_answers a @ xs\<rparr>)"
proof (induction xs arbitrary: a)
  case Nil
  then show ?case by simp
next
  case (Cons x xs)
  let ?b = "a\<lparr>sv_answers := sv_answers a @ [x]\<rparr>"
  have "service_step a ?b" using Cons.prems by (intro service_step.answer) auto
  moreover have "service_step\<^sup>*\<^sup>* ?b (?b\<lparr>sv_answers := sv_answers ?b @ xs\<rparr>)"
    by (rule Cons.IH) (use Cons.prems in simp_all)
  ultimately show ?case by (simp add: converse_rtranclp_into_rtranclp)
qed

section \<open>Providers\<close>

text \<open>
  A provider is a transition system whose states implement states of the service, and whose steps are
  matched by steps of the service.
\<close>

locale service_provider =
  fixes start :: "'s \<Rightarrow> bool"
    and move :: "'s \<Rightarrow> 's \<Rightarrow> bool"
    and reach :: "'s \<Rightarrow> bool"
    and implements :: "'s \<Rightarrow> 'u service \<Rightarrow> bool"
  assumes start_implements: "start s \<Longrightarrow> reach s \<and> implements s service_init"
    and move_implements: "reach s \<Longrightarrow> move s s' \<Longrightarrow> implements s a \<Longrightarrow>
      reach s' \<and> (\<exists>a'. service_step\<^sup>*\<^sup>* a a' \<and> implements s' a')"
begin

lemma moves_implement:
  "move\<^sup>*\<^sup>* s s' \<Longrightarrow> reach s \<Longrightarrow> implements s a \<Longrightarrow>
     reach s' \<and> (\<exists>a'. service_step\<^sup>*\<^sup>* a a' \<and> implements s' a')"
proof (induction rule: rtranclp_induct)
  case base
  then show ?case by blast
next
  case (step t v)
  then obtain b where b: "reach t" "service_step\<^sup>*\<^sup>* a b" "implements t b" by blast
  with move_implements [OF b(1) step.hyps(2) b(3)] show ?case by (blast intro: rtranclp_trans)
qed

text \<open>Every run implements a run of the service, and what it answered before it never changes.\<close>

lemma run_implements:
  assumes "start s0" and "move\<^sup>*\<^sup>* s0 s" and "move\<^sup>*\<^sup>* s s'"
  obtains a a' where "service_step\<^sup>*\<^sup>* service_init a" and "implements s a" and "service_inv a"
    and "service_step\<^sup>*\<^sup>* a a'" and "implements s' a'" and "service_inv a'"
    and "prefix (sv_sent a) (sv_sent a')" and "prefix (sv_answers a) (sv_answers a')"
proof -
  obtain a where a: "reach s" "service_step\<^sup>*\<^sup>* service_init a" "implements s a"
    using moves_implement [OF assms(2)] start_implements [OF assms(1)] by blast
  moreover obtain a' where a': "service_step\<^sup>*\<^sup>* a a'" "implements s' a'"
    using moves_implement [OF assms(3) a(1,3)] by blast
  moreover have "service_inv a" using service_steps_inv [OF a(2) service_init_inv] .
  moreover from this have "service_inv a'" using service_steps_inv [OF a'(1)] by blast
  ultimately show thesis using that service_steps_extend [OF a'(1)] by blast
qed

end

end
