(* ===== verification/VstService.thy ===== *)
theory VstService
  imports VstProperties Service
begin

text \<open>
  The VST connection refines the abstract service of \<open>Service\<close>: whatever the sockets, loops and
  timers do, an event of the connection is a sequence of steps of the service. An item of the
  connection is a submission, a called callback an answer; an event that fails every request in
  flight is a sequence of answers.
\<close>

section \<open>What the connection delivers\<close>

text \<open>
  \<open>delivers s s'\<close>: from \<open>s\<close> to \<open>s'\<close> no item is made, the callbacks of some items that had not been
  called are, each with its own request, and the other items keep callback and request.
\<close>

definition delivery_ok :: "'u VstConnection \<Rightarrow> 'u Delivery \<Rightarrow> bool" where
  "delivery_ok s d \<longleftrightarrow> d_item d < length (vc_items s) \<and> \<not> co_invoked (ri_callback (vc_items s ! d_item d)) \<and>
     co_cb (ri_callback (vc_items s ! d_item d)) = Some (d_callback d) \<and>
     ri_request (vc_items s ! d_item d) = d_request d \<and> (d_error d = 0 \<longleftrightarrow> d_response d \<noteq> None)"

definition delivers :: "'u VstConnection \<Rightarrow> 'u VstConnection \<Rightarrow> bool" where
  "delivers s s' \<longleftrightarrow> length (vc_items s') = length (vc_items s) \<and>
     (\<exists>ds. vc_delivered s' = vc_delivered s @ ds \<and> (\<forall>d \<in> set ds. delivery_ok s d)) \<and>
     (\<forall>p < length (vc_items s). \<not> co_invoked (ri_callback (vc_items s' ! p)) \<longrightarrow>
        ri_callback (vc_items s' ! p) = ri_callback (vc_items s ! p) \<and>
        ri_request (vc_items s' ! p) = ri_request (vc_items s ! p))"

lemma deliversI:
  "length (vc_items s') = length (vc_items s) \<Longrightarrow> vc_delivered s' = vc_delivered s @ ds \<Longrightarrow>
   (\<And>d. d \<in> set ds \<Longrightarrow> delivery_ok s d) \<Longrightarrow>
   (\<And>p. p < length (vc_items s) \<Longrightarrow> \<not> co_invoked (ri_callback (vc_items s' ! p)) \<Longrightarrow>
      ri_callback (vc_items s' ! p) = ri_callback (vc_items s ! p) \<and>
      ri_request (vc_items s' ! p) = ri_request (vc_items s ! p)) \<Longrightarrow> delivers s s'"
  unfolding delivers_def by blast

lemma delivers_same:
  "vc_items s' = vc_items s \<Longrightarrow> vc_delivered s' = vc_delivered s \<Longrightarrow> delivers s s'"
  by (simp add: delivers_def)

lemma delivers_io: "io_frame s s' \<Longrightarrow> delivers s s'"
  by (rule delivers_same) (simp_all add: io_frame_def)

lemma delivers_trans [trans]:
  assumes st: "delivers s t" and tv: "delivers t v"
  shows "delivers s v"
proof -
  obtain ds ds' where ds: "vc_delivered t = vc_delivered s @ ds" "\<And>d. d \<in> set ds \<Longrightarrow> delivery_ok s d"
    and ds': "vc_delivered v = vc_delivered t @ ds'" "\<And>d. d \<in> set ds' \<Longrightarrow> delivery_ok t d"
    using st tv unfolding delivers_def by blast
  have kept: "\<not> co_invoked (ri_callback (vc_items t ! p)) \<Longrightarrow> p < length (vc_items s) \<Longrightarrow>
      ri_callback (vc_items t ! p) = ri_callback (vc_items s ! p) \<and> ri_request (vc_items t ! p) = ri_request (vc_items s ! p)" for p
    using st unfolding delivers_def by blast
  have len: "length (vc_items t) = length (vc_items s)" "length (vc_items v) = length (vc_items t)"
    using st tv by (simp_all add: delivers_def)
  have "delivery_ok s d" if "d \<in> set (ds @ ds')" for d
    using that ds(2) ds'(2) [of d] kept [of "d_item d"] len by (auto simp: delivery_ok_def)
  moreover have "ri_callback (vc_items v ! p) = ri_callback (vc_items s ! p) \<and>
      ri_request (vc_items v ! p) = ri_request (vc_items s ! p)"
    if "p < length (vc_items s)" "\<not> co_invoked (ri_callback (vc_items v ! p))" for p
    using that kept [of p] len tv unfolding delivers_def by metis
  ultimately show ?thesis
    using len ds(1) ds'(1) by (intro deliversI [where ds = "ds @ ds'"]) simp_all
qed

lemma set_item_delivers:
  assumes "ri_callback item = ri_callback (vc_items s ! p)" and "ri_request item = ri_request (vc_items s ! p)"
  shows "delivers s (set_item p item s)"
proof (rule deliversI [where ds = "[]"])
  fix q
  show "ri_callback (vc_items (set_item p item s) ! q) = ri_callback (vc_items s ! q) \<and>
      ri_request (vc_items (set_item p item s) ! q) = ri_request (vc_items s ! q)"
    using assms by (cases "p < length (vc_items s)") (auto simp: set_item_def nth_list_update list_update_beyond)
qed (simp_all add: set_item_def)

lemma invoke_item_delivers:
  assumes "pool_inv H s" and "p < length (vc_items s)" and "e = 0 \<longleftrightarrow> resp \<noteq> None"
    and "invoke_item resp e p s = Inr s'"
  shows "delivers s s'"
proof -
  let ?item = "vc_items s ! p"
  have co: "callonce_inv (ri_callback ?item)" using assms(1,2) by (simp add: pool_inv_def)
  obtain c where c: "invoke (ri_callback ?item) = Inr (c, co_cb (ri_callback ?item))" "co_invoked c"
    using invoke_inv [OF co] by auto
  let ?t = "set_item p (?item\<lparr>ri_callback := c, ri_request := None\<rparr>) s"
  have rest: "\<not> co_invoked (ri_callback (vc_items ?t ! q)) \<Longrightarrow>
      ri_callback (vc_items ?t ! q) = ri_callback (vc_items s ! q) \<and> ri_request (vc_items ?t ! q) = ri_request (vc_items s ! q)" for q
    using c(2) assms(2) by (cases "q = p") (auto simp: set_item_def)
  show ?thesis
  proof (cases "co_cb (ri_callback ?item)")
    case None
    then have "s' = ?t" using assms(4) c(1) by (simp add: invoke_item_def Let_def)
    with rest show ?thesis by (intro deliversI [where ds = "[]"]) (simp_all add: set_item_def)
  next
    case (Some cb)
    let ?d = "\<lparr>d_item = p, d_callback = cb, d_error = e, d_request = ri_request ?item, d_response = resp\<rparr>"
    have s': "s' = run_callback ?d ?t"
      using assms(4) c(1) Some by (simp add: invoke_item_def Let_def)
    have "delivery_ok s ?d"
      using assms(2,3) co Some by (simp add: delivery_ok_def callonce_inv_def)
    with rest show ?thesis
      by (intro deliversI [where ds = "[?d]"]) (simp_all add: s' run_callback_fields set_item_def)
  qed
qed

section \<open>The handlers\<close>

lemma cancel_loop_delivers:
  "pool_inv (H + mset (map snd m)) s \<Longrightarrow> e \<noteq> 0 \<Longrightarrow> cancel_loop (invoke_item None e) m s = Inr s' \<Longrightarrow> delivers s s'"
proof (induction m arbitrary: s)
  case Nil
  then show ?case by (simp add: delivers_same)
next
  case (Cons x m)
  have pool: "pool_inv (add_mset (snd x) (H + mset (map snd m))) s" using Cons.prems by simp
  obtain t where t: "invoke_item None e (snd x) s = Inr t" "pool_inv (H + mset (map snd m)) t"
    by (rule invoke_item_held [OF pool])
  have "delivers s t"
    by (rule invoke_item_delivers [OF pool _ _ t(1)]) (use pool_inv_memb(1) [OF pool] Cons.prems(2) in simp_all)
  also have "delivers t s'"
    using Cons.IH [OF t(2)] Cons.prems(2,3) t(1) by (cases x) simp
  finally show ?case .
qed

lemma shutdownConnection_delivers:
  assumes inv: "item_inv s" and e: "errorToInt e \<noteq> 0" and r: "shutdownConnection e s = Inr s'"
  shows "delivers s s'"
proof -
  let ?s = "shutdownSocket (stopReading (stopWriting s))"
  have s: "?s = s\<lparr>vc_sslSocket := None, vc_socket := None, vc_readLoop := None, vc_writeLoop := None\<rparr>"
    by (simp add: shutdownSocket_def stopReading_def stopWriting_def)
  obtain t where t: "cancel_loop (invoke_item None (errorToInt e)) (vc_messageStore s) ?s = Inr t"
    and s': "s' = t\<lparr>vc_messageStore := []\<rparr>"
    using r by (auto simp: shutdownConnection_def cancelAll_def Let_def s)
  have "delivers s ?s" by (rule delivers_same) (simp_all add: s)
  also have "delivers ?s t"
    by (rule cancel_loop_delivers [OF _ e t, of "mset (vc_sendQueue s)"])
      (use inv in \<open>simp add: item_inv_def pool_inv_def waiting_def s\<close>)
  also have "delivers t s'" by (rule delivers_same) (simp_all add: s')
  finally show ?thesis .
qed

lemma restartConnection_delivers:
  assumes "item_inv s" and "errorToInt e \<noteq> 0" and "restartConnection e s = Inr s'"
  shows "delivers s s'"
proof -
  obtain t where t: "shutdownConnection e s = Inr t" and s': "s' = (if vc_permanent_failure t then t else startResolveHost t)"
    using assms(3) by (auto simp: restartConnection_def)
  have "delivers s t" by (rule shutdownConnection_delivers [OF assms(1,2) t])
  also have "delivers t s'" by (rule delivers_same) (simp_all add: s' startResolveHost_def pend_def)
  finally show ?thesis .
qed

lemma restart_loops_deliver:
  assumes inv: "item_inv s" and e: "errorToInt e \<noteq> 0"
  shows "restartConnection_ReadLoop r e s = Inr s' \<Longrightarrow> delivers s s'"
    and "restartConnection_WriteLoop w e s = Inr s' \<Longrightarrow> delivers s s'"
proof -
  let ?t = "s\<lparr>vc_readLoop := None, vc_writeLoop := None\<rparr>"
  have "delivers s s'" if "restartConnection e ?t = Inr s'"
  proof -
    have "delivers s ?t" by (rule delivers_same) simp_all
    also have "delivers ?t s'" by (rule restartConnection_delivers [OF no_loops_item [OF inv] e that])
    finally show ?thesis .
  qed
  then show "restartConnection_ReadLoop r e s = Inr s' \<Longrightarrow> delivers s s'"
    and "restartConnection_WriteLoop w e s = Inr s' \<Longrightarrow> delivers s s'"
    by (auto simp: restartConnection_ReadLoop_def restartConnection_WriteLoop_def delivers_same split: if_splits)
qed

lemma processChunk_delivers:
  assumes inv: "item_inv s" and r: "processChunk L c s = Inr s'"
  shows "delivers s s'"
proof (cases "findByID (ch_messageID c) (vc_messageStore s)")
  case None
  with r show ?thesis by (simp add: processChunk_def delivers_same)
next
  case (Some p)
  note p = found_item [OF inv Some]
  obtain it1 it b where it: "addChunk c (vc_items s ! p) = Inr it1" "assemble it1 = Inr (it, b)"
    using r Some by (auto simp: processChunk_def)
  note f = addChunk_fields [OF it(1)] assemble_fields [OF it(2)]
  let ?t = "set_item p it s"
  have t: "delivers s ?t" by (rule set_item_delivers) (simp_all add: f)
  show ?thesis
  proof (cases b)
    case None
    with r Some it t show ?thesis by (simp add: processChunk_def Let_def)
  next
    case (Some buf)
    let ?v = "?t\<lparr>vc_messageStore := removeByID (ri_messageID it) (vc_messageStore ?t)\<rparr>"
    obtain resp where resp: "invoke_item (Some resp) 0 p ?v = Inr s'"
      using r \<open>findByID (ch_messageID c) (vc_messageStore s) = Some p\<close> it Some
      by (auto simp: processChunk_def Let_def)
    have "pool_inv (waiting s) ?t"
      by (rule pool_inv_set_item) (use inv in \<open>simp_all add: item_inv_def f\<close>)
    then have pool: "pool_inv (waiting s) ?v" by (simp add: pool_inv_def)
    note t
    also have "delivers ?t ?v" by (rule delivers_same) simp_all
    also have "delivers ?v s'"
      by (rule invoke_item_delivers [OF pool _ _ resp]) (use p in \<open>simp_all add: set_item_def\<close>)
    finally show ?thesis .
  qed
qed

lemma read_chunks_delivers:
  "item_inv s \<Longrightarrow> read_chunks L u buf s = Inr (rest, s') \<Longrightarrow> delivers s s'"
proof (induction L u buf s arbitrary: rest s' rule: read_chunks.induct)
  case (1 L u buf s)
  show ?case
  proof (cases "isChunkComplete buf = 0")
    case True
    with 1 show ?thesis by (simp add: read_chunks.simps [of L u buf] delivers_same)
  next
    case False
    then obtain c t where c: "readChunkHeader (vc_vstVersion s) u buf = Inr c" "processChunk L c s = Inr t"
      and rest: "read_chunks L u (drop (unat (ch_chunkLength c)) buf) t = Inr (rest, s')"
      using "1.prems"(2) by (auto simp: read_chunks.simps [of L u buf])
    have "delivers s t" by (rule processChunk_delivers [OF "1.prems"(1) c(2)])
    also have "delivers t s'"
      using "1.IH" [OF False c _ rest] processChunk_item [OF "1.prems"(1) c(2)] by blast
    finally show ?thesis .
  qed
qed

lemma sendNextRequest_delivers:
  assumes "sendNextRequest w s = Inr s'"
  shows "delivers s s'"
proof -
  obtain t nxt where t: "getNextRequestToSend w s = Inr (t, nxt)"
    using assms by (auto simp: sendNextRequest_def)
  have st: "delivers s t"
    using t by (intro delivers_same)
      (auto simp: getNextRequestToSend_def split: if_splits option.splits)
  show ?thesis
  proof (cases nxt)
    case None
    with assms t st show ?thesis by (simp add: sendNextRequest_def)
  next
    case (Some p)
    then obtain v where v: "startReading t = Inr v"
      and s': "vc_items s' = vc_items v" "vc_delivered s' = vc_delivered v"
      using assms t by (auto simp: sendNextRequest_def Let_def pend_def split: option.splits)
    note st
    also have "delivers t v" by (rule delivers_io [OF startReading_io [OF v]])
    also have "delivers v s'" by (rule delivers_same) (simp_all add: s')
    finally show ?thesis .
  qed
qed

lemma startWriting_delivers:
  assumes "startWriting s = Inr s'"
  shows "delivers s s'"
proof (cases "vc_writeLoop s")
  case None
  let ?w = "length (vc_writeLoops s)"
  let ?t = "s\<lparr>vc_writeLoop := Some ?w,
    vc_writeLoops := vc_writeLoops s @ [\<lparr>wl_socket = vc_socket s, wl_started = True\<rparr>]\<rparr>"
  have "delivers s ?t" by (rule delivers_same) simp_all
  also have "delivers ?t s'"
    by (rule sendNextRequest_delivers [of ?w]) (use assms None in \<open>simp add: startWriting_def WriteLoop_start_def Let_def\<close>)
  finally show ?thesis .
qed (use assms in \<open>simp add: startWriting_def delivers_same\<close>)

lemma asyncReadCallback_delivers:
  assumes inv: "item_inv s" and r: "asyncReadCallback L u l outcome s = Inr s'"
  shows "delivers s s'"
proof -
  let ?s = "s\<lparr>vc_async_calls := vc_async_calls s - 1\<rparr>"
  have inv': "item_inv ?s" by (rule io_frame_item_inv [OF inv]) (simp add: io_frame_def)
  have "delivers s ?s" by (rule delivers_same) simp_all
  also have "delivers ?s s'"
  proof (cases outcome)
    case None
    with r show ?thesis
      by (intro restart_loops_deliver(1) [OF inv']) (auto simp: asyncReadCallback_def Let_def)
  next
    case (Some bs)
    then obtain rest t where t: "read_chunks L u (rl_receiveBuffer (vc_readLoops s ! l) @ bs) ?s = Inr (rest, t)"
      and s': "readNextBytes l (t\<lparr>vc_readLoops := (vc_readLoops t)
         [l := (vc_readLoops t ! l)\<lparr>rl_receiveBuffer := rest\<rparr>]\<rparr>) = Inr s'"
      using r by (auto simp: asyncReadCallback_def Let_def)
    let ?t = "t\<lparr>vc_readLoops := (vc_readLoops t)[l := (vc_readLoops t ! l)\<lparr>rl_receiveBuffer := rest\<rparr>]\<rparr>"
    have "delivers ?s t" by (rule read_chunks_delivers [OF inv' t])
    also have "delivers t ?t" by (rule delivers_same) simp_all
    also have "delivers ?t s'" by (rule delivers_io [OF readNextBytes_io [OF s']])
    finally show ?thesis .
  qed
  finally show ?thesis .
qed

lemma asyncWriteCallback_delivers:
  assumes inv: "item_inv s" and p: "p < length (vc_items s)" "p \<notin> set (vc_sendQueue s)"
    and r: "asyncWriteCallback w p err s = Inr s'"
  shows "delivers s s'"
proof -
  let ?s = "s\<lparr>vc_async_calls := vc_async_calls s - 1\<rparr>"
  have inv': "item_inv ?s" by (rule io_frame_item_inv [OF inv]) (simp add: io_frame_def)
  have s: "delivers s ?s" by (rule delivers_same) simp_all
  show ?thesis
  proof (cases err)
    case False
    note s
    also have "delivers ?s (set_item p (resetSendData (vc_items s ! p)) ?s)"
      by (rule set_item_delivers) (simp_all add: resetSendData_def)
    also have "delivers \<dots> s'"
      by (rule sendNextRequest_delivers [of w]) (use r False in \<open>simp add: asyncWriteCallback_def Let_def\<close>)
    finally show ?thesis .
  next
    case True
    let ?t = "?s\<lparr>vc_messageStore := removeByID (ri_messageID (vc_items ?s ! p)) (vc_messageStore ?s)\<rparr>"
    obtain v where v: "invoke_item None (errorToInt VstWriteError) p ?t = Inr v" "item_inv v"
      by (rule fail_item [OF inv', of p "errorToInt VstWriteError"]) (use p in simp_all)
    have pool: "pool_inv (waiting s) ?t" using inv by (simp add: item_inv_def pool_inv_def)
    note s
    also have "delivers ?s ?t" by (rule delivers_same) simp_all
    also have "delivers ?t v"
      by (rule invoke_item_delivers [OF pool _ _ v(1)]) (use p in simp_all)
    also have "delivers v s'"
      by (rule restart_loops_deliver(2) [OF v(2), of VstWriteError w])
        (use r True v(1) in \<open>simp_all add: asyncWriteCallback_def Let_def\<close>)
    finally show ?thesis .
  qed
qed

section \<open>The simulation\<close>

definition answer_of_delivery :: "'u Delivery \<Rightarrow> 'u Callback Answer" where
  "answer_of_delivery d = \<lparr>an_item = d_item d, an_callback = d_callback d, an_request = the (d_request d),
     an_error = d_error d, an_response = d_response d\<rparr>"

definition vst_implements :: "'u VstConnection \<Rightarrow> 'u Callback service \<Rightarrow> bool" where
  "vst_implements s a \<longleftrightarrow>
     length (sv_sent a) = length (vc_items s) \<and> sv_answers a = map answer_of_delivery (vc_delivered s) \<and>
     (\<forall>d \<in> set (vc_delivered s). d_request d \<noteq> None) \<and>
     (\<forall>p < length (vc_items s). \<not> co_invoked (ri_callback (vc_items s ! p)) \<longrightarrow>
        co_cb (ri_callback (vc_items s ! p)) = Some (fst (sv_sent a ! p)) \<and>
        ri_request (vc_items s ! p) = Some (snd (sv_sent a ! p)))"

text \<open>What matches the steps of the service; the relation composes.\<close>

definition serves :: "'u VstConnection \<Rightarrow> 'u VstConnection \<Rightarrow> bool" where
  "serves s s' \<longleftrightarrow> (\<forall>a. vst_implements s a \<longrightarrow> (\<exists>a'. service_step\<^sup>*\<^sup>* a a' \<and> vst_implements s' a'))"

lemma servesI: "(\<And>a. vst_implements s a \<Longrightarrow> \<exists>a'. service_step\<^sup>*\<^sup>* a a' \<and> vst_implements s' a') \<Longrightarrow> serves s s'"
  by (simp add: serves_def)

lemma serves_trans [trans]: "serves s t \<Longrightarrow> serves t v \<Longrightarrow> serves s v"
  unfolding serves_def by (meson rtranclp_trans)

lemma serves_same: "vc_items s' = vc_items s \<Longrightarrow> vc_delivered s' = vc_delivered s \<Longrightarrow> serves s s'"
  by (rule servesI) (auto simp: vst_implements_def)

lemma delivery_answers:
  assumes "vst_implements s a" and "delivery_ok s d"
  shows "answer_ok (sv_sent a) (answer_of_delivery d) \<and> d_request d \<noteq> None"
proof -
  let ?p = "d_item d"
  have "co_cb (ri_callback (vc_items s ! ?p)) = Some (fst (sv_sent a ! ?p))"
    "ri_request (vc_items s ! ?p) = Some (snd (sv_sent a ! ?p))" "?p < length (sv_sent a)"
    using assms by (auto simp: vst_implements_def delivery_ok_def)
  then show ?thesis
    using assms(2) by (simp add: answer_ok_def answer_of_delivery_def delivery_ok_def prod_eq_iff)
      (metis option.sel)
qed

lemma delivered_distinct:
  assumes "item_inv s"
  shows "distinct (map d_item (vc_delivered s))"
proof -
  obtain ws where ws: "mset ws = waiting s" using ex_mset by blast
  have "mset (ws @ map d_item (vc_delivered s)) = mset [0..<length (vc_items s)]"
    using assms by (simp add: ws item_inv_def pool_inv_def)
  from mset_eq_imp_distinct_iff [OF this] show ?thesis by simp
qed

lemma serves_delivers:
  assumes inv: "item_inv s'" and d: "delivers s s'"
  shows "serves s s'"
proof (rule servesI)
  fix a assume sim: "vst_implements s a"
  obtain ds where ds: "vc_delivered s' = vc_delivered s @ ds" "\<And>d. d \<in> set ds \<Longrightarrow> delivery_ok s d"
    using d unfolding delivers_def by blast
  let ?a = "a\<lparr>sv_answers := sv_answers a @ map answer_of_delivery ds\<rparr>"
  have ans: "sv_answers a = map answer_of_delivery (vc_delivered s)" using sim by (simp add: vst_implements_def)
  have items: "an_item \<circ> answer_of_delivery = d_item" by (rule ext) (simp add: answer_of_delivery_def)
  have "service_step\<^sup>*\<^sup>* a ?a"
  proof (rule service_answers)
    show "list_all (answer_ok (sv_sent a)) (map answer_of_delivery ds)"
      using ds(2) delivery_answers [OF sim] by (simp add: list_all_iff)
    show "distinct (map an_item (sv_answers a @ map answer_of_delivery ds))"
      using delivered_distinct [OF inv] ds(1) by (simp only: ans map_append map_map items)
  qed
  moreover have "vst_implements s' ?a"
    using sim d ds delivery_answers [OF sim] unfolding vst_implements_def delivers_def by auto
  ultimately show "\<exists>a'. service_step\<^sup>*\<^sup>* a a' \<and> vst_implements s' a'" by blast
qed

lemma serves_created:
  assumes "createRequestItem L u req cb s = (s', r)"
  shows "serves s s'"
proof (cases r)
  case (Inl e)
  with assms show ?thesis
    by (intro serves_same) (auto simp: createRequestItem_def Let_def split: sum.splits)
next
  case (Inr p)
  let ?i = "vc_messageID s + 1"
  obtain item where item: "prepareForNetwork L u (vc_vstVersion s)
      (RequestItem_new\<lparr>ri_messageID := ?i, ri_callback := CallOnce_assign cb CallOnce_new,
         ri_request := Some (req\<lparr>r_messageID := ?i\<rparr>)\<rparr>) = Inr item"
    and s': "s' = s\<lparr>vc_messageID := ?i, vc_items := vc_items s @ [item]\<rparr>"
    using assms Inr by (auto simp: createRequestItem_def Let_def RequestItem_new_def split: sum.splits)
  note f = prepareForNetwork_fields [OF item]
  obtain q where q: "ri_request item = Some q" "co_cb (ri_callback item) = Some cb"
    using f by (cases "ri_request item") (simp_all add: CallOnce_assign_def)
  show ?thesis
  proof (rule servesI)
    fix a assume "vst_implements s a"
    then have "vst_implements s' (a\<lparr>sv_sent := sv_sent a @ [(cb, q)]\<rparr>)"
      using q by (auto simp: vst_implements_def s' nth_append less_Suc_eq)
    then show "\<exists>a'. service_step\<^sup>*\<^sup>* a a' \<and> vst_implements s' a'"
      using r_into_rtranclp [of service_step, OF service_step.submit [of a cb q]] by blast
  qed
qed

lemma sendRequest_serves:
  assumes inv: "item_inv s" and ids: "ids_left s" and r: "run_handler L u (Send req cb) s = Inr s'"
  shows "serves s s'"
proof -
  obtain t rp where c: "createRequestItem L u req (User_Callback cb) s = (t, rp)" by fastforce
  have "serves s t" by (rule serves_created [OF c])
  also have "serves t s'"
  proof (cases rp)
    case (Inl e)
    with r c show ?thesis by (intro serves_same) (auto simp: sendRequest_def split: if_splits)
  next
    case (Inr p)
    let ?t = "t\<lparr>vc_sendQueue := queue_add p (vc_sendQueue t)\<rparr>"
    have "serves t ?t" by (rule serves_same) simp_all
    also have "serves ?t s'"
    proof -
      have "s' = ?t \<or> startWriting ?t = Inr s'"
        using r c Inr by (auto simp: sendRequest_def Let_def split: if_splits sum.splits)
      then have "delivers ?t s'" by (auto intro: startWriting_delivers delivers_same)
      then show ?thesis by (rule serves_delivers [OF sendRequest_item [OF inv ids r]])
    qed
    finally show ?thesis .
  qed
  finally show ?thesis .
qed

lemma headerWrittenCallback_serves:
  assumes inv: "item_inv s" and ids: "ids_left s" and r: "headerWrittenCallback L u e s = Inr s'"
  shows "serves s s'"
proof (cases e)
  case (Some msg)
  let ?s = "s\<lparr>vc_connected := False\<rparr>"
  have s: "item_inv ?s" by (rule io_frame_item_inv [OF inv]) (simp add: io_frame_def)
  obtain t where t: "shutdownConnection CanceledDuringReset ?s = Inr t"
    and s': "s' = onFailure (errorToInt CouldNotConnect) (''unable to initialize connection: error='' @ msg) t"
    using r Some by (auto simp: headerWrittenCallback_def)
  have "delivers s ?s" by (rule delivers_same) simp_all
  also have "delivers ?s t" by (rule shutdownConnection_delivers [OF s _ t]) simp
  also have "delivers t s'" unfolding s' by (rule delivers_io [OF onFailure_io])
  finally show ?thesis by (rule serves_delivers [OF headerWrittenCallback_item [OF inv ids r]])
next
  case None
  then obtain t v where t: "insertAuthenticationRequests L u s = Inr t"
    and v: "startWriting (t\<lparr>vc_connected := True\<rparr>) = Inr v" and s': "startReading v = Inr s'"
    using r by (auto simp: headerWrittenCallback_def)
  have "serves s t"
  proof (cases "c_authenticationType (vc_configuration s)")
    case Basic
    then obtain w p where c: "createRequestItem L u (auth_request (vc_configuration s)) Auth_Callback s = (w, Inr p)"
      and w: "t = w\<lparr>vc_sendQueue := queue_insert p (vc_sendQueue w)\<rparr>"
      using t by (auto simp: insertAuthenticationRequests_def split: prod.splits sum.splits)
    have "serves s w" by (rule serves_created [OF c])
    also have "serves w t" by (rule serves_same) (simp_all add: w)
    finally show ?thesis .
  qed (use t in \<open>auto simp: insertAuthenticationRequests_def serves_same\<close>)
  also have "serves t s'"
  proof (rule serves_delivers [OF headerWrittenCallback_item [OF inv ids r]])
    have "delivers t (t\<lparr>vc_connected := True\<rparr>)" by (rule delivers_same) simp_all
    also have "delivers \<dots> v" by (rule startWriting_delivers [OF v])
    also have "delivers v s'" by (rule delivers_io [OF startReading_io [OF s']])
    finally show "delivers t s'" .
  qed
  finally show ?thesis .
qed

lemma asyncConnectCallback_delivers:
  assumes "item_inv s" and "asyncConnectCallback e s = Inr s'"
  shows "delivers s s'"
proof (cases e)
  case None
  with assms(2) show ?thesis
    by (auto simp: asyncConnectCallback_def split: if_splits
        intro: delivers_io finishInitialization_io startSSLHandshake_io)
next
  case (Some msg)
  then obtain t where t: "shutdownConnection CanceledDuringReset s = Inr t"
    and s': "s' = onFailure (errorToInt CouldNotConnect) (''unable to connect -- '' @ msg) t"
    using assms(2) by (auto simp: asyncConnectCallback_def)
  have "delivers s t" by (rule shutdownConnection_delivers [OF assms(1) _ t]) simp
  also have "delivers t s'" unfolding s' by (rule delivers_io [OF onFailure_io])
  finally show ?thesis .
qed

lemma handle_serves:
  assumes inv: "item_inv s" and en: "enabled ev s" and ids: "ids_left s" and r: "handle L u ev s = Inr s'"
  shows "serves s s'"
proof -
  let ?f = "finish ev s"
  have f: "item_inv ?f" by (rule finish_item [OF inv])
  have fi: "ids_left ?f" using ids by (simp add: ids_left_def finish_def split: option.splits)
  have rf: "run_handler L u ev ?f = Inr s'" using r by (simp add: handle_def)
  have s': "item_inv s'" by (rule handle_item [OF assms])
  have "serves s ?f" by (rule serves_same) (simp_all add: finish_def split: option.splits)
  also have "serves ?f s'"
  proof (cases ev)
    case (Send req cb)
    with sendRequest_serves [OF f fi] rf show ?thesis by blast
  next
    case (Header_Written e)
    with headerWrittenCallback_serves [OF f fi] rf show ?thesis by simp
  next
    case (Written w p e)
    then have "p < length (vc_items ?f)" "p \<notin> set (vc_sendQueue ?f)"
      using en inv by (auto simp: enabled_def finish_def item_inv_def send_inv_def)
    then show ?thesis
      using rf Written by (intro serves_delivers [OF s'] asyncWriteCallback_delivers [OF f]) auto
  next
    case (Read_Timer l t e)
    with rf restart_loops_deliver(1) [OF f, of Timeout l s'] have "delivers ?f s'"
      by (cases e) (simp_all add: readDeadlineHandler_def delivers_same)
    then show ?thesis by (rule serves_delivers [OF s'])
  next
    case (Write_Timer w t e)
    with rf restart_loops_deliver(2) [OF f, of Timeout w s'] have "delivers ?f s'"
      by (cases e) (simp_all add: writeDeadlineHandler_def delivers_same)
    then show ?thesis by (rule serves_delivers [OF s'])
  next
    case (Connected eps e)
    with rf asyncConnectCallback_delivers [OF f] serves_delivers [OF s'] show ?thesis by simp
  next
    case (Read l b)
    with rf asyncReadCallback_delivers [OF f] serves_delivers [OF s'] show ?thesis by simp
  qed (use rf in \<open>auto intro: serves_delivers [OF s'] delivers_io resolveCallback_io handshakeCallback_io\<close>)
  finally show ?thesis .
qed

lemma started_implements: "vst_implements (start (VstConnection_new conf)) service_init"
  by (simp add: vst_implements_def service_init_def start_def startResolveHost_def pend_def VstConnection_new_def)

interpretation vst_provider: service_provider "\<lambda>s. s = start (VstConnection_new conf)" "step L u"
    "reachable L u conf" vst_implements
  for L u conf
proof (unfold_locales, goal_cases)
  case (1 s)
  then show ?case by (simp add: reachable.started started_implements)
next
  case (2 s s' a)
  then have "reachable L u conf s'" by (blast intro: reachable.steps)
  moreover from 2 have "serves s s'" by (auto elim!: stepE intro: handle_serves reachable_item)
  ultimately show ?case using 2(3) by (simp add: serves_def)
qed

section \<open>Property\<close>

text \<open>
  C2: the VST connection refines the abstract service. Every run of the connection from its start is
  a run of the service: its items are the submissions and its called callbacks the answers, so each
  submission is answered at most once, with its own callback and request, and with a response
  exactly when there is no error. A longer run extends the submissions and the answers: nothing that
  was delivered is delivered again or changed.
\<close>

theorem vst_refines_service:
  assumes "(step L u)\<^sup>*\<^sup>* (start (VstConnection_new conf)) s" and "(step L u)\<^sup>*\<^sup>* s s'"
  shows "\<exists>a a'. service_step\<^sup>*\<^sup>* service_init a \<and> vst_implements s a \<and> service_inv a \<and>
    service_step\<^sup>*\<^sup>* a a' \<and> vst_implements s' a' \<and> service_inv a' \<and>
    prefix (sv_sent a) (sv_sent a') \<and> prefix (sv_answers a) (sv_answers a')"
  by (rule vst_provider.run_implements [OF refl assms]) blast

lemma run_steps: "run L u evs s = Inr s' \<Longrightarrow> (step L u)\<^sup>*\<^sup>* s s'"
proof (induction L u evs s rule: run.induct)
  case (2 L u ev evs s)
  then obtain t where t: "enabled ev s" "ids_left s" "handle L u ev s = Inr t" "run L u evs t = Inr s'"
    by (auto split: if_splits)
  then have "step L u s t" "(step L u)\<^sup>*\<^sup>* t s'" using 2(1) by (auto intro: step.step)
  then show ?case by (rule converse_rtranclp_into_rtranclp)
qed simp

theorem vst_refines_service_witness:
  "\<exists>s' a a'. vst_implements sample_busy a \<and> vst_implements s' a' \<and> service_step\<^sup>*\<^sup>* a a' \<and>
     map an_item (sv_answers a) = [] \<and> map an_item (sv_answers a') = [0] \<and>
     map an_error (sv_answers a') = [errorToInt Timeout]"
proof -
  let ?ev = "Read_Timer 1 30000 False"
  let ?g = "(finish ?ev sample_busy)\<lparr>vc_readLoop := None, vc_writeLoop := None\<rparr>"
  have g: "item_inv ?g"
    by (rule no_loops_item [OF finish_item [OF reachable_item [OF sample_busy_reachable]]])
  obtain s' ds where r: "restartConnection Timeout ?g = Inr s'" and ds: "vc_delivered s' = vc_delivered ?g @ ds"
    "map d_item ds = map snd (vc_messageStore ?g)" "\<forall>d \<in> set ds. d_error d = errorToInt Timeout \<and> d_response d = None"
    by (rule restartConnection_spec [OF g, of Timeout]) simp_all
  have h: "handle sized_vpack sample_chunk ?ev sample_busy = Inr s'"
    using r by (simp add: handle_def readDeadlineHandler_def restartConnection_ReadLoop_def finish_def)
  have "step sized_vpack sample_chunk sample_idle sample_busy"
    by (rule step.step [OF _ _ sample_send]) (simp_all add: enabled_def ids_left_def sample_idle_def)
  moreover have "(step sized_vpack sample_chunk)\<^sup>*\<^sup>* (start (VstConnection_new sample_conf)) sample_idle"
    using run_steps [OF sample_connected [unfolded sample_run_def sample_start_def]] .
  ultimately have "(step sized_vpack sample_chunk)\<^sup>*\<^sup>* (start (VstConnection_new sample_conf)) sample_busy"
    by simp
  moreover have "step sized_vpack sample_chunk sample_busy s'"
    by (rule step.step [OF _ _ h]) (simp_all add: enabled_def ids_left_def)
  ultimately obtain a a' where a: "vst_implements sample_busy a" "vst_implements s' a'" "service_step\<^sup>*\<^sup>* a a'"
    using vst_refines_service [of sized_vpack sample_chunk sample_conf sample_busy s'] by blast
  have "map d_item (vc_delivered s') = [0]" "map d_error (vc_delivered s') = [errorToInt Timeout]"
    using ds by (auto simp: finish_def)
  with a show ?thesis
    by (intro exI [of _ s'] exI [of _ a] exI [of _ a'])
      (simp add: vst_implements_def answer_of_delivery_def comp_def)
qed

end
