(* ===== verification/Interleaving.thy ===== *)
theory Interleaving
  imports Main "HOL-Library.Multiset"
begin

text \<open>
  Threads as a list of stacks. An invariant that sees the shared state and the entries of all stacks,
  but not which thread has them, is kept by a step of one thread if the top of its stack is replaced
  in a way that keeps it, whatever the others have.
\<close>

lemma stack_split:
  assumes "i < length ss"
  obtains rest where "mset (concat ss) = mset (ss ! i @ rest)" and "\<forall>x. mset (concat (ss[i := x])) = mset (x @ rest)"
proof -
  let ?rest = "concat (take i ss) @ concat (drop (Suc i) ss)"
  have "mset (concat ss) = mset (ss ! i @ ?rest)"
    using arg_cong [OF id_take_nth_drop [OF assms], of "\<lambda>xs. mset (concat xs)"] by (simp only: concat_append mset_append concat.simps ac_simps)
  moreover have "\<forall>x. mset (concat (ss[i := x])) = mset (x @ ?rest)"
    using assms by (simp add: upd_conv_take_nth_drop)
  ultimately show thesis by (rule that)
qed

locale interleaved =
  fixes inv :: "'c \<Rightarrow> 'a list \<Rightarrow> bool"
  assumes inv_mset: "mset ts = mset ts' \<Longrightarrow> inv s ts = inv s ts'"
begin

lemma step_stack:
  assumes "i < length ss" and "inv s (concat ss)"
    and "\<And>rest. inv s (ss ! i @ rest) \<Longrightarrow> inv s' (x @ rest)"
  shows "inv s' (concat (ss[i := x]))"
proof -
  obtain rest where rest: "mset (concat ss) = mset (ss ! i @ rest)" "\<forall>x. mset (concat (ss[i := x])) = mset (x @ rest)"
    using stack_split [OF assms(1)] by blast
  from assms(2,3) show ?thesis
    by (simp only: inv_mset [OF rest(1)] inv_mset [OF spec [OF rest(2)]])
qed

end

end
