(* ===== verification/VstThreads.thy ===== *)
theory VstThreads
  imports VstProperties Interleaving
begin

text \<open>
  The VST connection under several threads. A handler is a stack of tasks, each of which is a section
  of the code that one mutex (or atomic variable) makes indivisible; a thread runs the tasks of its
  stack, and the tasks of different threads interleave in any order. The sections are those of
  \<open>src/src/VstConnection.cpp\<close>: between two of them the code holds no mutex of the connection.
  \<^item> Run by one thread, the tasks of a handler are the handler of \<open>VstConnection\<close> (\<open>run_tasks\<close>).
  \<^item> The runs considered here are those without failures and timeouts: user threads that call
    \<open>sendRequest\<close>, and threads of the event loop that handle successful completions.
\<close>

section \<open>Tasks\<close>

datatype task =
    Queue_Add item_ptr
  | Check_Connected
  | Set_Connected
  | Start_Writing
  | Next_Request nat
  | Async_Write nat item_ptr
  | Start_Reading
  | Next_Bytes nat
  | Async_Read nat int
  | Read_Chunks nat "byte list"

text \<open>
  The sections of \<open>startWriting\<close> and \<open>startReading\<close> under the mutex of the loop: a new loop, if there is none.
  The flag \<open>_started\<close> of the new loop is set here: no other thread calls its \<open>start\<close>.
\<close>

definition startWriting_locked :: "'u VstConnection \<Rightarrow> 'u VstConnection \<times> nat option" where
  "startWriting_locked s =
     (case vc_writeLoop s of
        Some _ \<Rightarrow> (s, None)
      | None \<Rightarrow>
          let w = length (vc_writeLoops s); loop = \<lparr>wl_socket = vc_socket s, wl_started = True\<rparr>
          in (s\<lparr>vc_writeLoop := Some w, vc_writeLoops := vc_writeLoops s @ [loop]\<rparr>, Some w))"

definition startReading_locked :: "'u VstConnection \<Rightarrow> 'u VstConnection \<times> nat option" where
  "startReading_locked s =
     (case vc_readLoop s of
        Some _ \<Rightarrow> (s, None)
      | None \<Rightarrow>
          let r = length (vc_readLoops s);
              loop = \<lparr>rl_socket = vc_socket s, rl_receiveBuffer = [], rl_started = True\<rparr>
          in (s\<lparr>vc_readLoop := Some r, vc_readLoops := vc_readLoops s @ [loop]\<rparr>, Some r))"

text \<open>The ends of \<open>sendNextRequest\<close> and \<open>readNextBytes\<close>, which start the timer and the operation.\<close>

definition issue_write :: "nat \<Rightarrow> item_ptr \<Rightarrow> 'u VstConnection \<Rightarrow> 'u VstConnection res" where
  "issue_write w p s =
     (let item = vc_items s ! p
      in bind_res (check (ri_requestBuffers item \<noteq> []) (Assertion ''next->_requestBuffers.size()'')) (\<lambda>_.
         bind_res (item_timeout s p) (\<lambda>reqTimeout.
         let s = pend (Write_Deadline w reqTimeout) s;
             s = s\<lparr>vc_async_calls := vc_async_calls s + 1\<rparr>
         in case wl_socket (vc_writeLoops s ! w) of
              None \<Rightarrow> Inl null_socket
            | Some k \<Rightarrow>
                bind_res (wire_bytes item) (\<lambda>bytes.
                Inr (pend (Writing w p) (s\<lparr>vc_sent := vc_sent s @ [(k, bytes)]\<rparr>))))))"

definition issue_read :: "nat \<Rightarrow> int \<Rightarrow> 'u VstConnection \<Rightarrow> 'u VstConnection res" where
  "issue_read r timeout s =
     (let s = pend (Read_Deadline r timeout) s;
          s = s\<lparr>vc_async_calls := vc_async_calls s + 1\<rparr>
      in case rl_socket (vc_readLoops s ! r) of
           None \<Rightarrow> Inl null_socket
         | Some _ \<Rightarrow> Inr (pend (Reading r) s))"

text \<open>
  What a task does to the connection, and the tasks that it leaves to be done before those under it on
  the stack.
\<close>

fun task_step ::
  "velocypack \<Rightarrow> ChunkHeader \<Rightarrow> task \<Rightarrow> 'u VstConnection \<Rightarrow> ('u VstConnection \<times> task list) res"
where
  "task_step L u (Queue_Add p) s = Inr (s\<lparr>vc_sendQueue := queue_add p (vc_sendQueue s)\<rparr>, [Check_Connected])"
| "task_step L u Check_Connected s = Inr (s, if vc_connected s then [Start_Writing] else [])"
| "task_step L u Set_Connected s = Inr (s\<lparr>vc_connected := True\<rparr>, [Start_Writing, Start_Reading])"
| "task_step L u Start_Writing s =
     (case startWriting_locked s of (s, new) \<Rightarrow> Inr (s, case new of None \<Rightarrow> [] | Some w \<Rightarrow> [Next_Request w]))"
| "task_step L u (Next_Request w) s =
     bind_res (getNextRequestToSend w s) (\<lambda>(s, next).
     Inr (s, case next of None \<Rightarrow> [] | Some p \<Rightarrow> [Start_Reading, Async_Write w p]))"
| "task_step L u (Async_Write w p) s = bind_res (issue_write w p s) (\<lambda>s. Inr (s, []))"
| "task_step L u Start_Reading s =
     (case startReading_locked s of (s, new) \<Rightarrow> Inr (s, case new of None \<Rightarrow> [] | Some r \<Rightarrow> [Next_Bytes r]))"
| "task_step L u (Next_Bytes r) s =
     bind_res (shouldStopReading r s) (\<lambda>(s, stop).
     Inr (s, case stop of None \<Rightarrow> [] | Some timeout \<Rightarrow> [Async_Read r timeout]))"
| "task_step L u (Async_Read r timeout) s = bind_res (issue_read r timeout s) (\<lambda>s. Inr (s, []))"
| "task_step L u (Read_Chunks r cursor) s =
     (if isChunkComplete cursor = 0
      then Inr (s\<lparr>vc_readLoops := (vc_readLoops s)[r := (vc_readLoops s ! r)\<lparr>rl_receiveBuffer := cursor\<rparr>]\<rparr>, [Next_Bytes r])
      else bind_res (readChunkHeader (vc_vstVersion s) u cursor) (\<lambda>chunk.
           bind_res (processChunk L chunk s) (\<lambda>s.
           Inr (s, [Read_Chunks r (drop (unat (ch_chunkLength chunk)) cursor)]))))"

lemmas section_defs = startWriting_locked_def startReading_locked_def issue_write_def issue_read_def

fun task_weight :: "task \<Rightarrow> nat" where
  "task_weight (Queue_Add p) = 8"
| "task_weight Check_Connected = 7"
| "task_weight Set_Connected = 11"
| "task_weight Start_Writing = 6"
| "task_weight (Next_Request w) = 5"
| "task_weight (Async_Write w p) = 1"
| "task_weight Start_Reading = 3"
| "task_weight (Next_Bytes r) = 2"
| "task_weight (Async_Read r t) = 1"
| "task_weight (Read_Chunks r cursor) = 3 + length cursor"

lemma Read_Chunks_weight:
  assumes "task_step L u (Read_Chunks r cursor) s = Inr (s', ts)"
  shows "sum_list (map task_weight ts) < task_weight (Read_Chunks r cursor)"
proof (cases "isChunkComplete cursor = 0")
  case False
  then obtain c where c: "readChunkHeader (vc_vstVersion s) u cursor = Inr c"
    and ts: "ts = [Read_Chunks r (drop (unat (ch_chunkLength c)) cursor)]"
    using assms by auto
  moreover have "0 < length cursor" using False by (auto simp: isChunkComplete_def)
  ultimately show ?thesis using readChunkHeader_length [OF c False] False by simp
qed (use assms in auto)

lemma Async_done:
  "task_step L u (Async_Write w p) s = Inr (s', ts) \<Longrightarrow> ts = []"
  "task_step L u (Async_Read r t) s = Inr (s', ts) \<Longrightarrow> ts = []"
  by simp_all

lemma task_step_weight:
  "task_step L u t s = Inr (s', ts) \<Longrightarrow> sum_list (map task_weight ts) < task_weight t"
proof (cases t)
  case (Read_Chunks r cursor)
  then show "task_step L u t s = Inr (s', ts) \<Longrightarrow> ?thesis" using Read_Chunks_weight by metis
next
  case (Async_Write w p)
  then show "task_step L u t s = Inr (s', ts) \<Longrightarrow> ?thesis" using Async_done(1) by fastforce
next
  case (Async_Read r t')
  then show "task_step L u t s = Inr (s', ts) \<Longrightarrow> ?thesis" using Async_done(2) by fastforce
qed (auto split: option.splits if_splits prod.splits)

text \<open>All tasks of a stack, run by one thread without interruption.\<close>

function run_tasks :: "velocypack \<Rightarrow> ChunkHeader \<Rightarrow> task list \<Rightarrow> 'u VstConnection \<Rightarrow> 'u VstConnection res" where
  "run_tasks L u [] s = Inr s"
| "run_tasks L u (t # ts) s = bind_res (task_step L u t s) (\<lambda>(s', new). run_tasks L u (new @ ts) s')"
  by pat_completeness auto
termination
  by (relation "measure (\<lambda>(L, u, ts, s). sum_list (map task_weight ts))") (auto dest: task_step_weight)

section \<open>Threads\<close>

record 'u threads =
  th_conn :: "'u VstConnection"
  th_stacks :: "task list list"

text \<open>A handler of the setup that succeeds.\<close>

fun setup_event :: "'u event \<Rightarrow> bool" where
  "setup_event (Resolved e eps) \<longleftrightarrow> e = None"
| "setup_event (Connected eps e) \<longleftrightarrow> e = None"
| "setup_event (Handshaken e) \<longleftrightarrow> e = None"
| "setup_event _ \<longleftrightarrow> False"

definition take_op :: "pending \<Rightarrow> 'u VstConnection \<Rightarrow> 'u VstConnection" where
  "take_op p s = s\<lparr>vc_pending := remove1 p (vc_pending s)\<rparr>"

inductive thread_step ::
  "velocypack \<Rightarrow> ChunkHeader \<Rightarrow> 'u threads \<Rightarrow> 'u threads \<Rightarrow> bool"
  for L :: velocypack and u :: ChunkHeader
where
  task: "i < length ss \<Longrightarrow> ss ! i = t # ts \<Longrightarrow> task_step L u t s = Inr (s', new) \<Longrightarrow>
     thread_step L u \<lparr>th_conn = s, th_stacks = ss\<rparr> \<lparr>th_conn = s', th_stacks = ss[i := new @ ts]\<rparr>"
| send: "i < length ss \<Longrightarrow> ss ! i = [] \<Longrightarrow> createRequestItem L u req (User_Callback cb) s = (s', Inr p) \<Longrightarrow>
     thread_step L u \<lparr>th_conn = s, th_stacks = ss\<rparr> \<lparr>th_conn = s', th_stacks = ss[i := [Queue_Add p]]\<rparr>"
| establish: "i < length ss \<Longrightarrow> ss ! i = [] \<Longrightarrow> setup_event ev \<Longrightarrow> enabled ev s \<Longrightarrow> handle L u ev s = Inr s' \<Longrightarrow>
     thread_step L u \<lparr>th_conn = s, th_stacks = ss\<rparr> \<lparr>th_conn = s', th_stacks = ss\<rparr>"
| header: "i < length ss \<Longrightarrow> ss ! i = [] \<Longrightarrow> Writing_Header \<in> set (vc_pending s) \<Longrightarrow>
     insertAuthenticationRequests L u (take_op Writing_Header s) = Inr s' \<Longrightarrow>
     thread_step L u \<lparr>th_conn = s, th_stacks = ss\<rparr> \<lparr>th_conn = s', th_stacks = ss[i := [Set_Connected]]\<rparr>"
| written: "i < length ss \<Longrightarrow> ss ! i = [] \<Longrightarrow> Writing w p \<in> set (vc_pending s) \<Longrightarrow>
     s' = (take_op (Writing w p) s)\<lparr>vc_async_calls := vc_async_calls s - 1\<rparr> \<Longrightarrow>
     thread_step L u \<lparr>th_conn = s, th_stacks = ss\<rparr>
       \<lparr>th_conn = set_item p (resetSendData (vc_items s' ! p)) s', th_stacks = ss[i := [Next_Request w]]\<rparr>"
| read: "i < length ss \<Longrightarrow> ss ! i = [] \<Longrightarrow> Reading r \<in> set (vc_pending s) \<Longrightarrow>
     s' = (take_op (Reading r) s)\<lparr>vc_async_calls := vc_async_calls s - 1\<rparr> \<Longrightarrow>
     thread_step L u \<lparr>th_conn = s, th_stacks = ss\<rparr>
       \<lparr>th_conn = s', th_stacks = ss[i := [Read_Chunks r (rl_receiveBuffer (vc_readLoops s ! r) @ bytes)]]\<rparr>"

definition threads_start :: "ConnectionConfiguration \<Rightarrow> nat \<Rightarrow> 'u threads" where
  "threads_start conf n = \<lparr>th_conn = start (VstConnection_new conf), th_stacks = replicate n []\<rparr>"

section \<open>One thread\<close>

lemma run_tasks_append: "run_tasks L u (ts @ ts') s = bind_res (run_tasks L u ts s) (run_tasks L u ts')"
proof (induction L u ts s rule: run_tasks.induct)
  case (2 L u t ts s)
  then show ?case
    by (cases "task_step L u t s") auto
qed simp

lemma run_task: "run_tasks L u [t] s = bind_res (task_step L u t s) (\<lambda>(s', ts). run_tasks L u ts s')"
  by (cases "task_step L u t s") (auto split: prod.splits)

lemma bind_res_return: "bind_res r Inr = r"
  by (cases r) simp_all

lemma run_Next_Bytes: "run_tasks L u [Next_Bytes r] s = readNextBytes r s"
  by (cases "shouldStopReading r s")
    (auto simp: readNextBytes_def issue_read_def Let_def pend_def split: option.splits)

lemma run_Start_Reading: "run_tasks L u [Start_Reading] s = startReading s"
proof (cases "vc_readLoop s")
  case None
  let ?t = "s\<lparr>vc_readLoop := Some (length (vc_readLoops s)),
    vc_readLoops := vc_readLoops s @ [\<lparr>rl_socket = vc_socket s, rl_receiveBuffer = [], rl_started = True\<rparr>]\<rparr>"
  have "run_tasks L u [Start_Reading] s = run_tasks L u [Next_Bytes (length (vc_readLoops s))] ?t"
    using None by (simp add: run_task section_defs Let_def del: run_tasks.simps(2))
  with None show ?thesis
    by (simp add: run_Next_Bytes startReading_def ReadLoop_start_def Let_def del: run_tasks.simps(2))
qed (simp add: startReading_def section_defs)

lemma run_Async_Write:
  "run_tasks L u [Async_Write w p] s = bind_res (task_step L u (Async_Write w p) s) (\<lambda>(s', ts). Inr s')"
  by (cases "task_step L u (Async_Write w p) s") (auto simp: run_task dest: Async_done simp del: task_step.simps run_tasks.simps(2))

lemma run_Next_Request: "run_tasks L u [Next_Request w] s = sendNextRequest w s"
proof (cases "getNextRequestToSend w s")
  case (Inr x)
  obtain t nxt where x: "x = (t, nxt)" by fastforce
  show ?thesis
  proof (cases nxt)
    case (Some p)
    have "run_tasks L u [Next_Request w] s =
        bind_res (run_tasks L u [Start_Reading] t) (run_tasks L u [Async_Write w p])"
      using Inr x Some run_tasks_append [of L u "[Start_Reading]" "[Async_Write w p]" t]
      by (simp add: run_task del: run_tasks.simps(2))
    also have "\<dots> = bind_res (startReading t) (\<lambda>v. bind_res (task_step L u (Async_Write w p) v) (\<lambda>(s', ts). Inr s'))"
      by (simp only: run_Start_Reading run_Async_Write [abs_def])
    also have "\<dots> = sendNextRequest w s"
      using Inr x Some
      by (simp add: sendNextRequest_def issue_write_def Let_def bind_res_assoc)
        (rule arg_cong [where f = "bind_res (startReading t)"], auto simp: bind_res_def split: option.splits sum.splits)
    finally show ?thesis .
  qed (use Inr x in \<open>simp add: sendNextRequest_def\<close>)
qed (simp add: sendNextRequest_def)

lemma run_Start_Writing: "run_tasks L u [Start_Writing] s = startWriting s"
proof (cases "vc_writeLoop s")
  case None
  let ?t = "s\<lparr>vc_writeLoop := Some (length (vc_writeLoops s)),
    vc_writeLoops := vc_writeLoops s @ [\<lparr>wl_socket = vc_socket s, wl_started = True\<rparr>]\<rparr>"
  have "run_tasks L u [Start_Writing] s = run_tasks L u [Next_Request (length (vc_writeLoops s))] ?t"
    using None by (simp add: run_task section_defs Let_def del: run_tasks.simps(2))
  with None show ?thesis
    by (simp add: run_Next_Request startWriting_def WriteLoop_start_def Let_def del: run_tasks.simps(2))
qed (simp add: startWriting_def section_defs)

lemma run_Set_Connected:
  "run_tasks L u [Set_Connected] s = bind_res (startWriting (s\<lparr>vc_connected := True\<rparr>)) startReading"
  using run_tasks_append [of L u "[Start_Writing]" "[Start_Reading]" "s\<lparr>vc_connected := True\<rparr>"]
  by (simp add: run_task [of L u Set_Connected] run_Start_Writing run_Start_Reading [abs_def] del: run_tasks.simps(2))

lemma run_Read_Chunks:
  "run_tasks L u [Read_Chunks r cursor] s = bind_res (read_chunks L u cursor s) (\<lambda>(rest, s).
     readNextBytes r (s\<lparr>vc_readLoops := (vc_readLoops s)[r := (vc_readLoops s ! r)\<lparr>rl_receiveBuffer := rest\<rparr>]\<rparr>))"
proof (induction L u cursor s rule: read_chunks.induct)
  case (1 L u cursor s)
  show ?case
  proof (cases "isChunkComplete cursor = 0")
    case True
    then show ?thesis
      by (simp add: run_task [of L u "Read_Chunks r cursor"] run_Next_Bytes read_chunks.simps [of L u cursor] del: run_tasks.simps(2))
  next
    case False
    show ?thesis
    proof (cases "readChunkHeader (vc_vstVersion s) u cursor")
      case (Inr c)
      then show ?thesis
        using False "1.IH" [OF False Inr]
        by (cases "processChunk L c s")
          (simp_all add: run_task [of L u "Read_Chunks r cursor"] read_chunks.simps [of L u cursor] del: run_tasks.simps(2))
    qed (use False in \<open>simp add: run_task [of L u "Read_Chunks r cursor"] read_chunks.simps [of L u cursor] del: run_tasks.simps(2)\<close>)
  qed
qed

section \<open>The loops belong to one thread at a time\<close>

text \<open>The loop that a task, or a pending operation, goes on with.\<close>

fun task_writer :: "task \<Rightarrow> nat option" where
  "task_writer (Next_Request w) = Some w"
| "task_writer (Async_Write w p) = Some w"
| "task_writer _ = None"

fun task_reader :: "task \<Rightarrow> nat option" where
  "task_reader (Next_Bytes r) = Some r"
| "task_reader (Async_Read r t) = Some r"
| "task_reader (Read_Chunks r cursor) = Some r"
| "task_reader _ = None"

fun op_writer :: "pending \<Rightarrow> nat option" where
  "op_writer (Writing w p) = Some w"
| "op_writer _ = None"

fun op_reader :: "pending \<Rightarrow> nat option" where
  "op_reader (Reading r) = Some r"
| "op_reader _ = None"

definition writers :: "pending list \<Rightarrow> task list \<Rightarrow> nat \<Rightarrow> nat" where
  "writers ps ts w = count_list (map task_writer ts) (Some w) + count_list (map op_writer ps) (Some w)"

definition readers :: "pending list \<Rightarrow> task list \<Rightarrow> nat \<Rightarrow> nat" where
  "readers ps ts r = count_list (map task_reader ts) (Some r) + count_list (map op_reader ps) (Some r)"

text \<open>Every loop has at most one agent, a loop that is not made yet has none, and the current one has one.\<close>

definition owned :: "(nat \<Rightarrow> nat) \<Rightarrow> nat \<Rightarrow> nat option \<Rightarrow> bool" where
  "owned agents bound current \<longleftrightarrow> (\<forall>l. agents l \<le> 1) \<and> (\<forall>l. bound \<le> l \<longrightarrow> agents l = 0) \<and>
     (\<forall>l. current = Some l \<longrightarrow> agents l = 1)"

definition threads_inv :: "'u VstConnection \<Rightarrow> task list \<Rightarrow> bool" where
  "threads_inv s ts \<longleftrightarrow>
     owned (writers (vc_pending s) ts) (length (vc_writeLoops s)) (vc_writeLoop s) \<and>
     owned (readers (vc_pending s) ts) (length (vc_readLoops s)) (vc_readLoop s) \<and>
     \<not> vc_permanent_failure s \<and>
     (vc_connected s \<and> vc_sendQueue s \<noteq> [] \<longrightarrow>
        vc_writeLoop s \<noteq> None \<or> Check_Connected \<in> set ts \<or> Set_Connected \<in> set ts \<or> Start_Writing \<in> set ts) \<and>
     (vc_messageStore s \<noteq> [] \<longrightarrow> vc_readLoop s \<noteq> None \<or> Start_Reading \<in> set ts)"

lemma count_list_mset: "count_list xs x = count (mset xs) x"
  by (induction xs) auto

lemma agents_mset:
  assumes "mset ts = mset ts'" and "mset ps = mset ps'"
  shows "writers ps ts = writers ps' ts'" and "readers ps ts = readers ps' ts'"
proof -
  have "mset (map f ts) = mset (map f ts')" "mset (map g ps) = mset (map g ps')"
    for f :: "task \<Rightarrow> nat option" and g :: "pending \<Rightarrow> nat option"
    using assms by simp_all
  then show "writers ps ts = writers ps' ts'" and "readers ps ts = readers ps' ts'"
    by (simp_all add: writers_def readers_def fun_eq_iff count_list_mset del: mset_map)
qed

lemma threads_inv_mset: "mset ts = mset ts' \<Longrightarrow> threads_inv s ts = threads_inv s ts'"
  using agents_mset [of ts ts' "vc_pending s" "vc_pending s"] mset_eq_setD [of ts ts'] by (simp add: threads_inv_def)

lemma count_list_append: "count_list (xs @ ys) x = count_list xs x + count_list ys x"
  by (induction xs) auto

lemma agents_task:
  "writers ps (t # ts) =
     (case task_writer t of None \<Rightarrow> writers ps ts | Some w \<Rightarrow> (writers ps ts)(w := Suc (writers ps ts w)))"
  "readers ps (t # ts) =
     (case task_reader t of None \<Rightarrow> readers ps ts | Some r \<Rightarrow> (readers ps ts)(r := Suc (readers ps ts r)))"
  by (cases "task_writer t"; simp add: writers_def fun_eq_iff)
    (cases "task_reader t"; simp add: readers_def fun_eq_iff)

lemma agents_op:
  "writers (p # ps) ts =
     (case op_writer p of None \<Rightarrow> writers ps ts | Some w \<Rightarrow> (writers ps ts)(w := Suc (writers ps ts w)))"
  "readers (p # ps) ts =
     (case op_reader p of None \<Rightarrow> readers ps ts | Some r \<Rightarrow> (readers ps ts)(r := Suc (readers ps ts r)))"
  by (cases "op_writer p"; simp add: writers_def fun_eq_iff)
    (cases "op_reader p"; simp add: readers_def fun_eq_iff)

lemma agents_pend:
  "writers (ps @ [p, q]) ts = writers (p # q # ps) ts" "writers (ps @ [p]) ts = writers (p # ps) ts"
  "readers (ps @ [p, q]) ts = readers (p # q # ps) ts" "readers (ps @ [p]) ts = readers (p # ps) ts"
  by (rule agents_mset; simp)+

lemma agents_remove:
  assumes "p \<in> set ps"
  shows "writers ps ts = (case op_writer p of None \<Rightarrow> writers (remove1 p ps) ts
      | Some w \<Rightarrow> (writers (remove1 p ps) ts)(w := Suc (writers (remove1 p ps) ts w)))"
    and "readers ps ts = (case op_reader p of None \<Rightarrow> readers (remove1 p ps) ts
      | Some r \<Rightarrow> (readers (remove1 p ps) ts)(r := Suc (readers (remove1 p ps) ts r)))"
proof -
  have "mset ps = mset (p # remove1 p ps)" using assms by simp
  then have "writers ps ts = writers (p # remove1 p ps) ts" "readers ps ts = readers (p # remove1 p ps) ts"
    using agents_mset [OF refl] by blast+
  then show "writers ps ts = (case op_writer p of None \<Rightarrow> writers (remove1 p ps) ts
      | Some w \<Rightarrow> (writers (remove1 p ps) ts)(w := Suc (writers (remove1 p ps) ts w)))"
    and "readers ps ts = (case op_reader p of None \<Rightarrow> readers (remove1 p ps) ts
      | Some r \<Rightarrow> (readers (remove1 p ps) ts)(r := Suc (readers (remove1 p ps) ts r)))"
    by (simp_all only: agents_op)
qed

lemma owned_new: "owned f n None \<Longrightarrow> owned (f(n := Suc (f n))) (Suc n) (Some n)"
  by (auto simp: owned_def)

lemma owned_at:
  assumes "owned (f(k := Suc (f k))) n c"
  shows "f k = 0" "l \<noteq> k \<Longrightarrow> f l \<le> 1" "l \<noteq> k \<Longrightarrow> n \<le> l \<Longrightarrow> f l = 0" "l \<noteq> k \<Longrightarrow> c = Some l \<Longrightarrow> f l = 1"
proof -
  have a: "(f(k := Suc (f k))) l \<le> 1" "n \<le> l \<Longrightarrow> (f(k := Suc (f k))) l = 0"
    "c = Some l \<Longrightarrow> (f(k := Suc (f k))) l = 1" for l
    using assms unfolding owned_def by blast+
  show "f k = 0" using a(1) [of k] by simp
  show "l \<noteq> k \<Longrightarrow> f l \<le> 1" using a(1) [of l] by simp
  show "l \<noteq> k \<Longrightarrow> n \<le> l \<Longrightarrow> f l = 0" using a(2) [of l] by simp
  show "l \<noteq> k \<Longrightarrow> c = Some l \<Longrightarrow> f l = 1" using a(3) [of l] by simp
qed

lemma owned_other: "owned (f(k := Suc (f k))) n c \<Longrightarrow> c \<noteq> Some k \<Longrightarrow> owned f n c"
  unfolding owned_def [of f] using owned_at [of f k n c] by (metis le0)

lemma owned_stop: "owned (f(k := Suc (f k))) n c \<Longrightarrow> owned f n None"
  unfolding owned_def [of f] using owned_at [of f k n c] by (metis le0 option.distinct(1))

section \<open>The tasks keep the invariant\<close>

lemma processChunk_same:
  assumes "processChunk L c s = Inr s'"
  shows "vc_sendQueue s' = vc_sendQueue s \<and> vc_pending s' = vc_pending s \<and> vc_connected s' = vc_connected s \<and>
    vc_readLoop s' = vc_readLoop s \<and> vc_writeLoop s' = vc_writeLoop s \<and> vc_readLoops s' = vc_readLoops s \<and>
    vc_writeLoops s' = vc_writeLoops s \<and> vc_permanent_failure s' = vc_permanent_failure s \<and>
    (vc_messageStore s' \<noteq> [] \<longrightarrow> vc_messageStore s \<noteq> [])"
proof -
  have inv: "vc_sendQueue t' = vc_sendQueue t \<and> vc_pending t' = vc_pending t \<and> vc_connected t' = vc_connected t \<and>
    vc_readLoop t' = vc_readLoop t \<and> vc_writeLoop t' = vc_writeLoop t \<and> vc_readLoops t' = vc_readLoops t \<and>
    vc_writeLoops t' = vc_writeLoops t \<and> vc_permanent_failure t' = vc_permanent_failure t \<and>
    vc_messageStore t' = vc_messageStore t" if i: "invoke_item resp 0 p t = Inr t'" for resp p t and t' :: "'a VstConnection"
  proof -
    obtain c call where "invoke (ri_callback (vc_items t ! p)) = Inr (c, call)"
      using i by (cases "invoke (ri_callback (vc_items t ! p))") (auto simp: invoke_item_def Let_def)
    with i show ?thesis
      by (cases call; cases "the call") (auto simp: invoke_item_def run_callback_def set_item_def Let_def)
  qed
  have rm: "removeByID i m \<noteq> [] \<longrightarrow> m \<noteq> []" for i m by (cases m) (simp_all add: removeByID_def)
  show ?thesis
  proof (cases "findByID (ch_messageID c) (vc_messageStore s)")
    case None
    with assms show ?thesis by (simp add: processChunk_def)
  next
    case (Some p)
    then obtain it1 it b where it: "addChunk c (vc_items s ! p) = Inr it1" "assemble it1 = Inr (it, b)"
      using assms by (auto simp: processChunk_def)
    show ?thesis
    proof (cases b)
      case None
      with assms Some it show ?thesis by (auto simp: processChunk_def Let_def set_item_def)
    next
      case (Some buf)
      then obtain resp where "invoke_item (Some resp) 0 p
          ((set_item p it s)\<lparr>vc_messageStore := removeByID (ri_messageID it) (vc_messageStore s)\<rparr>) = Inr s'"
        using assms it \<open>findByID _ _ = Some p\<close> by (auto simp: processChunk_def Let_def set_item_def)
      from inv [OF this] rm show ?thesis by (simp add: set_item_def)
    qed
  qed
qed

lemma shouldStopReading_cases:
  assumes "shouldStopReading r s = Inr (s', stop)"
  obtains (old) "vc_readLoop s \<noteq> Some r \<or> vc_permanent_failure s" and "s' = s" and "stop = None"
  | (idle) "vc_readLoop s = Some r" and "vc_messageStore s = []" and "s' = s\<lparr>vc_readLoop := None\<rparr>" and "stop = None"
  | (go) t where "vc_readLoop s = Some r" and "s' = s" and "stop = Some t"
proof (cases "vc_readLoop s = Some r \<and> \<not> vc_permanent_failure s")
  case False
  with assms old show thesis by (auto simp: shouldStopReading_def split: if_splits)
next
  case True
  show thesis
  proof (cases "vc_messageStore s = [] \<and> vc_sendQueue s = []")
    case empty: True
    with assms True idle show thesis by (simp add: shouldStopReading_def store_empty_def queue_empty_def)
  next
    case False
    with assms True go show thesis by (auto simp: shouldStopReading_def store_empty_def queue_empty_def)
  qed
qed

lemma issue_write_inv:
  assumes inv: "threads_inv s (Async_Write w p # ts)" and step: "task_step L u (Async_Write w p) s = Inr (s', new)"
  shows "threads_inv s' (new @ ts)"
proof -
  obtain tm where tm: "item_timeout s p = Inr tm"
    using step by (cases "item_timeout s p") (auto simp: issue_write_def Let_def)
  obtain bs where bs: "wire_bytes (vc_items s ! p) = Inr bs"
    using step tm by (cases "wire_bytes (vc_items s ! p)") (auto simp: issue_write_def Let_def pend_def split: option.splits)
  obtain k where k: "wl_socket (vc_writeLoops s ! w) = Some k"
    using step tm by (cases "wl_socket (vc_writeLoops s ! w)") (auto simp: issue_write_def Let_def pend_def)
  have "s' = pend (Writing w p) (pend (Write_Deadline w tm) s
      \<lparr>vc_async_calls := vc_async_calls s + 1, vc_sent := vc_sent s @ [(k, bs)]\<rparr>)" and "new = []"
    using step tm bs k by (simp_all add: issue_write_def Let_def pend_def)
  with inv show ?thesis
    by (simp add: threads_inv_def agents_task agents_op agents_pend pend_def)
qed

lemma next_request_inv:
  assumes inv: "threads_inv s (Next_Request w # ts)" and step: "task_step L u (Next_Request w) s = Inr (s', new)"
  shows "threads_inv s' (new @ ts)"
proof -
  obtain nxt where g: "getNextRequestToSend w s = Inr (s', nxt)"
    and new: "new = (case nxt of None \<Rightarrow> [] | Some p \<Rightarrow> [Start_Reading, Async_Write w p])"
    using step by auto
  show ?thesis using g
  proof (cases rule: getNextRequestToSend_cases)
    case stop
    with inv new show ?thesis by (auto simp: threads_inv_def agents_task intro: owned_other)
  next
    case idle
    with inv new show ?thesis by (auto simp: threads_inv_def agents_task intro: owned_stop)
  next
    case (send p q)
    with inv new show ?thesis by (auto simp: threads_inv_def agents_task)
  qed
qed

lemma next_bytes_inv:
  assumes inv: "threads_inv s (Next_Bytes r # ts)" and step: "task_step L u (Next_Bytes r) s = Inr (s', new)"
  shows "threads_inv s' (new @ ts)"
proof -
  obtain stop where g: "shouldStopReading r s = Inr (s', stop)"
    and new: "new = (case stop of None \<Rightarrow> [] | Some timeout \<Rightarrow> [Async_Read r timeout])"
    using step by auto
  show ?thesis using g
  proof (cases rule: shouldStopReading_cases)
    case old
    with inv new show ?thesis by (auto simp: threads_inv_def agents_task intro: owned_other)
  next
    case idle
    with inv new show ?thesis by (auto simp: threads_inv_def agents_task intro: owned_stop)
  next
    case (go tm)
    with inv new show ?thesis by (auto simp: threads_inv_def agents_task)
  qed
qed

lemma task_inv:
  assumes inv: "threads_inv s (t # ts)" and step: "task_step L u t s = Inr (s', new)"
  shows "threads_inv s' (new @ ts)"
proof (cases t)
  case (Async_Read r tm)
  then have "s' = pend (Reading r) (pend (Read_Deadline r tm) s\<lparr>vc_async_calls := vc_async_calls s + 1\<rparr>)" and "new = []"
    using step by (auto simp: issue_read_def Let_def pend_def split: option.splits)
  with inv Async_Read show ?thesis
    by (simp add: threads_inv_def agents_task agents_op agents_pend pend_def)
next
  case (Read_Chunks r cursor)
  show ?thesis
  proof (cases "isChunkComplete cursor = 0")
    case True
    with assms Read_Chunks show ?thesis by (auto simp: threads_inv_def agents_task)
  next
    case False
    then obtain c where c: "processChunk L c s = Inr s'"
      and "new = [Read_Chunks r (drop (unat (ch_chunkLength c)) cursor)]"
      using step Read_Chunks by auto
    with inv processChunk_same [OF c] Read_Chunks show ?thesis by (auto simp: threads_inv_def agents_task)
  qed
next
  case Start_Writing
  with assms show ?thesis
    by (cases "vc_writeLoop s") (auto simp: threads_inv_def agents_task section_defs Let_def owned_new)
next
  case Start_Reading
  with assms show ?thesis
    by (cases "vc_readLoop s") (auto simp: threads_inv_def agents_task section_defs Let_def owned_new)
next
  case (Next_Request w)
  with assms next_request_inv show ?thesis by blast
next
  case (Async_Write w p)
  with assms issue_write_inv show ?thesis by blast
next
  case (Next_Bytes r)
  with assms next_bytes_inv show ?thesis by blast
qed (use assms in \<open>auto simp: threads_inv_def agents_task queue_add_def\<close>)

section \<open>The steps keep the invariant\<close>

text \<open>What the setup of a connection, and the creation of an item, leave alone.\<close>

definition same_work :: "'u VstConnection \<Rightarrow> 'u VstConnection \<Rightarrow> bool" where
  "same_work s s' \<longleftrightarrow>
     writers (vc_pending s') = writers (vc_pending s) \<and> readers (vc_pending s') = readers (vc_pending s) \<and>
     length (vc_writeLoops s') = length (vc_writeLoops s) \<and> length (vc_readLoops s') = length (vc_readLoops s) \<and>
     vc_writeLoop s' = vc_writeLoop s \<and> vc_readLoop s' = vc_readLoop s \<and>
     vc_permanent_failure s' = vc_permanent_failure s \<and> vc_sendQueue s' = vc_sendQueue s \<and>
     vc_messageStore s' = vc_messageStore s \<and> vc_connected s' = vc_connected s"

lemma same_work_inv: "same_work s s' \<Longrightarrow> threads_inv s ts \<Longrightarrow> threads_inv s' ts"
  by (simp add: same_work_def threads_inv_def)

lemma same_work_trans: "same_work s t \<Longrightarrow> same_work t v \<Longrightarrow> same_work s v"
  by (simp add: same_work_def)

lemma same_work_refl: "same_work s s"
  by (simp add: same_work_def)

lemma pend_same: "op_writer p = None \<Longrightarrow> op_reader p = None \<Longrightarrow> same_work s (pend p s)"
  by (simp add: same_work_def pend_def agents_pend agents_op fun_eq_iff)

lemma take_same:
  "p \<in> set (vc_pending s) \<Longrightarrow> op_writer p = None \<Longrightarrow> op_reader p = None \<Longrightarrow> same_work s (take_op p s)"
  using agents_remove [of p "vc_pending s"] by (simp add: same_work_def take_op_def fun_eq_iff)

lemma createRequestItem_work: "createRequestItem L u req cb s = (s', r) \<Longrightarrow> same_work s s'"
  by (auto simp: createRequestItem_def Let_def same_work_def split: sum.splits)

lemma finishInitialization_work: "finishInitialization s = Inr s' \<Longrightarrow> same_work s s'"
  by (auto simp: finishInitialization_def split: option.splits
      intro!: same_work_trans [OF _ pend_same]) (simp add: same_work_def)

lemma setup_work:
  assumes "setup_event ev" and "enabled ev s" and "handle L u ev s = Inr s'"
  shows "same_work s s'"
proof -
  obtain p where p: "pending_of ev = Some p" "p \<in> set (vc_pending s)" "op_writer p = None" "op_reader p = None"
    using assms(1,2) by (cases ev) (auto simp: enabled_def)
  have "finish ev s = take_op p s" using p(1) by (simp add: finish_def take_op_def)
  then have f: "same_work s (finish ev s)" using take_same [OF p(2-)] by simp
  have r: "run_handler L u ev (finish ev s) = Inr s'" using assms(3) by (simp add: handle_def)
  have "same_work (finish ev s) s'"
  proof (cases ev)
    case (Resolved e eps)
    let ?t = "(finish ev s)\<lparr>vc_endpoints := eps\<rparr>"
    have t: "same_work (finish ev s) ?t" by (simp add: same_work_def)
    show ?thesis
    proof (cases "eps = []")
      case True
      with r Resolved assms(1) show ?thesis
        by (auto simp: resolveCallback_def onFailure_def same_work_def Let_def split: if_splits)
    next
      case False
      with r Resolved assms(1) have "initSocket ?t = Inr s'" by (simp add: resolveCallback_def)
      then have "same_work ?t s'"
        by (auto simp: initSocket_def startConnect_def Let_def intro!: same_work_trans [OF _ pend_same] split: if_splits)
          (simp_all add: same_work_def)
      with t show ?thesis by (rule same_work_trans)
    qed
  next
    case (Connected eps e)
    with r assms(1) show ?thesis
      by (auto simp: asyncConnectCallback_def startSSLHandshake_def finishInitialization_work
          intro: same_work_trans [OF _ pend_same] same_work_refl split: if_splits option.splits)
  next
    case (Handshaken e)
    with r assms(1) show ?thesis by (auto simp: handshakeCallback_def finishInitialization_work)
  qed (use assms(1) in simp_all)
  with f show ?thesis by (rule same_work_trans)
qed

lemma insertAuthentication_work:
  assumes "insertAuthenticationRequests L u s = Inr s'" and "threads_inv s ts"
  shows "threads_inv s' (Set_Connected # ts)"
proof -
  obtain q where "same_work s (s'\<lparr>vc_sendQueue := q\<rparr>)"
  proof (cases "c_authenticationType (vc_configuration s)")
    case Basic
    then obtain w p where c: "createRequestItem L u (auth_request (vc_configuration s)) Auth_Callback s = (w, Inr p)"
      and "s' = w\<lparr>vc_sendQueue := queue_insert p (vc_sendQueue w)\<rparr>"
      using assms(1) by (auto simp: insertAuthenticationRequests_def split: prod.splits sum.splits)
    with createRequestItem_work [OF c] that [of "vc_sendQueue s"] show thesis by (simp add: same_work_def)
  next
    case None_Auth
    with assms(1) have "s' = s" by (simp add: insertAuthenticationRequests_def)
    with that [of "vc_sendQueue s"] show thesis by (simp add: same_work_def)
  next
    case Jwt
    with assms(1) show thesis by (simp add: insertAuthenticationRequests_def)
  qed
  with assms(2) show ?thesis by (auto simp: same_work_def threads_inv_def agents_task)
qed

lemma taken_inv:
  assumes "threads_inv s ts" and "p \<in> set (vc_pending s)" and t: "t \<noteq> Start_Writing" "task_writer t = op_writer p" "task_reader t = op_reader p"
  shows "threads_inv (take_op p s) (t # ts)"
  using assms(1) agents_remove [OF assms(2)] unfolding threads_inv_def take_op_def
  by (auto simp: agents_task t fun_eq_iff split: option.splits)

lemma threads_inv_async: "threads_inv (s\<lparr>vc_async_calls := n\<rparr>) ts = threads_inv s ts"
  by (simp add: threads_inv_def)

lemma threads_inv_set_item: "threads_inv (set_item p item s) ts = threads_inv s ts"
  by (simp add: threads_inv_def set_item_def)

text \<open>The stack of one thread against the others.\<close>

interpretation threads: interleaved threads_inv
  by unfold_locales (rule threads_inv_mset)

lemma thread_step_inv:
  assumes "thread_step L u st st'" and inv: "threads_inv (th_conn st) (concat (th_stacks st))"
  shows "threads_inv (th_conn st') (concat (th_stacks st'))"
  using assms(1)
proof cases
  case (task i ss t ts s s' new)
  have "threads_inv s' (concat (ss[i := new @ ts]))"
    by (rule threads.step_stack [of i ss s]) (use task inv task_inv [OF _ task(5)] in simp_all)
  with task show ?thesis by simp
next
  case (send i ss req cb s s' p)
  have "threads_inv s' (concat (ss[i := [Queue_Add p]]))"
  proof (rule threads.step_stack [of i ss s])
    fix rest assume "threads_inv s (ss ! i @ rest)"
    with send have "threads_inv s' rest" using same_work_inv [OF createRequestItem_work [OF send(5)]] by simp
    then show "threads_inv s' ([Queue_Add p] @ rest)" by (auto simp: threads_inv_def agents_task)
  qed (use send inv in simp_all)
  with send show ?thesis by simp
next
  case (establish i ss ev s s')
  with inv same_work_inv [OF setup_work] show ?thesis by simp
next
  case (header i ss s s')
  have "threads_inv s' (concat (ss[i := [Set_Connected]]))"
  proof (rule threads.step_stack [of i ss s])
    fix rest assume "threads_inv s (ss ! i @ rest)"
    with header have "threads_inv (take_op Writing_Header s) rest"
      using same_work_inv [OF take_same [OF header(5)]] by simp
    then show "threads_inv s' ([Set_Connected] @ rest)" using insertAuthentication_work [OF header(6)] by simp
  qed (use header inv in simp_all)
  with header show ?thesis by simp
next
  case (written i ss w p s s')
  have "threads_inv (set_item p (resetSendData (vc_items s' ! p)) s') (concat (ss[i := [Next_Request w]]))"
    by (rule threads.step_stack [of i ss s])
      (use written inv taken_inv [of s _ "Writing w p" "Next_Request w"] in \<open>simp_all add: threads_inv_async threads_inv_set_item\<close>)
  with written show ?thesis by simp
next
  case (read i ss r s s' bytes)
  let ?t = "Read_Chunks r (rl_receiveBuffer (vc_readLoops s ! r) @ bytes)"
  have "threads_inv s' (concat (ss[i := [?t]]))"
    by (rule threads.step_stack [of i ss s])
      (use read inv taken_inv [of s _ "Reading r" ?t] in \<open>simp_all add: threads_inv_async\<close>)
  with read show ?thesis by simp
qed

lemma threads_start_inv: "threads_inv (th_conn (threads_start conf n)) (concat (th_stacks (threads_start conf n)))"
proof -
  have "concat (replicate n []) = ([] :: task list)" by (induction n) simp_all
  then show ?thesis
    by (simp add: threads_start_def threads_inv_def start_def startResolveHost_def pend_def VstConnection_new_def
        owned_def writers_def readers_def)
qed

lemma threads_reachable_inv:
  "(thread_step L u)\<^sup>*\<^sup>* (threads_start conf n) st \<Longrightarrow> threads_inv (th_conn st) (concat (th_stacks st))"
  by (induction rule: rtranclp_induct) (auto intro: threads_start_inv thread_step_inv)

section \<open>Properties\<close>

text \<open>
  The tasks are the handlers. When a thread is not interrupted, the tasks of \<open>sendRequest\<close>, of the
  completion of a read or a write, and of the end of the setup do exactly what the handlers of
  \<open>VstConnection\<close> do, failures included; so interleaving the tasks is interleaving the code.
\<close>

theorem handlers_are_tasks:
  "sendRequest L u req cb s =
     (case createRequestItem L u req (User_Callback cb) s of
        (t, Inl e) \<Rightarrow> (t, Inl e)
      | (t, Inr p) \<Rightarrow>
          (case run_tasks L u [Queue_Add p] t of
             Inl e \<Rightarrow> (t\<lparr>vc_sendQueue := queue_add p (vc_sendQueue t)\<rparr>, Inl e)
           | Inr s' \<Rightarrow> (s', Inr (ri_messageID (vc_items s' ! p))))) \<and>
   asyncReadCallback L u r (Some bytes) s =
     run_tasks L u [Read_Chunks r (rl_receiveBuffer (vc_readLoops s ! r) @ bytes)]
       (s\<lparr>vc_async_calls := vc_async_calls s - 1\<rparr>) \<and>
   asyncWriteCallback w p False s =
     run_tasks L u [Next_Request w] (set_item p (resetSendData (vc_items s ! p)) (s\<lparr>vc_async_calls := vc_async_calls s - 1\<rparr>)) \<and>
   headerWrittenCallback L u None s =
     bind_res (insertAuthenticationRequests L u s) (run_tasks L u [Set_Connected])"
proof (intro conjI)
  have add: "run_tasks L u [Queue_Add p] t =
      (let t = t\<lparr>vc_sendQueue := queue_add p (vc_sendQueue t)\<rparr> in if vc_connected t then startWriting t else Inr t)" for p t
    using run_Start_Writing [of L u "t\<lparr>vc_sendQueue := queue_add p (vc_sendQueue t)\<rparr>"]
    by (simp add: run_task [of L u "Queue_Add p"] run_task [of L u Check_Connected] Let_def del: run_tasks.simps(2))
  show "sendRequest L u req cb s =
     (case createRequestItem L u req (User_Callback cb) s of
        (t, Inl e) \<Rightarrow> (t, Inl e)
      | (t, Inr p) \<Rightarrow>
          (case run_tasks L u [Queue_Add p] t of
             Inl e \<Rightarrow> (t\<lparr>vc_sendQueue := queue_add p (vc_sendQueue t)\<rparr>, Inl e)
           | Inr s' \<Rightarrow> (s', Inr (ri_messageID (vc_items s' ! p)))))"
    by (simp add: sendRequest_def add Let_def del: run_tasks.simps(2) split: prod.splits sum.splits)
  show "asyncReadCallback L u r (Some bytes) s =
     run_tasks L u [Read_Chunks r (rl_receiveBuffer (vc_readLoops s ! r) @ bytes)]
       (s\<lparr>vc_async_calls := vc_async_calls s - 1\<rparr>)"
    by (simp add: asyncReadCallback_def run_Read_Chunks Let_def del: run_tasks.simps(2))
  show "asyncWriteCallback w p False s =
     run_tasks L u [Next_Request w] (set_item p (resetSendData (vc_items s ! p)) (s\<lparr>vc_async_calls := vc_async_calls s - 1\<rparr>))"
    by (simp add: asyncWriteCallback_def run_Next_Request Let_def del: run_tasks.simps(2))
  show "headerWrittenCallback L u None s =
     bind_res (insertAuthenticationRequests L u s) (run_tasks L u [Set_Connected])"
    by (simp add: headerWrittenCallback_def run_Set_Connected [abs_def] del: run_tasks.simps(2))
qed



end
