(* ===== verification/VstRaces.thy ===== *)
theory VstRaces
  imports VstThreads
begin

text \<open>
  The VST connection under several threads, with failures, timeouts, restarts and callbacks that call
  \<open>sendRequest\<close>. The sections of \<open>src/src/VstConnection.cpp\<close> are finer than the tasks of \<open>VstThreads\<close>:
  \<open>processChunk\<close>, \<open>getNextRequestToSend\<close>, \<open>cancelAll\<close> and the restart of the connection are split at each
  mutex they take and at each callback they call.
  \<^item> A mutex that a handler holds over several sections is a property of the stack of its thread
    (\<open>holds\<close> in \<open>VstRaceCalls\<close>); a section that locks a mutex waits until no thread holds it, its own
    thread included (\<open>needs\<close>): locking a \<open>std::mutex\<close> twice blocks. All other mutexes are held within one section.
  \<^item> Run by one thread, the sections of a handler are the handler of \<open>VstConnection\<close> (\<open>run_sections\<close>).
\<close>

section \<open>Sections\<close>

datatype code_section =
    Work task
  | In_Callback
  | Next_Front nat
  | Next_Store nat item_ptr
  | Next_Remove nat item_ptr
  | Find_Item ChunkHeader
  | Assemble ChunkHeader item_ptr
  | Remove_Item MessageID
  | Respond item_ptr MessageID "byte list"
  | Take_Request item_ptr Error "Response option"
  | Call item_ptr Error "Request option" "Response option"
  | Insert_Front item_ptr
  | Init_Socket
  | Restart_Read nat ErrorCondition
  | Restart_Write nat ErrorCondition
  | Assert_Reader
  | Assert_Writer
  | Stop_Writing
  | Stop_Reading
  | Shutdown_Socket
  | Cancel_All ErrorCondition
  | Cancel_Rest ErrorCondition MessageStore
  | Resolve_Again
  | On_Failure Error string

definition shutdown_sections :: "ErrorCondition \<Rightarrow> code_section list" where
  "shutdown_sections e = [Stop_Writing, Stop_Reading, Shutdown_Socket, Cancel_All e]"

definition restart_sections :: "ErrorCondition \<Rightarrow> code_section list" where
  "restart_sections e = [Assert_Reader, Assert_Writer] @ shutdown_sections e @ [Resolve_Again]"

text \<open>
  What a section does to the connection, and the sections it leaves to be done before those under it
  on the stack. \<open>In_Callback\<close> is the end of a callback of the user, who may do anything before it.
  \<open>Respond\<close> carries all that \<open>createResponse\<close> reads of the item, its id.
\<close>

fun section_step ::
  "velocypack \<Rightarrow> ChunkHeader \<Rightarrow> code_section \<Rightarrow> 'u VstConnection \<Rightarrow> ('u VstConnection \<times> code_section list) res"
where
  "section_step L u (Work (Next_Request w)) s =
     Inr (s, if vc_writeLoop s \<noteq> Some w then [] else if vc_permanent_failure s then [] else [Next_Front w])"
| "section_step L u (Work (Read_Chunks r cursor)) s =
     (if isChunkComplete cursor = 0
      then Inr (s\<lparr>vc_readLoops := (vc_readLoops s)[r := (vc_readLoops s ! r)\<lparr>rl_receiveBuffer := cursor\<rparr>]\<rparr>,
                [Work (Next_Bytes r)])
      else bind_res (readChunkHeader (vc_vstVersion s) u cursor) (\<lambda>chunk.
           Inr (s, [Find_Item chunk, Work (Read_Chunks r (drop (unat (ch_chunkLength chunk)) cursor))])))"
| "section_step L u (Work t) s = bind_res (task_step L u t s) (\<lambda>(s, ts). Inr (s, map Work ts))"
| "section_step L u In_Callback s = Inr (s, [])"
| "section_step L u (Next_Front w) s =
     (case queue_front (vc_sendQueue s) of
        None \<Rightarrow> Inr (s\<lparr>vc_writeLoop := None\<rparr>, [])
      | Some next \<Rightarrow> Inr (s, [Next_Store w next]))"
| "section_step L u (Next_Store w p) s =
     Inr (s\<lparr>vc_messageStore := store_add (\<lambda>p. ri_messageID (vc_items s ! p)) p (vc_messageStore s)\<rparr>,
          [Next_Remove w p])"
| "section_step L u (Next_Remove w p) s =
     bind_res (removeFirst (vc_sendQueue s)) (\<lambda>queue.
     Inr (s\<lparr>vc_sendQueue := queue\<rparr>, [Work Start_Reading, Work (Async_Write w p)]))"
| "section_step L u (Find_Item chunk) s =
     Inr (s, case findByID (ch_messageID chunk) (vc_messageStore s) of None \<Rightarrow> [] | Some p \<Rightarrow> [Assemble chunk p])"
| "section_step L u (Assemble chunk p) s =
     bind_res (addChunk chunk (vc_items s ! p)) (\<lambda>item.
     bind_res (assemble item) (\<lambda>(item, completeBuffer).
     Inr (set_item p item s,
          case completeBuffer of
            None \<Rightarrow> []
          | Some buffer \<Rightarrow> [Remove_Item (ri_messageID item), Respond p (ri_messageID item) buffer])))"
| "section_step L u (Remove_Item i) s = Inr (s\<lparr>vc_messageStore := removeByID i (vc_messageStore s)\<rparr>, [])"
| "section_step L u (Respond p i buffer) s =
     bind_res (response_of L i buffer) (\<lambda>response. Inr (s, [Take_Request p 0 (Some response)]))"
| "section_step L u (Take_Request p e response) s =
     (let item = vc_items s ! p
      in Inr (set_item p (item\<lparr>ri_request := None\<rparr>) s, [Call p e (ri_request item) response]))"
| "section_step L u (Call p e request response) s =
     (let item = vc_items s ! p
      in bind_res (invoke (ri_callback item)) (\<lambda>(callback, call).
         let s = set_item p (item\<lparr>ri_callback := callback\<rparr>) s
         in case call of
              None \<Rightarrow> Inr (s, [])
            | Some cb \<Rightarrow>
                Inr (run_callback
                  \<lparr>d_item = p, d_callback = cb, d_error = e, d_request = request, d_response = response\<rparr> s,
                  [In_Callback])))"
| "section_step L u (Insert_Front p) s = Inr (s\<lparr>vc_sendQueue := queue_insert p (vc_sendQueue s)\<rparr>, [])"
| "section_step L u Init_Socket s = bind_res (initSocket s) (\<lambda>s. Inr (s, []))"
| "section_step L u (Restart_Read r e) s =
     (if vc_readLoop s \<noteq> Some r then Inr (s, [])
      else Inr (s\<lparr>vc_readLoop := None, vc_writeLoop := None\<rparr>, restart_sections e))"
| "section_step L u (Restart_Write w e) s =
     (if vc_writeLoop s \<noteq> Some w then Inr (s, [])
      else Inr (s\<lparr>vc_readLoop := None, vc_writeLoop := None\<rparr>, restart_sections e))"
| "section_step L u Assert_Reader s =
     bind_res (check (vc_readLoop s = None) (Assertion ''!_readLoop._current'')) (\<lambda>_. Inr (s, []))"
| "section_step L u Assert_Writer s =
     bind_res (check (vc_writeLoop s = None) (Assertion ''!_writeLoop._current'')) (\<lambda>_. Inr (s, []))"
| "section_step L u Stop_Writing s = Inr (stopWriting s, [])"
| "section_step L u Stop_Reading s = Inr (stopReading s, [])"
| "section_step L u Shutdown_Socket s = Inr (shutdownSocket s, [])"
| "section_step L u (Cancel_All e) s = Inr (s, [Cancel_Rest e (vc_messageStore s)])"
| "section_step L u (Cancel_Rest e []) s = Inr (s\<lparr>vc_messageStore := []\<rparr>, [])"
| "section_step L u (Cancel_Rest e ((i, p) # m)) s = Inr (s, [Take_Request p (errorToInt e) None, Cancel_Rest e m])"
| "section_step L u Resolve_Again s = Inr (if vc_permanent_failure s then s else startResolveHost s, [])"
| "section_step L u (On_Failure e msg) s =
     Inr (onFailure e msg s, if c_onFailure (vc_configuration s) then [In_Callback] else [])"

text \<open>
  The handler of an event: what it does first, and the sections that follow. (The completion of an
  operation, and what only the thread of the handler can see, is the first step.)
\<close>

fun event_sections ::
  "velocypack \<Rightarrow> ChunkHeader \<Rightarrow> 'u event \<Rightarrow> 'u VstConnection \<Rightarrow> ('u VstConnection \<times> code_section list) res"
where
  "event_sections L u (Send req cb) s =
     (case createRequestItem L u req (User_Callback cb) s of
        (s, Inl e) \<Rightarrow> if fatal e then Inl e else Inr (s, [])
      | (s, Inr p) \<Rightarrow> Inr (s, [Work (Queue_Add p)]))"
| "event_sections L u (Resolved error iterator) s =
     (case error of
        Some msg \<Rightarrow> Inr (s, [On_Failure (errorToInt CouldNotConnect) (''resolved failed: error'' @ msg)])
      | None \<Rightarrow>
          Inr (s\<lparr>vc_endpoints := iterator\<rparr>,
               if iterator = [] then [On_Failure (errorToInt CouldNotConnect) ''unable to resolve endpoints'']
               else [Init_Socket]))"
| "event_sections L u (Connected eps error) s =
     (case error of
        Some msg \<Rightarrow>
          Inr (s, shutdown_sections CanceledDuringReset @
            [On_Failure (errorToInt CouldNotConnect) (''unable to connect -- '' @ msg)])
      | None \<Rightarrow> bind_res (asyncConnectCallback None s) (\<lambda>s. Inr (s, [])))"
| "event_sections L u (Handshaken error) s =
     (case error of
        Some msg \<Rightarrow>
          Inr (s, [Shutdown_Socket,
            On_Failure (errorToInt CouldNotConnect) (''unable to perform ssl handshake: error='' @ msg)])
      | None \<Rightarrow> bind_res (finishInitialization s) (\<lambda>s. Inr (s, [])))"
| "event_sections L u (Header_Written error) s =
     (case error of
        Some msg \<Rightarrow>
          Inr (s\<lparr>vc_connected := False\<rparr>, shutdown_sections CanceledDuringReset @
            [On_Failure (errorToInt CouldNotConnect) (''unable to initialize connection: error='' @ msg)])
      | None \<Rightarrow>
          (case c_authenticationType (vc_configuration s) of
             None_Auth \<Rightarrow> Inr (s, [Work Set_Connected])
           | Basic \<Rightarrow>
               (case createRequestItem L u (auth_request (vc_configuration s)) Auth_Callback s of
                  (s, Inl e) \<Rightarrow> Inl e
                | (s, Inr p) \<Rightarrow> Inr (s, [Insert_Front p, Work Set_Connected]))
           | Jwt \<Rightarrow> Inl (Invalid_argument ''JWT authentication not yet implemented'')))"
| "event_sections L u (Read r outcome) s =
     Inr (s\<lparr>vc_async_calls := vc_async_calls s - 1\<rparr>,
          case outcome of
            None \<Rightarrow> [Restart_Read r VstReadError]
          | Some bytes \<Rightarrow> [Work (Read_Chunks r (rl_receiveBuffer (vc_readLoops s ! r) @ bytes))])"
| "event_sections L u (Read_Timer r t error) s = Inr (s, if error then [] else [Restart_Read r Timeout])"
| "event_sections L u (Written w p error) s =
     (let s = s\<lparr>vc_async_calls := vc_async_calls s - 1\<rparr>
      in if error
         then Inr (s, [Remove_Item (ri_messageID (vc_items s ! p)),
                Take_Request p (errorToInt VstWriteError) None, Restart_Write w VstWriteError])
         else Inr (set_item p (resetSendData (vc_items s ! p)) s, [Work (Next_Request w)]))"
| "event_sections L u (Write_Timer w t error) s = Inr (s, if error then [] else [Restart_Write w Timeout])"

section \<open>One thread\<close>

text \<open>A section with few others after it; only a restart cancels an amount of items that is not known in advance.\<close>

fun cancels :: "code_section \<Rightarrow> nat" where
  "cancels (Restart_Read r e) = 1"
| "cancels (Restart_Write w e) = 1"
| "cancels (Cancel_All e) = 1"
| "cancels _ = 0"

fun section_weight :: "code_section \<Rightarrow> nat" where
  "section_weight (Work (Queue_Add p)) = 11"
| "section_weight (Work Check_Connected) = 10"
| "section_weight (Work Set_Connected) = 14"
| "section_weight (Work Start_Writing) = 9"
| "section_weight (Work (Next_Request w)) = 8"
| "section_weight (Work (Async_Write w p)) = 1"
| "section_weight (Work Start_Reading) = 3"
| "section_weight (Work (Next_Bytes r)) = 2"
| "section_weight (Work (Async_Read r t)) = 1"
| "section_weight (Work (Read_Chunks r cursor)) = 3 + 8 * length cursor"
| "section_weight (Next_Front w) = 7"
| "section_weight (Next_Store w p) = 6"
| "section_weight (Next_Remove w p) = 5"
| "section_weight (Find_Item c) = 7"
| "section_weight (Assemble c p) = 6"
| "section_weight (Respond p i b) = 4"
| "section_weight (Take_Request p e r) = 3"
| "section_weight (Call p e q r) = 2"
| "section_weight (Restart_Read r e) = 10"
| "section_weight (Restart_Write w e) = 10"
| "section_weight (Cancel_Rest e m) = 5 * length m + 1"
| "section_weight (On_Failure e msg) = 2"
| "section_weight _ = 1"

lemma Read_Chunks_sections:
  assumes "section_step L u (Work (Read_Chunks r cursor)) s = Inr (s', new)"
  shows "sum_list (map section_weight new) < section_weight (Work (Read_Chunks r cursor)) \<and>
    sum_list (map cancels new) = 0"
proof (cases "isChunkComplete cursor = 0")
  case False
  then obtain c where c: "readChunkHeader (vc_vstVersion s) u cursor = Inr c"
    and new: "new = [Find_Item c, Work (Read_Chunks r (drop (unat (ch_chunkLength c)) cursor))]"
    using assms by auto
  moreover have "0 < length cursor" using False by (auto simp: isChunkComplete_def)
  with False have "7 + 8 * (length cursor - isChunkComplete cursor) < 8 * length cursor" by arith
  ultimately show ?thesis using readChunkHeader_length [OF c False] by simp
qed (use assms in auto)

lemma Work_sections:
  assumes "section_step L u (Work t) s = Inr (s', new)" and "\<forall>w. t \<noteq> Next_Request w" and "\<forall>r c. t \<noteq> Read_Chunks r c"
  obtains ts where "task_step L u t s = Inr (s', ts)" and "new = map Work ts"
  using assms by (cases t; cases "task_step L u t s") auto

lemma section_decreases:
  assumes "section_step L u t s = Inr (s', new)"
  shows "sum_list (map cancels new) < cancels t \<or>
    sum_list (map cancels new) = cancels t \<and> sum_list (map section_weight new) < section_weight t"
proof (cases t)
  case (Work k)
  show ?thesis
  proof (cases "(\<exists>w. k = Next_Request w) \<or> (\<exists>r c. k = Read_Chunks r c)")
    case True
    then show ?thesis
    proof (elim disjE exE)
      fix r c assume "k = Read_Chunks r c"
      with Read_Chunks_sections [of L u r c s s' new] assms Work show ?thesis by simp
    qed (use assms Work in \<open>auto split: if_splits\<close>)
  next
    case False
    then obtain ts where ts: "task_step L u k s = Inr (s', ts)" "new = map Work ts"
      using Work_sections [of L u k s s' new] assms Work by blast
    have "sum_list (map cancels (map Work ts)) = 0" by (induction ts) simp_all
    moreover have "sum_list (map section_weight (map Work ts)) < section_weight (Work k)"
      using ts(1) False Async_done [of L u] by (cases k) (auto split: option.splits if_splits prod.splits simp del: task_step.simps(6,9) dest: Async_done)
    ultimately show ?thesis using ts(2) Work by simp
  qed
next
  case (Cancel_Rest e m)
  with assms show ?thesis by (cases m) auto
next
  case (Assemble c p)
  with assms have "new = [] \<or> (\<exists>i b. new = [Remove_Item i, Respond p i b])"
    by (auto simp: bind_res_def split: sum.splits prod.splits option.splits)
  with Assemble show ?thesis by auto
next
  case (Call p e q r)
  with assms show ?thesis by (auto simp: Let_def invoke_def check_def split: if_splits option.splits)
next
  case (Restart_Read r e)
  with assms show ?thesis by (auto simp: restart_sections_def shutdown_sections_def split: if_splits)
next
  case (Restart_Write r e)
  with assms show ?thesis by (auto simp: restart_sections_def shutdown_sections_def split: if_splits)
next
  case (Find_Item c)
  with assms show ?thesis by (auto split: option.splits)
next
  case (Respond p i b)
  with assms show ?thesis by auto
next
  case (Next_Remove w p)
  with assms show ?thesis by auto
next
  case Init_Socket
  with assms show ?thesis by auto
next
  case (Next_Front w)
  with assms show ?thesis by (auto split: option.splits)
next
  case (Take_Request p e r)
  with assms show ?thesis by (auto simp: Let_def)
qed (use assms in \<open>auto simp: check_def split: if_splits\<close>)

function run_sections ::
  "velocypack \<Rightarrow> ChunkHeader \<Rightarrow> code_section list \<Rightarrow> 'u VstConnection \<Rightarrow> 'u VstConnection res"
where
  "run_sections L u [] s = Inr s"
| "run_sections L u (t # ts) s = bind_res (section_step L u t s) (\<lambda>(s', new). run_sections L u (new @ ts) s')"
  by pat_completeness auto
termination
  by (relation "measures [\<lambda>(L, u, ts, s). sum_list (map cancels ts), \<lambda>(L, u, ts, s). sum_list (map section_weight ts)]")
    (auto dest!: section_decreases)

lemma run_sections_append:
  "run_sections L u (ts @ ts') s = bind_res (run_sections L u ts s) (run_sections L u ts')"
proof (induction L u ts s rule: run_sections.induct)
  case (2 L u t ts s)
  then show ?case by (cases "section_step L u t s") auto
qed simp

declare run_sections.simps(2) [simp del]

lemma run_section:
  "section_step L u t s = Inr (s', new) \<Longrightarrow> run_sections L u (t # ts) s = run_sections L u (new @ ts) s'"
  "section_step L u t s = Inl e \<Longrightarrow> run_sections L u (t # ts) s = Inl e"
  by (simp_all add: run_sections.simps(2))

lemma run_next_request:
  "run_sections L u (Work (Next_Request w) # ts) s =
     bind_res (getNextRequestToSend w s) (\<lambda>(s, next).
     run_sections L u ((case next of None \<Rightarrow> [] | Some p \<Rightarrow> [Work Start_Reading, Work (Async_Write w p)]) @ ts) s)"
proof (cases "vc_sendQueue s")
  case (Cons p q)
  then show ?thesis
    by (simp add: run_section getNextRequestToSend_def queue_front_def removeFirst_def Let_def)
qed (simp add: run_section getNextRequestToSend_def queue_front_def Let_def)

lemma run_respond:
  "run_sections L u (Take_Request p e response # ts) s = bind_res (invoke_item response e p s) (run_sections L u ts)"
proof -
  let ?item = "vc_items s ! p" and ?t = "set_item p ((vc_items s ! p)\<lparr>ri_request := None\<rparr>) s"
  have cb: "ri_callback (vc_items ?t ! p) = ri_callback ?item"
    by (cases "p < length (vc_items s)") (simp_all add: set_item_def list_update_beyond not_less)
  have swap: "item\<lparr>ri_request := None, ri_callback := c\<rparr> = item\<lparr>ri_callback := c, ri_request := None\<rparr>"
    for item :: "'a Callback RequestItem" and c
    by (cases item) simp
  have set: "set_item p ((vc_items ?t ! p)\<lparr>ri_callback := c\<rparr>) ?t =
      set_item p (?item\<lparr>ri_callback := c, ri_request := None\<rparr>) s" for c
    by (cases "p < length (vc_items s)") (simp_all add: set_item_def list_update_beyond not_less swap)
  show ?thesis
  proof (cases "invoke (ri_callback ?item)")
    case (Inl e')
    then show ?thesis by (simp add: run_section Let_def cb invoke_item_def)
  next
    case (Inr x)
    obtain c call where x: "x = (c, call)" by fastforce
    show ?thesis
      by (cases call) (use Inr x in \<open>simp_all add: run_section Let_def cb set invoke_item_def\<close>)
  qed
qed

lemma bind_res_step:
  "bind_res r g = Inl e \<Longrightarrow> bind_res r (\<lambda>x. bind_res (g x) f) = Inl e"
  "bind_res r g = Inr y \<Longrightarrow> bind_res r (\<lambda>x. bind_res (g x) f) = f y"
  by (simp_all only: bind_res_assoc [symmetric] bind_res_simps)

lemma run_find_item:
  "run_sections L u (Find_Item chunk # ts) s = bind_res (processChunk L chunk s) (run_sections L u ts)"
proof (cases "findByID (ch_messageID chunk) (vc_messageStore s)")
  case None
  then show ?thesis by (simp add: run_section processChunk_def)
next
  case (Some p)
  show ?thesis
  proof (cases "bind_res (addChunk chunk (vc_items s ! p)) assemble")
    case (Inl e)
    with Some show ?thesis by (simp add: run_section processChunk_def bind_res_step(1) [OF Inl])
  next
    case (Inr x)
    obtain item b where x: "x = (item, b)" by fastforce
    note asm = bind_res_step(2) [OF Inr [unfolded x]]
    show ?thesis
    proof (cases b)
      case None
      with Some show ?thesis by (simp add: asm run_section processChunk_def)
    next
      case (Some buffer)
      with \<open>findByID _ _ = Some p\<close> show ?thesis
        by (cases "response_of L (ri_messageID item) buffer")
          (simp_all add: asm run_section run_respond processChunk_def createResponse_eq set_item_def)
    qed
  qed
qed

lemma run_work: "run_sections L u (map Work ts) s = run_tasks L u ts s"
proof (induction L u ts s rule: run_tasks.induct)
  case (2 L u t ts s)
  then have IH: "run_sections L u (map Work (new @ ts)) s' = run_tasks L u (new @ ts) s'"
    if "task_step L u t s = Inr (s', new)" for s' new
    using that by blast
  show ?case
  proof (cases "(\<exists>w. t = Next_Request w) \<or> (\<exists>r c. t = Read_Chunks r c)")
    case True
    then show ?thesis
    proof (elim disjE exE)
      fix w assume t: "t = Next_Request w"
      show ?thesis
      proof (cases "getNextRequestToSend w s")
        case (Inr x)
        with IH t show ?thesis by (cases "snd x") (auto simp: run_next_request split: prod.splits)
      qed (simp add: t run_next_request)
    next
      fix r c assume t: "t = Read_Chunks r c"
      show ?thesis
      proof (cases "isChunkComplete c = 0")
        case True
        have "run_tasks L u (t # ts) s = run_tasks L u (Next_Bytes r # ts)
            (s\<lparr>vc_readLoops := (vc_readLoops s)[r := (vc_readLoops s ! r)\<lparr>rl_receiveBuffer := c\<rparr>]\<rparr>)"
          by (simp add: t True)
        with IH t True show ?thesis by (simp add: run_section del: run_tasks.simps(2))
      next
        case False
        show ?thesis
        proof (cases "readChunkHeader (vc_vstVersion s) u c")
          case (Inr chunk)
          with IH t False show ?thesis
            by (cases "processChunk L chunk s") (simp_all add: run_section run_find_item)
        qed (use t False in \<open>simp add: run_section\<close>)
      qed
    qed
  next
    case False
    then have step: "section_step L u (Work t) s = bind_res (task_step L u t s) (\<lambda>(s, ts). Inr (s, map Work ts))"
      by (cases t) auto
    show ?thesis
      by (cases "task_step L u t s") (use IH step in \<open>auto simp: run_section\<close>)
  qed
qed simp

lemma run_cancel:
  "run_sections L u (Cancel_Rest e m # ts) s =
     bind_res (cancel_loop (invoke_item None (errorToInt e)) m s) (\<lambda>s. run_sections L u ts (s\<lparr>vc_messageStore := []\<rparr>))"
proof (induction m arbitrary: s)
  case (Cons a m)
  then show ?case
    by (cases a; cases "invoke_item None (errorToInt e) (snd a) s") (simp_all add: run_section run_respond)
qed (simp add: run_section)

lemma run_shutdown:
  "run_sections L u (shutdown_sections e @ ts) s = bind_res (shutdownConnection e s) (run_sections L u ts)"
  by (simp add: shutdown_sections_def run_section run_cancel shutdownConnection_def cancelAll_def bind_res_assoc
      stopReading_def stopWriting_def shutdownSocket_def)

lemma run_restart:
  "run_sections L u (restart_sections e) s = restartConnection e s"
proof (cases "vc_readLoop s = None \<and> vc_writeLoop s = None")
  case True
  then show ?thesis
    by (cases "shutdownConnection e s")
      (simp_all add: restart_sections_def run_section run_shutdown restartConnection_def check_def)
next
  case False
  then show ?thesis
    by (cases "vc_readLoop s"; cases "vc_writeLoop s")
      (simp_all add: restart_sections_def run_section restartConnection_def check_def)
qed

lemma run_restart_loops:
  "run_sections L u [Restart_Read r e] = restartConnection_ReadLoop r e"
  "run_sections L u [Restart_Write w e] = restartConnection_WriteLoop w e"
  by (simp_all add: fun_eq_iff run_section run_restart restartConnection_ReadLoop_def restartConnection_WriteLoop_def)

lemma run_on_failure: "run_sections L u [On_Failure e msg] s = Inr (onFailure e msg s)"
  by (simp add: run_section)

lemma run_work1: "run_sections L u [Work t] s = run_tasks L u [t] s"
  using run_work [of L u "[t]"] by simp

lemma run_work_returns:
  "run_sections L u [Work (Read_Chunks r cursor)] s = bind_res (read_chunks L u cursor s) (\<lambda>(rest, s).
     readNextBytes r (s\<lparr>vc_readLoops := (vc_readLoops s)[r := (vc_readLoops s ! r)\<lparr>rl_receiveBuffer := rest\<rparr>]\<rparr>))"
  "run_sections L u [Work (Next_Request w)] s = sendNextRequest w s"
  "run_sections L u [Work Set_Connected] s = bind_res (startWriting (s\<lparr>vc_connected := True\<rparr>)) startReading"
  by (simp_all only: run_work1 run_Read_Chunks run_Next_Request run_Set_Connected)

lemma run_init_socket: "run_sections L u [Init_Socket] s = initSocket s"
  by (cases "initSocket s") (simp_all add: run_section)

definition run_event ::
  "velocypack \<Rightarrow> ChunkHeader \<Rightarrow> 'u event \<Rightarrow> 'u VstConnection \<Rightarrow> 'u VstConnection res"
where
  "run_event L u ev s = bind_res (event_sections L u ev (finish ev s)) (\<lambda>(s', ts). run_sections L u ts s')"

lemma run_event_setup:
  "run_event L u (Resolved e eps) s = handle L u (Resolved e eps) s"
  "run_event L u (Connected eps e) s = handle L u (Connected eps e) s"
  "run_event L u (Handshaken e) s = handle L u (Handshaken e) s"
  "run_event L u (Header_Written e) s = handle L u (Header_Written e) s"
proof -
  show "run_event L u (Resolved e eps) s = handle L u (Resolved e eps) s"
    by (cases e) (simp_all add: run_event_def handle_def resolveCallback_def run_init_socket run_on_failure)
  show "run_event L u (Connected eps e) s = handle L u (Connected eps e) s"
    by (cases e) (auto simp: run_event_def handle_def asyncConnectCallback_def run_shutdown run_on_failure bind_res_def
        split: sum.splits)
  show "run_event L u (Handshaken e) s = handle L u (Handshaken e) s"
    by (cases e) (auto simp: run_event_def handle_def handshakeCallback_def run_section run_on_failure bind_res_def
        split: sum.splits)
  show "run_event L u (Header_Written e) s = handle L u (Header_Written e) s"
    by (cases e) (auto simp: run_event_def handle_def headerWrittenCallback_def insertAuthenticationRequests_def run_shutdown
        run_on_failure run_work_returns run_section bind_res_def split: AuthenticationType.splits prod.splits sum.splits)
qed

lemma run_event_io:
  "run_event L u (Read r b) s = handle L u (Read r b) s"
  "run_event L u (Read_Timer r t error) s = handle L u (Read_Timer r t error) s"
  "run_event L u (Written w p error) s = handle L u (Written w p error) s"
  "run_event L u (Write_Timer w t error) s = handle L u (Write_Timer w t error) s"
proof -
  show "run_event L u (Read r b) s = handle L u (Read r b) s"
    by (cases b) (simp_all add: run_event_def handle_def asyncReadCallback_def run_restart_loops run_work_returns Let_def)
  show "run_event L u (Written w p error) s = handle L u (Written w p error) s"
    by (simp add: run_event_def handle_def asyncWriteCallback_def run_work_returns run_section run_respond run_restart_loops
        set_item_def [of _ _ "_\<lparr>vc_async_calls := _\<rparr>"] Let_def)
qed (simp_all add: run_event_def handle_def readDeadlineHandler_def writeDeadlineHandler_def run_restart_loops)

lemma run_event_send:
  assumes "run_event L u (Send req cb) s = Inr s'"
  shows "handle L u (Send req cb) s = Inr s'"
proof (cases "createRequestItem L u req (User_Callback cb) s")
  case (Pair t r)
  have "finish (Send req cb) s = s" by (simp add: finish_def)
  show ?thesis
  proof (cases r)
    case (Inr p)
    have "run_sections L u [Work (Queue_Add p)] t = (let t = t\<lparr>vc_sendQueue := queue_add p (vc_sendQueue t)\<rparr>
        in if vc_connected t then startWriting t else Inr t)"
      using run_Start_Writing [of L u "t\<lparr>vc_sendQueue := queue_add p (vc_sendQueue t)\<rparr>"]
      by (simp add: run_work1 run_task [of L u "Queue_Add p"] run_task [of L u Check_Connected] Let_def del: run_tasks.simps(2))
    with assms Pair Inr \<open>finish _ s = s\<close> show ?thesis
      by (auto simp: run_event_def handle_def sendRequest_def Let_def split: if_splits)
  qed (use assms Pair \<open>finish _ s = s\<close> in \<open>auto simp: run_event_def handle_def sendRequest_def split: if_splits\<close>)
qed



end
