(* ===== verification/VstRaceCalls.thy ===== *)
theory VstRaceCalls
  imports VstRaces Interleaving
begin

text \<open>
  Threads that interleave the sections of \<open>VstRaces\<close>, with the two mutexes that are held over several of
  them: the relation \<open>race_step\<close>. Its invariant \<open>calls_inv\<close> is about the items that the connection and
  the sections point to, and about their callbacks, whatever the authentication.
\<close>

section \<open>Threads\<close>

text \<open>The mutexes that can be held over several sections: that of the write loop and that of the store.\<close>

datatype mutex = Write_Mutex | Store_Mutex

fun needs :: "code_section \<Rightarrow> mutex set" where
  "needs (Work Start_Writing) = {Write_Mutex}"
| "needs (Work (Next_Request w)) = {Write_Mutex}"
| "needs (Work (Next_Bytes r)) = {Store_Mutex}"
| "needs (Next_Store w p) = {Store_Mutex}"
| "needs (Find_Item c) = {Store_Mutex}"
| "needs (Remove_Item i) = {Store_Mutex}"
| "needs (Restart_Read r e) = {Write_Mutex}"
| "needs (Restart_Write w e) = {Write_Mutex}"
| "needs Stop_Writing = {Write_Mutex}"
| "needs (Cancel_All e) = {Store_Mutex}"
| "needs _ = {}"

fun holds :: "code_section \<Rightarrow> mutex set" where
  "holds (Next_Front w) = {Write_Mutex}"
| "holds (Next_Store w p) = {Write_Mutex}"
| "holds (Next_Remove w p) = {Write_Mutex}"
| "holds (Cancel_Rest e m) = {Store_Mutex}"
| "holds _ = {}"

definition locked :: "code_section list list \<Rightarrow> mutex set" where
  "locked ss = (\<Union>ts \<in> set ss. \<Union>t \<in> set ts. holds t)"

record 'u races =
  ra_conn :: "'u VstConnection"
  ra_stacks :: "code_section list list"

text \<open>
  A thread runs its next section; calls \<open>sendRequest\<close>, if it is idle or in a callback; or, if it is idle,
  starts the handler of an event.
\<close>

inductive race_step :: "velocypack \<Rightarrow> ChunkHeader \<Rightarrow> 'u races \<Rightarrow> 'u races \<Rightarrow> bool"
  for L :: velocypack and u :: ChunkHeader
where
  run: "i < length ss \<Longrightarrow> ss ! i = t # ts \<Longrightarrow> needs t \<inter> locked ss = {} \<Longrightarrow> section_step L u t s = Inr (s', new) \<Longrightarrow>
     race_step L u \<lparr>ra_conn = s, ra_stacks = ss\<rparr> \<lparr>ra_conn = s', ra_stacks = ss[i := new @ ts]\<rparr>"
| send: "i < length ss \<Longrightarrow> ss ! i = [] \<or> (\<exists>ts. ss ! i = In_Callback # ts) \<Longrightarrow> ids_left s \<Longrightarrow>
     createRequestItem L u req (User_Callback cb) s = (s', Inr p) \<Longrightarrow>
     race_step L u \<lparr>ra_conn = s, ra_stacks = ss\<rparr> \<lparr>ra_conn = s', ra_stacks = ss[i := Work (Queue_Add p) # ss ! i]\<rparr>"
| event: "i < length ss \<Longrightarrow> ss ! i = [] \<Longrightarrow> pending_of ev \<noteq> None \<Longrightarrow> enabled ev s \<Longrightarrow> ids_left s \<Longrightarrow>
     event_sections L u ev (finish ev s) = Inr (s', new) \<Longrightarrow>
     race_step L u \<lparr>ra_conn = s, ra_stacks = ss\<rparr> \<lparr>ra_conn = s', ra_stacks = ss[i := new]\<rparr>"

text \<open>\<open>n\<close> idle threads and a connection in some state.\<close>

definition race_threads :: "nat \<Rightarrow> 'u VstConnection \<Rightarrow> 'u races" where
  "race_threads n s = \<lparr>ra_conn = s, ra_stacks = replicate n []\<rparr>"

section \<open>Callbacks\<close>

definition stored :: "MessageStore \<Rightarrow> item_ptr set" where
  "stored m = snd ` set m"

lemma stored_simps [simp]: "stored [] = {}" "stored ((i, p) # m) = insert p (stored m)"
  by (simp_all add: stored_def)

lemma stored_remove: "stored (removeByID i m) \<subseteq> stored m"
proof -
  have "set (map_erase i m) \<subseteq> set m" by (induction m rule: map_erase.induct) auto
  then show ?thesis by (auto simp: removeByID_def stored_def)
qed

lemma stored_add: "stored (store_add key p m) \<subseteq> insert p (stored m)"
proof -
  have "set (map_emplace k p m) \<subseteq> insert (k, p) (set m)" for k by (induction k p m rule: map_emplace.induct) auto
  then show ?thesis by (force simp: store_add_def stored_def)
qed

lemma stored_find: "findByID i m = Some p \<Longrightarrow> p \<in> stored m"
  by (auto simp: findByID_def map_find_def stored_def dest!: map_of_SomeD intro: rev_image_eqI)

text \<open>The items that a section works on.\<close>

fun refers :: "code_section \<Rightarrow> item_ptr set" where
  "refers (Work (Queue_Add p)) = {p}"
| "refers (Work (Async_Write w p)) = {p}"
| "refers (Next_Store w p) = {p}"
| "refers (Next_Remove w p) = {p}"
| "refers (Assemble c p) = {p}"
| "refers (Respond p i b) = {p}"
| "refers (Take_Request p e r) = {p}"
| "refers (Call p e q r) = {p}"
| "refers (Insert_Front p) = {p}"
| "refers (Cancel_Rest e m) = stored m"
| "refers _ = {}"

fun op_refers :: "pending \<Rightarrow> item_ptr set" where
  "op_refers (Writing w p) = {p}"
| "op_refers _ = {}"

definition pointers :: "'u VstConnection \<Rightarrow> item_ptr set" where
  "pointers s = set (vc_sendQueue s) \<union> stored (vc_messageStore s) \<union> (\<Union>p \<in> set (vc_pending s). op_refers p)"

definition calls_inv :: "'u VstConnection \<Rightarrow> code_section list \<Rightarrow> bool" where
  "calls_inv s ts \<longleftrightarrow>
     pointers s \<union> (\<Union>t \<in> set ts. refers t) \<subseteq> {..<length (vc_items s)} \<and>
     distinct (map d_item (vc_delivered s)) \<and> d_item ` set (vc_delivered s) \<subseteq> {..<length (vc_items s)} \<and>
     (\<forall>p < length (vc_items s). callonce_inv (ri_callback (vc_items s ! p)) \<and>
        (co_invoked (ri_callback (vc_items s ! p)) \<longleftrightarrow> p \<in> d_item ` set (vc_delivered s)))"

interpretation calls: interleaved calls_inv
proof
  fix s :: "'u VstConnection" and ts ts' :: "code_section list"
  assume "mset ts = mset ts'"
  then show "calls_inv s ts = calls_inv s ts'" by (simp add: calls_inv_def mset_eq_setD [of ts ts'])
qed

text \<open>What all sections leave alone but the one that calls a callback.\<close>

definition same_calls :: "'u VstConnection \<Rightarrow> 'u VstConnection \<Rightarrow> bool" where
  "same_calls s s' \<longleftrightarrow> length (vc_items s') = length (vc_items s) \<and> vc_delivered s' = vc_delivered s \<and>
     (\<forall>p < length (vc_items s). ri_callback (vc_items s' ! p) = ri_callback (vc_items s ! p) \<and>
        ri_messageID (vc_items s' ! p) = ri_messageID (vc_items s ! p)) \<and>
     vc_messageID s' = vc_messageID s \<and> vc_configuration s' = vc_configuration s"

lemma same_calls_id: "vc_items s' = vc_items s \<Longrightarrow> vc_delivered s' = vc_delivered s \<Longrightarrow>
    vc_messageID s' = vc_messageID s \<Longrightarrow> vc_configuration s' = vc_configuration s \<Longrightarrow> same_calls s s'"
  by (simp add: same_calls_def)

lemma same_calls_set_item:
  "ri_callback item = ri_callback (vc_items s ! p) \<Longrightarrow> ri_messageID item = ri_messageID (vc_items s ! p) \<Longrightarrow>
     same_calls s (set_item p item s)"
  by (cases "p < length (vc_items s)") (simp_all add: same_calls_def set_item_def nth_list_update list_update_beyond not_less)

lemma onFailure_fields [simp]:
  "vc_items (onFailure e msg s) = vc_items s" "vc_delivered (onFailure e msg s) = vc_delivered s"
  "vc_sendQueue (onFailure e msg s) = vc_sendQueue s" "vc_messageStore (onFailure e msg s) = vc_messageStore s"
  "vc_pending (onFailure e msg s) = vc_pending s" "vc_messageID (onFailure e msg s) = vc_messageID s"
  "vc_configuration (onFailure e msg s) = vc_configuration s"
  by (simp_all add: onFailure_def)

lemma task_same:
  assumes "task_step L u t s = Inr (s', ts)" and "\<forall>w. t \<noteq> Next_Request w" and "\<forall>r c. t \<noteq> Read_Chunks r c"
  shows "same_calls s s' \<and> pointers s' \<subseteq> pointers s \<union> refers (Work t) \<and> (\<Union>k \<in> set ts. refers (Work k)) \<subseteq> refers (Work t) \<and>
    vc_messageStore s' = vc_messageStore s \<and>
    (\<forall>k \<in> set ts. refers (Work k) = {})"
proof (cases t)
  case (Async_Write w p)
  with assms show ?thesis
    by (auto simp: issue_write_def Let_def pend_def pointers_def same_calls_def split: option.splits)
next
  case (Async_Read r tm)
  with assms show ?thesis
    by (auto simp: issue_read_def Let_def pend_def pointers_def same_calls_def split: option.splits)
next
  case (Next_Bytes r)
  then obtain stop where g: "shouldStopReading r s = Inr (s', stop)"
    and ts: "ts = (case stop of None \<Rightarrow> [] | Some timeout \<Rightarrow> [Async_Read r timeout])"
    using assms(1) by auto
  from g have "s' = s \<or> s' = s\<lparr>vc_readLoop := None\<rparr>" by (cases rule: shouldStopReading_cases) auto
  with ts Next_Bytes show ?thesis by (auto simp: pointers_def same_calls_def split: option.splits)
qed (use assms in \<open>auto simp: section_defs Let_def queue_add_def pointers_def same_calls_def split: option.splits prod.splits if_splits\<close>)


lemma item_fields_same:
  assumes "addChunk c (vc_items s ! p) = Inr it" and "assemble it = Inr (item, b)"
  shows "same_calls s (set_item p item s)" and "ri_messageID item = ri_messageID (vc_items s ! p)"
  using addChunk_fields [OF assms(1)] assemble_fields [OF assms(2)] by (simp_all add: same_calls_set_item)

lemma pointers_set_item [simp]: "pointers (set_item p item s) = pointers s"
  by (simp add: pointers_def set_item_def)

lemma section_same:
  assumes "section_step L u t s = Inr (s', new)" and "\<forall>p e q r. t \<noteq> Call p e q r"
  shows "same_calls s s' \<and> pointers s' \<union> (\<Union>k \<in> set new. refers k) \<subseteq> pointers s \<union> refers t"
proof (cases t)
  case (Work k)
  show ?thesis
  proof (cases "(\<exists>w. k = Next_Request w) \<or> (\<exists>r c. k = Read_Chunks r c)")
    case True
    with assms(1) Work show ?thesis
      by (auto simp: same_calls_def pointers_def split: if_splits)
  next
    case False
    then obtain ts where "task_step L u k s = Inr (s', ts)" "new = map Work ts"
      using Work_sections [of L u k s s' new] assms(1) Work by blast
    with task_same [of L u k s s' ts] False Work show ?thesis by auto
  qed
next
  case (Assemble c p)
  then obtain it item b where it: "addChunk c (vc_items s ! p) = Inr it" "assemble it = Inr (item, b)"
    and s': "s' = set_item p item s"
    and new: "new = (case b of None \<Rightarrow> [] | Some buffer \<Rightarrow> [Remove_Item (ri_messageID item), Respond p (ri_messageID item) buffer])"
    using assms(1) by (auto simp: bind_res_def split: sum.splits prod.splits)
  show ?thesis using item_fields_same(1) [OF it] s' new Assemble by (cases b) auto
next
  case (Take_Request p e r)
  with assms(1) same_calls_set_item [of "(vc_items s ! p)\<lparr>ri_request := None\<rparr>" s p] show ?thesis
    by (auto simp: Let_def)
next
  case (Cancel_Rest e m)
  with assms(1) show ?thesis by (cases m) (auto simp: same_calls_def pointers_def)
next
  case (Next_Front w)
  with assms(1) show ?thesis
    by (auto simp: same_calls_def pointers_def queue_front_def split: option.splits list.splits)
next
  case (Next_Store w p)
  with assms(1) stored_add [of "\<lambda>p. ri_messageID (vc_items s ! p)" p "vc_messageStore s"] show ?thesis
    by (auto simp: same_calls_def pointers_def)
next
  case (Next_Remove w p)
  with assms(1) show ?thesis
    by (auto simp: same_calls_def pointers_def removeFirst_def split: list.splits)
next
  case (Find_Item c)
  then have s': "s' = s" and new: "new = (case findByID (ch_messageID c) (vc_messageStore s) of None \<Rightarrow> [] | Some p \<Rightarrow> [Assemble c p])"
    using assms(1) by auto
  show ?thesis using s' new stored_find by (auto simp: same_calls_def pointers_def split: option.splits)
next
  case (Remove_Item i)
  with assms(1) stored_remove [of i "vc_messageStore s"] show ?thesis by (auto simp: same_calls_def pointers_def)
next
  case Init_Socket
  with assms(1) show ?thesis
    by (auto simp: initSocket_def startConnect_def pend_def check_def Let_def same_calls_def pointers_def split: if_splits)
qed (use assms in \<open>auto simp: same_calls_def pointers_def queue_insert_def restart_sections_def shutdown_sections_def
    stopWriting_def stopReading_def shutdownSocket_def startResolveHost_def pend_def check_def split: if_splits\<close>)

text \<open>A callback is kept until it is called, and calls are never undone.\<close>

definition keeps_calls :: "'u VstConnection \<Rightarrow> 'u VstConnection \<Rightarrow> bool" where
  "keeps_calls s s' \<longleftrightarrow> length (vc_items s) \<le> length (vc_items s') \<and> set (vc_delivered s) \<subseteq> set (vc_delivered s') \<and>
     (\<forall>p < length (vc_items s). \<forall>cb. co_cb (ri_callback (vc_items s ! p)) = Some cb \<longrightarrow>
        co_cb (ri_callback (vc_items s' ! p)) = Some cb \<or> (\<exists>d \<in> set (vc_delivered s'). d_item d = p \<and> d_callback d = cb))"

lemma keeps_calls_refl: "keeps_calls s s"
  by (simp add: keeps_calls_def)

lemma keeps_calls_trans: "keeps_calls s t \<Longrightarrow> keeps_calls t v \<Longrightarrow> keeps_calls s v"
  unfolding keeps_calls_def by (meson order_trans less_le_trans subsetD)

lemma same_calls_keeps: "same_calls s s' \<Longrightarrow> keeps_calls s s'"
  by (simp add: same_calls_def keeps_calls_def)

lemma same_calls_inv:
  assumes "same_calls s s'" and "calls_inv s (t # ts)"
    and "pointers s' \<union> (\<Union>k \<in> set new. refers k) \<subseteq> pointers s \<union> refers t"
  shows "calls_inv s' (new @ ts)"
  using assms by (auto simp: calls_inv_def same_calls_def)

lemma run_callback_unchanged [simp]:
  "vc_items (run_callback d s) = vc_items s" "vc_delivered (run_callback d s) = vc_delivered s @ [d]"
  "vc_sendQueue (run_callback d s) = vc_sendQueue s" "vc_messageStore (run_callback d s) = vc_messageStore s"
  "vc_pending (run_callback d s) = vc_pending s" "vc_messageID (run_callback d s) = vc_messageID s"
  "vc_configuration (run_callback d s) = vc_configuration s"
  by (cases "d_callback d"; simp add: run_callback_def Let_def)+

text \<open>A call finds the callback that is not called yet, or does nothing.\<close>

lemma call_cases:
  assumes "section_step L u (Call p e q r) s = Inr (s', new)" and inv: "calls_inv s (Call p e q r # ts)"
  obtains (again) "same_calls s s'" and "vc_sendQueue s' = vc_sendQueue s" and "vc_messageStore s' = vc_messageStore s"
      and "vc_pending s' = vc_pending s" and "new = []" and "p \<in> d_item ` set (vc_delivered s)"
  | (first) cb where "p < length (vc_items s)" and "p \<notin> d_item ` set (vc_delivered s)"
      and "co_cb (ri_callback (vc_items s ! p)) = Some cb" and "new = [In_Callback]"
      and "s' = run_callback \<lparr>d_item = p, d_callback = cb, d_error = e, d_request = q, d_response = r\<rparr>
        (set_item p ((vc_items s ! p)\<lparr>ri_callback := \<lparr>co_invoked = True, co_cb = None\<rparr>\<rparr>) s)"
proof -
  let ?c = "ri_callback (vc_items s ! p)"
  have p: "p < length (vc_items s)" "callonce_inv ?c" "co_invoked ?c \<longleftrightarrow> p \<in> d_item ` set (vc_delivered s)"
    using inv by (auto simp: calls_inv_def)
  show thesis
  proof (cases "co_invoked ?c")
    case True
    with assms(1) have s': "s' = set_item p ((vc_items s ! p)\<lparr>ri_callback := ?c\<rparr>) s" "new = []"
      by (simp_all add: invoke_def Let_def)
    show thesis
      by (rule again) (use s' True p(3) same_calls_set_item [of "(vc_items s ! p)\<lparr>ri_callback := ?c\<rparr>" s p] in \<open>simp_all add: set_item_def\<close>)
  next
    case False
    with p(2) obtain cb where "co_cb ?c = Some cb" by (auto simp: callonce_inv_def)
    with assms(1) False p(1,3) show thesis
      by (intro first [of cb]) (simp_all add: invoke_def check_def Let_def)
  qed
qed

lemma section_calls:
  assumes step: "section_step L u t s = Inr (s', new)" and inv: "calls_inv s (t # ts)"
  shows "calls_inv s' (new @ ts) \<and> keeps_calls s s'"
proof (cases "\<exists>p e q r. t = Call p e q r")
  case False
  with section_same [OF step] same_calls_inv [OF _ inv, of s' new] same_calls_keeps show ?thesis by blast
next
  case True
  then obtain p e q r where t: "t = Call p e q r" by blast
  show ?thesis using step [unfolded t] inv [unfolded t]
  proof (cases rule: call_cases)
    case again
    with same_calls_inv [OF _ inv, of s' new] same_calls_keeps show ?thesis by (auto simp: pointers_def)
  next
    case (first cb)
    have "calls_inv s' (new @ ts)"
      using inv first(1,2) unfolding first(4,5) calls_inv_def pointers_def
      by (auto simp: set_item_def nth_list_update callonce_inv_def)
    moreover have "keeps_calls s s'"
      using first(1,3) unfolding first(5) keeps_calls_def by (auto simp: set_item_def nth_list_update)
    ultimately show ?thesis by blast
  qed
qed

lemma created_item:
  assumes "createRequestItem L u req cb s = (s', Inr p)"
  obtains item where "p = length (vc_items s)"
    and "s' = s\<lparr>vc_messageID := vc_messageID s + 1, vc_items := vc_items s @ [item]\<rparr>"
    and "ri_callback item = \<lparr>co_invoked = False, co_cb = Some cb\<rparr>" and "ri_messageID item = vc_messageID s + 1"
  using assms by (auto simp: createRequestItem_def RequestItem_new_def CallOnce_assign_def CallOnce_new_def Let_def
      split: sum.splits dest!: prepareForNetwork_fields)

lemma created_calls:
  assumes c: "createRequestItem L u req cb s = (s', Inr p)" and inv: "calls_inv s ts"
    and new: "(\<Union>t \<in> set new. refers t) \<subseteq> {p}"
  shows "calls_inv s' (new @ ts) \<and> keeps_calls s s'"
proof -
  obtain item where p: "p = length (vc_items s)"
    and s': "s' = s\<lparr>vc_messageID := vc_messageID s + 1, vc_items := vc_items s @ [item]\<rparr>"
    and item: "ri_callback item = \<lparr>co_invoked = False, co_cb = Some cb\<rparr>"
    by (rule created_item [OF c])
  have "calls_inv s' (new @ ts)"
    using inv new unfolding s' p calls_inv_def pointers_def
    by (auto simp: item callonce_inv_def nth_append less_Suc_eq)
  moreover have "keeps_calls s s'" by (simp add: s' keeps_calls_def nth_append)
  ultimately show ?thesis by blast
qed

lemma finish_pointers: "pointers (finish ev s) \<subseteq> pointers s" "same_calls s (finish ev s)"
  by (auto simp: finish_def pointers_def same_calls_def split: option.splits
      dest: set_remove1_subset [THEN subsetD])

lemma async_calls_same [simp]:
  "pointers (s\<lparr>vc_async_calls := n\<rparr>) = pointers s" "same_calls (s\<lparr>vc_async_calls := n\<rparr>) t = same_calls s t"
  by (simp_all add: pointers_def same_calls_def)

lemma event_same:
  assumes "event_sections L u ev s = Inr (s', new)" and "pending_of ev = Some op"
    and "\<not> (ev = Header_Written None \<and> c_authenticationType (vc_configuration s) = Basic)"
  shows "same_calls s s' \<and> pointers s' \<union> (\<Union>t \<in> set new. refers t) \<subseteq> pointers s \<union> op_refers op"
proof (cases ev)
  case (Connected eps e)
  with assms show ?thesis
    by (auto simp: same_calls_def pointers_def asyncConnectCallback_def startSSLHandshake_def finishInitialization_def pend_def
        shutdown_sections_def split: option.splits if_splits)
next
  case (Handshaken e)
  with assms show ?thesis
    by (auto simp: same_calls_def pointers_def finishInitialization_def pend_def split: option.splits)
next
  case (Written w p e)
  with assms same_calls_set_item [of "resetSendData (vc_items s ! p)" "s\<lparr>vc_async_calls := vc_async_calls s - 1\<rparr>" p] show ?thesis
    by (auto simp: resetSendData_def Let_def split: if_splits) (auto simp: same_calls_def pointers_def)
next
  case (Header_Written e)
  with assms show ?thesis
    by (auto simp: same_calls_def pointers_def shutdown_sections_def split: option.splits AuthenticationType.splits)
qed (use assms in \<open>auto simp: same_calls_def pointers_def split: option.splits if_splits\<close>)

lemma event_calls:
  assumes ev: "event_sections L u ev (finish ev s) = Inr (s', new)" "pending_of ev \<noteq> None" "enabled ev s" and inv: "calls_inv s ts"
  shows "calls_inv s' (new @ ts) \<and> keeps_calls s s'"
proof -
  let ?f = "finish ev s"
  obtain op where op: "pending_of ev = Some op" "op \<in> set (vc_pending s)"
    using ev(2,3) by (auto simp: enabled_def)
  then have sub: "op_refers op \<subseteq> pointers s" by (auto simp: pointers_def)
  have f: "calls_inv ?f ts"
    using finish_pointers(1) [of ev s] finish_pointers(2) [of s ev] inv by (auto simp: calls_inv_def same_calls_def)
  show ?thesis
  proof (cases "ev = Header_Written None \<and> c_authenticationType (vc_configuration ?f) = Basic")
    case True
    then obtain p where "createRequestItem L u (auth_request (vc_configuration ?f)) Auth_Callback ?f = (s', Inr p)"
      and "new = [Insert_Front p, Work Set_Connected]"
      using ev(1) by (auto split: prod.splits sum.splits)
    with created_calls [OF _ f, of L u _ _ s' p new]
    have "calls_inv s' (new @ ts)" "keeps_calls ?f s'" by auto
    with keeps_calls_trans [OF same_calls_keeps [OF finish_pointers(2)]] show ?thesis by blast
  next
    case False
    note same = event_same [OF ev(1) op(1) False]
    with finish_pointers(1) [of ev s] sub have "pointers s' \<union> (\<Union>t \<in> set new. refers t) \<subseteq> pointers s" by blast
    moreover have "same_calls s s'" using same finish_pointers(2) [of s ev] by (auto simp: same_calls_def)
    ultimately show ?thesis
      using same_calls_inv [of s s' In_Callback ts new] inv by (auto simp: calls_inv_def same_calls_keeps)
  qed
qed

lemma race_step_calls:
  assumes "race_step L u st st'" and inv: "calls_inv (ra_conn st) (concat (ra_stacks st))"
  shows "calls_inv (ra_conn st') (concat (ra_stacks st')) \<and> keeps_calls (ra_conn st) (ra_conn st')"
  using assms(1)
proof cases
  case (run i ss t ts s s' new)
  have inv': "calls_inv s (concat ss)" using inv run by simp
  have "calls_inv s' (concat (ss[i := new @ ts]))"
    by (rule calls.step_stack [OF run(3) inv']) (use run section_calls [OF run(6)] in simp)
  moreover have "keeps_calls s s'"
  proof -
    obtain rest where "mset (concat ss) = mset (ss ! i @ rest)" using stack_split [OF run(3)] by blast
    from calls.inv_mset [OF this, of s] have "calls_inv s (t # ts @ rest)" using inv' run(4) by simp
    with section_calls [OF run(6)] show ?thesis by blast
  qed
  ultimately show ?thesis using run by simp
next
  case (send i ss s req cb s' p)
  have inv': "calls_inv s (concat ss)" using inv send by simp
  have "calls_inv s' (concat (ss[i := Work (Queue_Add p) # ss ! i]))"
    by (rule calls.step_stack [OF send(3) inv']) (use created_calls [OF send(6), of _ "[Work (Queue_Add p)]"] in simp)
  with created_calls [OF send(6) inv', of "[]"] send show ?thesis by simp
next
  case (event i ss ev s s' new)
  have inv': "calls_inv s (concat ss)" using inv event by simp
  have "calls_inv s' (concat (ss[i := new]))"
    by (rule calls.step_stack [OF event(3) inv']) (use event event_calls [OF event(8,5,6)] in simp)
  with event_calls [OF event(8,5,6) inv'] event show ?thesis by simp
qed

lemma races_calls:
  assumes "(race_step L u)\<^sup>*\<^sup>* st st'" and inv: "calls_inv (ra_conn st) (concat (ra_stacks st))"
  shows "calls_inv (ra_conn st') (concat (ra_stacks st')) \<and> keeps_calls (ra_conn st) (ra_conn st')"
  using assms
proof (induction rule: rtranclp_induct)
  case base
  then show ?case by (simp add: keeps_calls_refl)
next
  case (step y z)
  then show ?case using race_step_calls [OF step(2)] keeps_calls_trans by blast
qed

lemma concat_idle: "concat (replicate n []) = []"
  by (induction n) simp_all

lemma start_calls:
  assumes "reachable L u conf s"
  shows "calls_inv (ra_conn (race_threads n s)) (concat (ra_stacks (race_threads n s)))"
proof -
  have inv: "pool_inv (waiting s) s" "store_inv s" "send_inv s"
    using reachable_item [OF assms] by (simp_all add: item_inv_def)
  have eq: "waiting s + mset (map d_item (vc_delivered s)) = mset [0..<length (vc_items s)]"
    using inv(1) by (simp add: pool_inv_def)
  have "mset (map d_item (vc_delivered s)) \<subseteq># mset [0..<length (vc_items s)]"
    unfolding eq [symmetric] by simp
  then have "distinct (map d_item (vc_delivered s))"
    by (metis distinct_upt mset_subset_eq_exists_conv distinct_append mset_append ex_mset mset_eq_imp_distinct_iff)
  moreover have "set_mset (waiting s) \<union> d_item ` set (vc_delivered s) = {..<length (vc_items s)}"
    using arg_cong [OF eq, of set_mset] by auto
  moreover have "pointers s \<subseteq> set_mset (waiting s) \<union> {..<length (vc_items s)}"
  proof -
    have "p < length (vc_items s)" if "op \<in> set (vc_pending s)" "p \<in> op_refers op" for op p
      by (cases op; use that inv(3) in \<open>auto simp: send_inv_def\<close>)
    then show ?thesis by (auto simp: pointers_def waiting_def stored_def)
  qed
  ultimately show ?thesis
    using inv(1) by (auto simp: race_threads_def concat_idle calls_inv_def pool_inv_def)
qed


end
