(* ===== verification/VstRaceAccount.thy ===== *)
theory VstRaceAccount
  imports VstRaceCalls
begin

text \<open>
  Where the requests are while threads interleave: in the queue, in the store, delivered, or carried by
  a section of some thread (\<open>account_inv\<close>), and the mutual exclusion that this rests on (\<open>holders\<close>).
  \<open>removal_ok\<close> says of each stack alone that it delivers what it removes. Connections that
  authenticate are left out: \<open>insert\<close> at the front of the queue is not excluded by the mutex
  that \<open>getNextRequestToSend\<close> holds between \<open>front\<close> and \<open>removeFirst\<close>, which can then remove another item.
\<close>

section \<open>Requests\<close>

text \<open>The items whose callback a section is about to call, and the mutual exclusion of the sections.\<close>

fun carries :: "code_section \<Rightarrow> item_ptr set" where
  "carries (Respond p i b) = {p}"
| "carries (Take_Request p e r) = {p}"
| "carries (Call p e q r) = {p}"
| "carries _ = {}"

definition carried :: "code_section list \<Rightarrow> item_ptr set" where
  "carried ts = (\<Union>t \<in> set ts. carries t)"

lemma carried_simps [simp]:
  "carried [] = {}" "carried (t # ts) = carries t \<union> carried ts" "carried (ts @ ts') = carried ts \<union> carried ts'"
  by (auto simp: carried_def)

definition holders :: "mutex \<Rightarrow> code_section list \<Rightarrow> nat" where
  "holders m ts = length (filter (\<lambda>t. m \<in> holds t) ts)"

lemma holders_simps [simp]:
  "holders m [] = 0" "holders m (t # ts) = (if m \<in> holds t then Suc (holders m ts) else holders m ts)"
  "holders m (ts @ ts') = holders m ts + holders m ts'"
  by (simp_all add: holders_def)

lemma holders_0: "holders m ts = 0 \<longleftrightarrow> (\<forall>t \<in> set ts. m \<notin> holds t)"
  by (induction ts) auto

text \<open>An item that is not in the queue has been handed on: it waits in the store, or has its answer, or is about to.\<close>

definition handed_on :: "'u VstConnection \<Rightarrow> code_section list \<Rightarrow> item_ptr set" where
  "handed_on s ts = stored (vc_messageStore s) \<union> d_item ` set (vc_delivered s) \<union> carried ts"

text \<open>
  A section that is past the front of the queue works on its first item; while the items of the store
  are cancelled, the store holds none but those that remain to be cancelled or are handed on.
\<close>

fun section_ok :: "'u VstConnection \<Rightarrow> code_section list \<Rightarrow> code_section \<Rightarrow> bool" where
  "section_ok s ts (Insert_Front p) \<longleftrightarrow> False"
| "section_ok s ts (Next_Store w p) \<longleftrightarrow> (\<exists>q. vc_sendQueue s = p # q)"
| "section_ok s ts (Next_Remove w p) \<longleftrightarrow> (\<exists>q. vc_sendQueue s = p # q) \<and> p \<in> handed_on s ts"
| "section_ok s ts (Cancel_Rest e m) \<longleftrightarrow>
     stored (vc_messageStore s) \<subseteq> stored m \<union> d_item ` set (vc_delivered s) \<union> carried ts"
| "section_ok s ts _ \<longleftrightarrow> True"

definition account_inv :: "'u VstConnection \<Rightarrow> code_section list \<Rightarrow> bool" where
  "account_inv s ts \<longleftrightarrow>
     c_authenticationType (vc_configuration s) = None_Auth \<and> id_inv s \<and> store_inv s \<and>
     (\<forall>m. holders m ts \<le> 1) \<and>
     (\<forall>p < length (vc_items s). p \<in> set (vc_sendQueue s) \<or> p \<in> handed_on s ts \<or> Work (Queue_Add p) \<in> set ts) \<and>
     (\<forall>t \<in> set ts. section_ok s ts t)"

lemma section_ok_set: "carried ts = carried ts' \<Longrightarrow> section_ok s ts t = section_ok s ts' t"
  by (cases t) (simp_all add: handed_on_def)

interpretation account: interleaved account_inv
proof
  fix s :: "'u VstConnection" and ts ts' :: "code_section list"
  assume eq: "mset ts = mset ts'"
  have "holders m ts = holders m ts'" for m
    unfolding holders_def using eq by (metis mset_filter size_mset)
  moreover have "carried ts = carried ts'" using mset_eq_setD [OF eq] by (simp add: carried_def)
  ultimately show "account_inv s ts = account_inv s ts'"
    using mset_eq_setD [OF eq] section_ok_set [of ts ts' s] by (simp add: account_inv_def handed_on_def)
qed

text \<open>A stack that removes an item from the store goes on to call its callback.\<close>

fun removal_ok :: "'u VstConnection \<Rightarrow> code_section list \<Rightarrow> bool" where
  "removal_ok s [] = True"
| "removal_ok s (t # ts) =
     ((case t of
         Remove_Item i \<Rightarrow> \<exists>p < length (vc_items s). ri_messageID (vc_items s ! p) = i \<and> p \<in> carried ts
       | _ \<Rightarrow> True) \<and> removal_ok s ts)"

lemma removal_ok_append: "removal_ok s ts' \<Longrightarrow> (\<forall>i. Remove_Item i \<notin> set ts) \<Longrightarrow> removal_ok s (ts @ ts')"
  by (induction ts) (auto split: code_section.splits)

lemma removal_ok_same:
  "removal_ok s ts \<Longrightarrow> length (vc_items s) \<le> length (vc_items s') \<Longrightarrow>
     (\<forall>p < length (vc_items s). ri_messageID (vc_items s' ! p) = ri_messageID (vc_items s ! p)) \<Longrightarrow> removal_ok s' ts"
proof (induction ts)
  case (Cons t ts)
  have ex: "\<exists>p < length (vc_items s'). ri_messageID (vc_items s' ! p) = i \<and> p \<in> carried ts"
    if "\<exists>p < length (vc_items s). ri_messageID (vc_items s ! p) = i \<and> p \<in> carried ts" for i
    using that Cons.prems(2,3) by (metis less_le_trans)
  from Cons.IH Cons.prems ex show ?case by (cases t) simp_all
qed simp

lemma same_calls_ids:
  assumes "same_calls s s'"
  shows "id_inv s \<Longrightarrow> id_inv s'" and "store_inv s \<Longrightarrow> vc_messageStore s' = vc_messageStore s \<Longrightarrow> store_inv s'"
  using assms unfolding same_calls_def id_inv_def store_inv_def inj_on_def by auto

text \<open>Sections that leave the queue and the store alone.\<close>

fun plain :: "code_section \<Rightarrow> bool" where
  "plain (Insert_Front p) = False"
| "plain (Next_Front w) = False"
| "plain (Next_Store w p) = False"
| "plain (Next_Remove w p) = False"
| "plain (Cancel_Rest e m) = False"
| "plain _ = True"

lemma plain_simps: "plain t \<Longrightarrow> holds t = {}" "plain t \<Longrightarrow> section_ok s ts t"
  by (cases t; simp)+

lemma account_plain:
  assumes inv: "account_inv s (t # ts)" and same: "same_calls s s'" and q: "vc_sendQueue s' = vc_sendQueue s"
    and m: "vc_messageStore s' = vc_messageStore s" and new: "\<forall>k \<in> set new. plain k"
    and c: "carries t \<subseteq> d_item ` set (vc_delivered s) \<union> carried new" and t: "\<forall>p. t \<noteq> Work (Queue_Add p)"
  shows "account_inv s' (new @ ts)"
proof -
  have d: "vc_delivered s' = vc_delivered s" and conf: "vc_configuration s' = vc_configuration s"
    and len: "length (vc_items s') = length (vc_items s)" using same by (simp_all add: same_calls_def)
  have h: "handed_on s (t # ts) \<subseteq> handed_on s' (new @ ts)" using c by (auto simp: handed_on_def m d)
  have "holders k new = 0" for k
    using new plain_simps(1) by (auto simp: holders_0)
  moreover have "holders k (t # ts) \<le> 1" for k using inv unfolding account_inv_def by blast
  then have "holders k ts \<le> 1" for k by (simp split: if_splits) (metis Suc_leD le0)
  ultimately have "\<forall>k. holders k (new @ ts) \<le> 1" by simp
  moreover have "section_ok s' (new @ ts) k" if "k \<in> set (new @ ts)" for k
  proof (cases "k \<in> set new")
    case True
    with new plain_simps(2) show ?thesis by blast
  next
    case False
    with that inv have "section_ok s (t # ts) k" by (auto simp: account_inv_def)
    with h c show ?thesis by (cases k) (auto simp: q m d)
  qed
  ultimately show ?thesis
    using inv same_calls_ids [OF same] h t by (auto simp: account_inv_def conf len q m)
qed

lemma account_step:
  assumes inv: "account_inv s (t # ts)"
    and "vc_configuration s' = vc_configuration s" and "length (vc_items s') = length (vc_items s)"
    and "id_inv s'" and "store_inv s'"
    and "\<And>m. holders m new \<le> holders m [t] \<or> holders m ts = 0 \<and> holders m new \<le> 1"
    and "handed_on s (t # ts) \<subseteq> handed_on s' (new @ ts)"
    and "set (vc_sendQueue s) \<subseteq> set (vc_sendQueue s') \<union> handed_on s' (new @ ts)"
    and "\<And>p. t = Work (Queue_Add p) \<Longrightarrow> p \<in> set (vc_sendQueue s')"
    and "\<And>k. k \<in> set new \<Longrightarrow> section_ok s' (new @ ts) k"
    and "\<And>k. k \<in> set ts \<Longrightarrow> section_ok s (t # ts) k \<Longrightarrow> section_ok s' (new @ ts) k"
  shows "account_inv s' (new @ ts)"
proof -
  have "holders m [t] + holders m ts \<le> 1" for m
  proof -
    have "holders m (t # ts) \<le> 1" using inv unfolding account_inv_def by blast
    then show ?thesis by (simp split: if_splits)
  qed
  then have "holders m (new @ ts) \<le> 1" for m
    using assms(6) [of m] by (metis add_0_right add_le_mono1 holders_simps(3) order_trans)
  with assms show ?thesis unfolding account_inv_def by auto
qed

lemma holders_single: "holders m [t] = (if m \<in> holds t then 1 else 0)"
  by simp

lemma handed_on_queue [simp]: "handed_on (s\<lparr>vc_sendQueue := q\<rparr>) ts = handed_on s ts"
  by (simp add: handed_on_def)

lemma ids_queue [simp]:
  "id_inv (s\<lparr>vc_sendQueue := q\<rparr>) = id_inv s" "store_inv (s\<lparr>vc_sendQueue := q\<rparr>) = store_inv s"
  "id_inv (s\<lparr>vc_messageStore := m\<rparr>) = id_inv s"
  by (simp_all add: id_inv_def store_inv_def)

lemma account_Queue_Add:
  assumes inv: "account_inv s (Work (Queue_Add p) # ts)"
  shows "account_inv (s\<lparr>vc_sendQueue := queue_add p (vc_sendQueue s)\<rparr>) (Work Check_Connected # ts)"
proof -
  have "account_inv (s\<lparr>vc_sendQueue := queue_add p (vc_sendQueue s)\<rparr>) ([Work Check_Connected] @ ts)"
  proof (rule account_step [OF inv])
    fix k assume "section_ok s (Work (Queue_Add p) # ts) k"
    then show "section_ok (s\<lparr>vc_sendQueue := queue_add p (vc_sendQueue s)\<rparr>) ([Work Check_Connected] @ ts) k"
      by (cases k) (auto simp: queue_add_def handed_on_def)
  qed (use inv in \<open>auto simp: account_inv_def handed_on_def queue_add_def\<close>)
  then show ?thesis by simp
qed

lemma account_Next_Remove:
  assumes inv: "account_inv s (Next_Remove w p # ts)" and q: "vc_sendQueue s = p # q"
  shows "account_inv (s\<lparr>vc_sendQueue := q\<rparr>) (Work Start_Reading # Work (Async_Write w p) # ts)"
proof -
  let ?new = "[Work Start_Reading, Work (Async_Write w p)]"
  have p: "p \<in> handed_on s ts" using inv by (simp add: account_inv_def handed_on_def)
  have "holders Write_Mutex (Next_Remove w p # ts) \<le> 1" using inv unfolding account_inv_def by blast
  then have alone: "Write_Mutex \<notin> holds k" if "k \<in> set ts" for k using that by (simp add: holders_0)
  have "account_inv (s\<lparr>vc_sendQueue := q\<rparr>) (?new @ ts)"
  proof (rule account_step [OF inv])
    fix k assume "section_ok s (Next_Remove w p # ts) k" and "k \<in> set ts"
    with alone show "section_ok (s\<lparr>vc_sendQueue := q\<rparr>) (?new @ ts) k"
      by (cases k) force+
  qed (use inv p q in \<open>auto simp: account_inv_def handed_on_def\<close>)
  then show ?thesis by simp
qed

text \<open>Store and cancellation: with the mutex of the store, no other thread is cancelling.\<close>

lemma store_add_found:
  assumes "id_inv s" and "store_inv s" and "p < length (vc_items s)"
  shows "store_inv (s\<lparr>vc_messageStore := store_add (\<lambda>p. ri_messageID (vc_items s ! p)) p (vc_messageStore s)\<rparr>)"
    and "stored (store_add (\<lambda>p. ri_messageID (vc_items s ! p)) p (vc_messageStore s)) = insert p (stored (vc_messageStore s))"
proof -
  let ?key = "\<lambda>p. ri_messageID (vc_items s ! p)"
  let ?m = "store_add ?key p (vc_messageStore s)"
  have m: "map_inv (vc_messageStore s)" using assms(2) by (simp add: store_inv_def)
  have sub: "set ?m \<subseteq> insert (?key p, p) (set (vc_messageStore s))"
  proof -
    have "set (map_emplace k p m) \<subseteq> insert (k, p) (set m)" for k m by (induction k p m rule: map_emplace.induct) auto
    then show ?thesis by (simp add: store_add_def)
  qed
  show "store_inv (s\<lparr>vc_messageStore := ?m\<rparr>)"
    using sub assms m by (auto simp: store_inv_def store_add_def)
  have mono: "set (vc_messageStore s) \<subseteq> set ?m"
  proof -
    have "set m \<subseteq> set (map_emplace k p m)" for k m by (induction k p m rule: map_emplace.induct) auto
    then show ?thesis by (simp add: store_add_def)
  qed
  have "p \<in> stored ?m"
  proof (cases "findByID (?key p) (vc_messageStore s)")
    case None
    then have "findByID (?key p) ?m = Some p" using store.put_find [OF m, of ?key p] by (simp add: fun_eq_iff)
    then show ?thesis by (rule stored_find)
  next
    case (Some q)
    then have "(?key p, q) \<in> set (vc_messageStore s)" using find_store [OF assms(2)] by simp
    then have "q < length (vc_items s)" "?key q = ?key p" using assms(2) by (auto simp: store_inv_def)
    then have "q = p" using assms(1,3) by (auto simp: id_inv_def dest: inj_onD)
    with stored_find [OF Some] mono show ?thesis by (auto simp: stored_def)
  qed
  with stored_add [of ?key p "vc_messageStore s"] mono show "stored ?m = insert p (stored (vc_messageStore s))"
    by (auto simp: stored_def)
qed

lemma account_Next_Store:
  assumes inv: "account_inv s (Next_Store w p # ts)" and p: "p < length (vc_items s)"
    and free: "\<forall>k \<in> set ts. Store_Mutex \<notin> holds k"
    and s': "s' = s\<lparr>vc_messageStore := store_add (\<lambda>p. ri_messageID (vc_items s ! p)) p (vc_messageStore s)\<rparr>"
  shows "account_inv s' (Next_Remove w p # ts)"
proof -
  have i: "id_inv s" "store_inv s" and q: "\<exists>q. vc_sendQueue s = p # q" using inv by (auto simp: account_inv_def)
  note st = store_add_found [OF i p]
  have "account_inv s' ([Next_Remove w p] @ ts)"
  proof (rule account_step [OF inv])
    fix k assume k: "k \<in> set ts" "section_ok s (Next_Store w p # ts) k"
    with free show "section_ok s' ([Next_Remove w p] @ ts) k"
      by (cases k) (force simp: s' handed_on_def st)+
  qed (use q st i in \<open>auto simp: s' handed_on_def\<close>)
  then show ?thesis by simp
qed

lemma removeByID_found:
  assumes "id_inv s" and "store_inv s" and "p < length (vc_items s)"
  shows "store_inv (s\<lparr>vc_messageStore := removeByID (ri_messageID (vc_items s ! p)) (vc_messageStore s)\<rparr>)"
    and "stored (vc_messageStore s) \<subseteq> insert p (stored (removeByID (ri_messageID (vc_items s ! p)) (vc_messageStore s)))"
proof -
  let ?i = "ri_messageID (vc_items s ! p)"
  have m: "map_inv (vc_messageStore s)" using assms(2) by (simp add: store_inv_def)
  have sub: "set (map_erase i m) \<subseteq> set m" for i :: MessageID and m :: MessageStore by (induction i m rule: map_erase.induct) auto
  have "set m \<subseteq> set (map_erase i m) \<union> {x. fst x = i}" for i :: MessageID and m :: MessageStore
    by (induction i m rule: map_erase.induct) auto
  then have keep: "set (vc_messageStore s) \<subseteq> set (removeByID ?i (vc_messageStore s)) \<union> {x. fst x = ?i}"
    by (simp add: removeByID_def)
  show "store_inv (s\<lparr>vc_messageStore := removeByID ?i (vc_messageStore s)\<rparr>)"
    using sub [of ?i "vc_messageStore s"] assms(2) m by (auto simp: store_inv_def removeByID_def)
  have "q = p" if "(?i, q) \<in> set (vc_messageStore s)" for q
    using that assms by (auto simp: store_inv_def id_inv_def dest: inj_onD)
  with keep show "stored (vc_messageStore s) \<subseteq> insert p (stored (removeByID ?i (vc_messageStore s)))"
    by (fastforce simp: stored_def)
qed

lemma account_Remove_Item:
  assumes inv: "account_inv s (Remove_Item (ri_messageID (vc_items s ! p)) # ts)"
    and p: "p < length (vc_items s)" "p \<in> carried ts" and free: "\<forall>k \<in> set ts. Store_Mutex \<notin> holds k"
    and s': "s' = s\<lparr>vc_messageStore := removeByID (ri_messageID (vc_items s ! p)) (vc_messageStore s)\<rparr>"
  shows "account_inv s' ts"
proof -
  have i: "id_inv s" "store_inv s" using inv by (auto simp: account_inv_def)
  note st = removeByID_found [OF i p(1)]
  have h: "handed_on s (Remove_Item (ri_messageID (vc_items s ! p)) # ts) \<subseteq> handed_on s' ts"
    using st(2) p(2) by (auto simp: s' handed_on_def)
  have "account_inv s' ([] @ ts)"
  proof (rule account_step [OF inv])
    fix k assume k: "k \<in> set ts" "section_ok s (Remove_Item (ri_messageID (vc_items s ! p)) # ts) k"
    with free h show "section_ok s' ([] @ ts) k" by (cases k) (force simp: s')+
  qed (use st i h in \<open>auto simp: s'\<close>)
  then show ?thesis by simp
qed

text \<open>Sections that only decide what is next, or take a mutex.\<close>

lemma section_ok_mono: "section_ok s ts t \<Longrightarrow> carried ts \<subseteq> carried ts' \<Longrightarrow> section_ok s ts' t"
  by (cases t) (auto simp: handed_on_def)

lemma account_same:
  assumes inv: "account_inv s (t # ts)" and c: "carries t \<subseteq> carried new" and t: "\<And>p. t \<noteq> Work (Queue_Add p)"
    and h: "\<And>m. holders m new \<le> holders m [t] \<or> holders m ts = 0 \<and> holders m new \<le> 1"
    and new: "\<And>k. k \<in> set new \<Longrightarrow> section_ok s (new @ ts) k"
  shows "account_inv s (new @ ts)"
proof (rule account_step [OF inv _ _ _ _ h])
  fix k assume "section_ok s (t # ts) k"
  then show "section_ok s (new @ ts) k" by (rule section_ok_mono) (use c in auto)
qed (use inv c t new in \<open>auto simp: account_inv_def handed_on_def\<close>)

lemma account_Next_Request:
  assumes inv: "account_inv s (Work (Next_Request w) # ts)" and free: "\<forall>k \<in> set ts. Write_Mutex \<notin> holds k"
  shows "account_inv s (Next_Front w # ts)"
  using account_same [OF inv, of "[Next_Front w]"] free by (simp add: holders_0)

lemma account_Next_Front:
  assumes inv: "account_inv s (Next_Front w # ts)" and "vc_sendQueue s = p # q"
  shows "account_inv s (Next_Store w p # ts)"
  using account_same [OF inv, of "[Next_Store w p]"] assms(2) by simp

lemma account_Cancel_All:
  assumes inv: "account_inv s (Cancel_All e # ts)" and free: "\<forall>k \<in> set ts. Store_Mutex \<notin> holds k"
  shows "account_inv s (Cancel_Rest e (vc_messageStore s) # ts)"
proof -
  have "holders Store_Mutex ts = 0" using free by (simp add: holders_0)
  then have "account_inv s ([Cancel_Rest e (vc_messageStore s)] @ ts)"
    by (intro account_same [OF inv]) auto
  then show ?thesis by simp
qed

lemma account_Cancel_Rest:
  assumes inv: "account_inv s (Cancel_Rest e ((i, p) # m) # ts)"
  shows "account_inv s (Take_Request p e' r # Cancel_Rest e m # ts)"
proof -
  have "section_ok s (Cancel_Rest e ((i, p) # m) # ts) (Cancel_Rest e ((i, p) # m))"
    using inv by (simp add: account_inv_def)
  then have "section_ok s ([Take_Request p e' r, Cancel_Rest e m] @ ts) k"
    if "k \<in> set [Take_Request p e' r, Cancel_Rest e m]" for k
    using that by auto
  then have "account_inv s ([Take_Request p e' r, Cancel_Rest e m] @ ts)"
    by (rule account_same [OF inv, rotated 3]) auto
  then show ?thesis by simp
qed

lemma account_Cancel_done:
  assumes inv: "account_inv s (Cancel_Rest e [] # ts)"
  shows "account_inv (s\<lparr>vc_messageStore := []\<rparr>) ts"
proof -
  have h: "handed_on s (Cancel_Rest e [] # ts) \<subseteq> handed_on (s\<lparr>vc_messageStore := []\<rparr>) ts"
    using inv by (auto simp: account_inv_def handed_on_def)
  have "account_inv (s\<lparr>vc_messageStore := []\<rparr>) ([] @ ts)"
  proof (rule account_step [OF inv])
    fix k assume "section_ok s (Cancel_Rest e [] # ts) k"
    with h show "section_ok (s\<lparr>vc_messageStore := []\<rparr>) ([] @ ts) k" by (cases k) auto
  next
    show "store_inv (s\<lparr>vc_messageStore := []\<rparr>)" using std.invar_empty by (simp add: store_inv_def)
  qed (use inv h in \<open>auto simp: account_inv_def\<close>)
  then show ?thesis by simp
qed

lemma account_Call:
  assumes inv: "account_inv s (Call p e q r # ts)" and p: "p < length (vc_items s)"
    and s': "s' = run_callback d (set_item p ((vc_items s ! p)\<lparr>ri_callback := c\<rparr>) s)" and d: "d_item d = p"
  shows "account_inv s' (In_Callback # ts)"
proof -
  let ?t = "set_item p ((vc_items s ! p)\<lparr>ri_callback := c\<rparr>) s"
  have same: "vc_messageStore s' = vc_messageStore s" "vc_sendQueue s' = vc_sendQueue s"
    "vc_delivered s' = vc_delivered s @ [d]" "length (vc_items s') = length (vc_items s)"
    "vc_configuration s' = vc_configuration s" "vc_messageID s' = vc_messageID s"
    by (simp_all add: s' set_item_def)
  have id: "ri_messageID (vc_items s' ! k) = ri_messageID (vc_items s ! k)" if "k < length (vc_items s)" for k
    using that by (cases "k = p") (simp_all add: s' set_item_def)
  have h: "handed_on s (Call p e q r # ts) \<subseteq> handed_on s' ([In_Callback] @ ts)"
    using d by (auto simp: handed_on_def same)
  have "account_inv s' ([In_Callback] @ ts)"
  proof (rule account_step [OF inv])
    fix k assume "section_ok s (Call p e q r # ts) k"
    with h d show "section_ok s' ([In_Callback] @ ts) k" by (cases k) (auto simp: same)
  next
    show "id_inv s'" "store_inv s'"
      using inv id by (auto simp: account_inv_def id_inv_def store_inv_def same inj_on_def)
  qed (use inv h in \<open>auto simp: same\<close>)
  then show ?thesis by simp
qed

text \<open>A section keeps the account, whatever the other threads have begun.\<close>

lemma section_account:
  assumes step: "section_step L u t s = Inr (s', new)" and calls: "calls_inv s (t # ts)" and inv: "account_inv s (t # ts)"
    and free: "\<forall>k \<in> set ts. needs t \<inter> holds k = {}"
    and rem: "\<And>i. t = Remove_Item i \<Longrightarrow> \<exists>p < length (vc_items s). ri_messageID (vc_items s ! p) = i \<and> p \<in> carried ts"
  shows "account_inv s' (new @ ts)"
proof (cases t)
  case (Work k)
  show ?thesis
  proof (cases "(\<exists>w. k = Next_Request w) \<or> (\<exists>r c. k = Read_Chunks r c)")
    case True
    then show ?thesis
    proof (elim disjE exE)
      fix w assume "k = Next_Request w"
      with step Work account_Next_Request [of s w ts] inv free account_plain [OF inv, of s "[]"] show ?thesis
        by (auto simp: same_calls_def split: if_splits)
    next
      fix r c assume "k = Read_Chunks r c"
      with step Work show ?thesis
        by (intro account_plain [OF inv]) (auto simp: same_calls_def split: if_splits)
    qed
  next
    case False
    then obtain ks where ks: "task_step L u k s = Inr (s', ks)" "new = map Work ks"
      using Work_sections [of L u k s s' new] step Work by blast
    show ?thesis
    proof (cases "\<exists>p. k = Queue_Add p")
      case True
      with step Work account_Queue_Add inv show ?thesis by auto
    next
      case no_add: False
      have "vc_sendQueue s' = vc_sendQueue s"
        using ks(1) False no_add
        by (cases k) (auto simp: section_defs pend_def Let_def elim: shouldStopReading_cases split: option.splits prod.splits)
      then show ?thesis
        using task_same [OF ks(1)] False ks(2) Work no_add by (intro account_plain [OF inv]) auto
    qed
  qed
next
  case (Next_Front w)
  show ?thesis
  proof (cases "vc_sendQueue s")
    case Nil
    with step Next_Front show ?thesis
      by (intro account_plain [OF inv]) (auto simp: queue_front_def same_calls_def)
  next
    case (Cons p q)
    with step Next_Front inv account_Next_Front [of s w ts p q] show ?thesis by (auto simp: queue_front_def)
  qed
next
  case (Next_Store w p)
  with step inv calls free account_Next_Store [of s w p ts] show ?thesis by (auto simp: calls_inv_def)
next
  case (Next_Remove w p)
  moreover obtain q where "vc_sendQueue s = p # q" using inv Next_Remove by (auto simp: account_inv_def)
  ultimately show ?thesis using step inv account_Next_Remove [of s w p ts q] by (auto simp: removeFirst_def)
next
  case (Remove_Item i)
  with rem obtain p where "p < length (vc_items s)" "ri_messageID (vc_items s ! p) = i" "p \<in> carried ts" by blast
  with step Remove_Item inv free account_Remove_Item [of s p ts s'] show ?thesis by auto
next
  case (Assemble c p)
  then have "vc_sendQueue s' = vc_sendQueue s" "vc_messageStore s' = vc_messageStore s" "\<forall>k \<in> set new. plain k"
    using step by (auto simp: set_item_def bind_res_def split: sum.splits prod.splits option.splits)
  with section_same [OF step] Assemble show ?thesis by (intro account_plain [OF inv]) auto
next
  case (Call p e q r)
  show ?thesis using step [unfolded Call] calls [unfolded Call]
  proof (cases rule: call_cases)
    case again
    with Call show ?thesis by (intro account_plain [OF inv]) auto
  next
    case (first cb)
    with Call inv account_Call [OF _ first(1) first(5)] show ?thesis by simp
  qed
next
  case (Cancel_All e)
  with step inv free account_Cancel_All show ?thesis by auto
next
  case (Cancel_Rest e m)
  with step inv account_Cancel_Rest account_Cancel_done show ?thesis by (cases m) auto
next
  case (Insert_Front p)
  with inv show ?thesis by (simp add: account_inv_def)
next
  case (Find_Item c)
  with step show ?thesis by (intro account_plain [OF inv]) (auto simp: same_calls_def split: option.splits)
next
  case (Take_Request p e r)
  with step section_same [OF step] show ?thesis by (intro account_plain [OF inv]) (auto simp: Let_def set_item_def)
next
  case Init_Socket
  with step section_same [OF step] show ?thesis
    by (intro account_plain [OF inv]) (auto simp: initSocket_def startConnect_def pend_def check_def Let_def split: if_splits)
qed (use step section_same [OF step] in \<open>(intro account_plain [OF inv];
    auto simp: restart_sections_def shutdown_sections_def stopWriting_def stopReading_def shutdownSocket_def
      startResolveHost_def pend_def check_def split: if_splits)+\<close>)

lemma account_idle: "account_inv s (In_Callback # ts) = account_inv s ts"
proof -
  have "section_ok s (In_Callback # ts) k = section_ok s ts k" for k by (rule section_ok_set) simp
  then show ?thesis by (simp add: account_inv_def handed_on_def)
qed

lemma created_account:
  assumes c: "createRequestItem L u req cb s = (s', Inr p)" and ids: "ids_left s" and inv: "account_inv s ts"
  shows "account_inv s' (Work (Queue_Add p) # ts)"
proof -
  obtain item where p: "p = length (vc_items s)"
    and s': "s' = s\<lparr>vc_messageID := vc_messageID s + 1, vc_items := vc_items s @ [item]\<rparr>"
    and item: "ri_messageID item = vc_messageID s + 1"
    by (rule created_item [OF c])
  have "vc_messageID s < vc_messageID s + 1"
    using ids u64_succ [of "vc_messageID s"] by (simp add: ids_left_def)
  then have lt: "i < vc_messageID s + 1" if "i \<le> vc_messageID s" for i
    using that by (rule le_less_trans [rotated])
  have i: "id_inv s" "store_inv s" using inv by (simp_all add: account_inv_def)
  have below: "ri_messageID (vc_items s ! q) < vc_messageID s + 1" if "q < length (vc_items s)" for q
    using i(1) lt that by (simp add: id_inv_def)
  then have "ri_messageID (vc_items s ! q) \<noteq> vc_messageID s + 1" "vc_messageID s + 1 \<noteq> ri_messageID (vc_items s ! q)"
    if "q < length (vc_items s)" for q
    using that by fastforce+
  then have "id_inv s'" using i(1) below
    by (auto simp: s' id_inv_def item inj_on_def nth_append less_Suc_eq intro: less_imp_le)
  moreover have "store_inv s'" using i(2) by (auto simp: s' store_inv_def nth_append)
  moreover have "section_ok s' (Work (Queue_Add p) # ts) k" if "k \<in> set ts" for k
  proof -
    have "section_ok s ts k" using that inv by (simp add: account_inv_def)
    then show ?thesis by (cases k) (auto simp: handed_on_def s')
  qed
  ultimately show ?thesis
    using inv by (auto simp: account_inv_def handed_on_def s' p less_Suc_eq)
qed

lemma event_plain:
  assumes "event_sections L u ev s = Inr (s', new)" and "pending_of ev \<noteq> None"
    and "c_authenticationType (vc_configuration s) = None_Auth"
  shows "vc_sendQueue s' = vc_sendQueue s \<and> vc_messageStore s' = vc_messageStore s \<and> (\<forall>k \<in> set new. plain k)"
proof (cases ev)
  case (Connected eps e)
  with assms show ?thesis
    by (auto simp: asyncConnectCallback_def startSSLHandshake_def finishInitialization_def pend_def
        shutdown_sections_def split: option.splits if_splits)
next
  case (Handshaken e)
  with assms show ?thesis by (auto simp: finishInitialization_def pend_def split: option.splits)
next
  case (Written w p e)
  with assms show ?thesis by (auto simp: set_item_def Let_def split: if_splits)
next
  case (Header_Written e)
  with assms show ?thesis by (auto simp: shutdown_sections_def split: option.splits)
qed (use assms in \<open>auto split: option.splits if_splits\<close>)

lemma event_account:
  assumes ev: "event_sections L u ev (finish ev s) = Inr (s', new)" "pending_of ev \<noteq> None" and inv: "account_inv s ts"
  shows "account_inv s' (new @ ts)"
proof -
  let ?f = "finish ev s"
  have f: "vc_configuration ?f = vc_configuration s" "vc_sendQueue ?f = vc_sendQueue s"
    "vc_messageStore ?f = vc_messageStore s"
    by (simp_all add: finish_def split: option.splits)
  have auth: "c_authenticationType (vc_configuration ?f) = None_Auth" using inv f by (simp add: account_inv_def)
  obtain op where op: "pending_of ev = Some op" using ev(2) by blast
  have "same_calls ?f s'" using event_same [OF ev(1) op] auth by simp
  then have same: "same_calls s s'" using finish_pointers(2) [of s ev] by (auto simp: same_calls_def)
  show ?thesis
    by (rule account_plain [of s In_Callback]) (use same f event_plain [OF ev(1,2) auth] inv in \<open>simp_all add: account_idle\<close>)
qed

lemma event_removal:
  assumes ev: "event_sections L u ev (finish ev s) = Inr (s', new)" "pending_of ev \<noteq> None" "enabled ev s"
    and calls: "calls_inv s ts" and auth: "c_authenticationType (vc_configuration s) = None_Auth"
  shows "removal_ok s' new"
proof (cases "\<exists>w p. ev = Written w p True")
  case True
  then obtain w p where w: "ev = Written w p True" by blast
  have "p < length (vc_items s)"
    using ev(3) calls w by (force simp: enabled_def calls_inv_def pointers_def)
  with ev(1) w show ?thesis by (auto simp: Let_def finish_def)
next
  case False
  have conf: "vc_configuration (finish ev s) = vc_configuration s" by (simp add: finish_def split: option.splits)
  have "\<forall>i. Remove_Item i \<notin> set new"
    using ev(1,2) False auth conf
    by (cases ev) (auto simp: shutdown_sections_def Let_def split: option.splits if_splits)
  then show ?thesis using removal_ok_append [of s' "[]" new] by simp
qed

lemma section_ids:
  assumes "section_step L u t s = Inr (s', new)" and "calls_inv s (t # ts)"
  shows "length (vc_items s') = length (vc_items s) \<and>
    (\<forall>p < length (vc_items s). ri_messageID (vc_items s' ! p) = ri_messageID (vc_items s ! p))"
proof (cases "\<exists>p e q r. t = Call p e q r")
  case True
  then obtain p e q r where t: "t = Call p e q r" by blast
  show ?thesis using assms [unfolded t]
    by (cases rule: call_cases) (auto simp: same_calls_def set_item_def nth_list_update)
next
  case False
  with section_same [OF assms(1)] show ?thesis by (simp add: same_calls_def)
qed

lemma section_removal:
  assumes step: "section_step L u t s = Inr (s', new)" and calls: "calls_inv s (t # ts @ rest)" and ok: "removal_ok s (t # ts)"
  shows "removal_ok s' (new @ ts)"
proof -
  have "removal_ok s' ts"
    using removal_ok_same [of s ts s'] ok section_ids [OF step calls] by simp
  moreover have "removal_ok s' (new @ ts)" if "t = Assemble c p" "removal_ok s' ts" for c p
  proof -
    obtain it item b where it: "addChunk c (vc_items s ! p) = Inr it" "assemble it = Inr (item, b)"
      and new: "new = (case b of None \<Rightarrow> [] | Some buffer \<Rightarrow> [Remove_Item (ri_messageID item), Respond p (ri_messageID item) buffer])"
      using step \<open>t = Assemble c p\<close> by (auto simp: bind_res_def split: sum.splits prod.splits)
    have "p < length (vc_items s)" using calls \<open>t = Assemble c p\<close> by (simp add: calls_inv_def)
    with item_fields_same(2) [OF it] section_ids [OF step calls] new that(2) show ?thesis by (cases b) auto
  qed
  moreover have "\<forall>i. Remove_Item i \<notin> set new" if "\<forall>c p. t \<noteq> Assemble c p"
  proof (cases t)
    case (Work k)
    show ?thesis
    proof (cases "(\<exists>w. k = Next_Request w) \<or> (\<exists>r c. k = Read_Chunks r c)")
      case True
      with step Work show ?thesis by (auto split: if_splits)
    next
      case False
      then obtain ks where "new = map Work ks"
        using Work_sections [of L u k s s' new] step Work by blast
      then show ?thesis by auto
    qed
  next
    case (Cancel_Rest e m)
    with step show ?thesis by (cases m) auto
  next
    case (Call p e q r)
    have "new = [] \<or> new = [In_Callback]" using step [unfolded Call] calls [unfolded Call]
      by (cases rule: call_cases) simp_all
    then show ?thesis by auto
  next
    case (Take_Request p e r)
    with step show ?thesis by (auto simp: Let_def)
  qed (use that step in \<open>auto simp: restart_sections_def shutdown_sections_def check_def split: option.splits if_splits\<close>)
  ultimately show ?thesis using removal_ok_append [of s' ts new] by blast
qed

definition race_inv :: "'u races \<Rightarrow> bool" where
  "race_inv st \<longleftrightarrow> calls_inv (ra_conn st) (concat (ra_stacks st)) \<and> account_inv (ra_conn st) (concat (ra_stacks st)) \<and>
     (\<forall>ts \<in> set (ra_stacks st). removal_ok (ra_conn st) ts)"

lemma removal_others:
  assumes "\<forall>ts \<in> set ss. removal_ok s ts" and "length (vc_items s) \<le> length (vc_items s')"
    and "\<forall>p < length (vc_items s). ri_messageID (vc_items s' ! p) = ri_messageID (vc_items s ! p)" and "removal_ok s' x"
  shows "\<forall>ts \<in> set (ss[i := x]). removal_ok s' ts"
  using removal_ok_same [OF _ assms(2,3)] assms(1,4) set_update_subset_insert [of ss i x] by blast

lemma race_step_inv:
  assumes "race_step L u st st'" and "race_inv st"
  shows "race_inv st'"
proof -
  have calls': "calls_inv (ra_conn st') (concat (ra_stacks st'))"
    using race_step_calls [OF assms(1)] assms(2) by (simp add: race_inv_def)
  show ?thesis using assms(1)
  proof cases
    case (run i ss t ts s s' new)
    have calls: "calls_inv s (concat ss)" and inv: "account_inv s (concat ss)" and ok: "\<forall>ts \<in> set ss. removal_ok s ts"
      using assms(2) run by (simp_all add: race_inv_def)
    obtain rest where rest: "mset (concat ss) = mset (ss ! i @ rest)" "\<forall>x. mset (concat (ss[i := x])) = mset (x @ rest)"
      using stack_split [OF run(3)] by blast
    have c: "calls_inv s (t # ts @ rest)" using calls.inv_mset [OF rest(1), of s] calls run(4) by simp
    have a: "account_inv s (t # ts @ rest)" using account.inv_mset [OF rest(1), of s] inv run(4) by simp
    have r: "removal_ok s (t # ts)" using ok run(3,4) by (metis nth_mem)
    have "set (ts @ rest) \<subseteq> set (concat ss)" using mset_eq_setD [OF rest(1)] run(4) by auto
    then have free: "\<forall>k \<in> set (ts @ rest). needs t \<inter> holds k = {}"
      using run(5) unfolding locked_def by fastforce
    have "account_inv s' (new @ ts @ rest)"
      by (rule section_account [OF run(6) c a free]) (use r in auto)
    then have "account_inv s' (concat (ss[i := new @ ts]))"
      using account.inv_mset [OF spec [OF rest(2), of "new @ ts"], of s'] by simp
    moreover have "\<forall>ts \<in> set (ss[i := new @ ts]). removal_ok s' ts"
      by (rule removal_others [OF ok]) (use section_ids [OF run(6) c] section_removal [OF run(6) c r] in simp_all)
    ultimately show ?thesis using calls' run by (simp add: race_inv_def)
  next
    case (send i ss s req cb s' p)
    have inv: "account_inv s (concat ss)" and ok: "\<forall>ts \<in> set ss. removal_ok s ts"
      using assms(2) send by (simp_all add: race_inv_def)
    have ids: "length (vc_items s) \<le> length (vc_items s')"
      "\<forall>p < length (vc_items s). ri_messageID (vc_items s' ! p) = ri_messageID (vc_items s ! p)"
      by (rule created_item [OF send(6)]; simp add: nth_append)+
    have "account_inv s' (concat (ss[i := Work (Queue_Add p) # ss ! i]))"
      by (rule account.step_stack [OF send(3) inv]) (use created_account [OF send(6,5)] in simp)
    moreover have "removal_ok s' (Work (Queue_Add p) # ss ! i)"
      using removal_ok_same [OF _ ids] ok send(3) by simp
    then have "\<forall>ts \<in> set (ss[i := Work (Queue_Add p) # ss ! i]). removal_ok s' ts"
      by (rule removal_others [OF ok ids])
    ultimately show ?thesis using calls' send by (simp add: race_inv_def)
  next
    case (event i ss ev s s' new)
    have calls: "calls_inv s (concat ss)" and inv: "account_inv s (concat ss)" and ok: "\<forall>ts \<in> set ss. removal_ok s ts"
      using assms(2) event by (simp_all add: race_inv_def)
    have auth: "c_authenticationType (vc_configuration s) = None_Auth" using inv by (simp add: account_inv_def)
    have f: "same_calls s (finish ev s)" by (rule finish_pointers)
    obtain op where op: "pending_of ev = Some op" using event(5) by blast
    have "c_authenticationType (vc_configuration (finish ev s)) = None_Auth" using f auth by (simp add: same_calls_def)
    then have "same_calls (finish ev s) s'" using event_same [OF event(8) op] by simp
    then have ids: "length (vc_items s) \<le> length (vc_items s')"
      "\<forall>p < length (vc_items s). ri_messageID (vc_items s' ! p) = ri_messageID (vc_items s ! p)"
      using f by (simp_all add: same_calls_def)
    have "account_inv s' (concat (ss[i := new]))"
      by (rule account.step_stack [OF event(3) inv]) (use event event_account [OF event(8,5)] in simp)
    moreover have "\<forall>ts \<in> set (ss[i := new]). removal_ok s' ts"
      by (rule removal_others [OF ok ids event_removal [OF event(8,5,6) calls auth]])
    ultimately show ?thesis using calls' event by (simp add: race_inv_def)
  qed
qed

lemma races_inv: "(race_step L u)\<^sup>*\<^sup>* st st' \<Longrightarrow> race_inv st \<Longrightarrow> race_inv st'"
  by (induction rule: rtranclp_induct) (auto intro: race_step_inv)

lemma start_race_inv:
  assumes "reachable L u conf s" and "c_authenticationType (vc_configuration s) = None_Auth"
  shows "race_inv (race_threads n s)"
proof -
  have inv: "pool_inv (waiting s) s" "id_inv s" "store_inv s"
    using reachable_item [OF assms(1)] by (simp_all add: item_inv_def)
  have "waiting s + mset (map d_item (vc_delivered s)) = mset [0..<length (vc_items s)]"
    using inv(1) by (simp add: pool_inv_def)
  from arg_cong [OF this, of set_mset]
  have "set_mset (waiting s) \<union> d_item ` set (vc_delivered s) = {..<length (vc_items s)}" by auto
  then have "\<forall>p < length (vc_items s). p \<in> set (vc_sendQueue s) \<or> p \<in> handed_on s []"
    by (auto simp: waiting_def handed_on_def stored_def)
  then have "account_inv s []" using inv assms(2) by (simp add: account_inv_def)
  with start_calls [OF assms(1), of n] show ?thesis
    by (auto simp: race_inv_def race_threads_def concat_idle)
qed


theorem mutual_exclusion:
  assumes "reachable L u conf s" and "c_authenticationType (vc_configuration s) = None_Auth"
    and "(race_step L u)\<^sup>*\<^sup>* (race_threads n s) st"
  shows "holders m (concat (ra_stacks st)) \<le> 1"
  using races_inv [OF assms(3) start_race_inv [OF assms(1,2)]] unfolding race_inv_def account_inv_def by blast

end
