(* ===== verification/VstRaceBugs.thy ===== *)
theory VstRaceBugs
  imports VstRaceAccount
begin

text \<open>
  Runs of the threads of \<open>VstRaceCalls\<close> that end badly: a failed assertion, a null pointer and a deadlock.
  Each is a sequence of steps, put together from the runs of its parts (\<open>restart_run\<close>, \<open>cancel_run\<close>).
\<close>

section \<open>Races\<close>

text \<open>A run, extended by the next section of thread \<open>i\<close>.\<close>

lemma run_next:
  assumes "(race_step L u)\<^sup>*\<^sup>* st \<lparr>ra_conn = s, ra_stacks = ss\<rparr>" and "i < length ss" and "ss[i := new @ ts] = ss'"
    and "needs t \<inter> locked ss = {}" and "section_step L u t s = Inr (s', new)" and "ss ! i = t # ts"
  shows "(race_step L u)\<^sup>*\<^sup>* st \<lparr>ra_conn = s', ra_stacks = ss'\<rparr>"
  using rtranclp.rtrancl_into_rtrancl [OF assms(1) race_step.run [OF assms(2,6,4,5)]] assms(3) by simp

text \<open>A thread that restarts the connection comes to the cancellation of the requests.\<close>

lemma restart_run:
  assumes run: "(race_step L u)\<^sup>*\<^sup>* st \<lparr>ra_conn = s, ra_stacks = ss\<rparr>" and i: "i < length ss" "ss ! i = [Restart_Read r e]"
    and free: "locked ss = {}" and r: "vc_readLoop s = Some r"
  shows "(race_step L u)\<^sup>*\<^sup>* st
    \<lparr>ra_conn = shutdownSocket (s\<lparr>vc_readLoop := None, vc_writeLoop := None\<rparr>),
     ra_stacks = ss[i := [Cancel_Rest e (vc_messageStore s), Resolve_Again]]\<rparr>"
proof -
  let ?s = "s\<lparr>vc_readLoop := None, vc_writeLoop := None\<rparr>"
  have others: "locked (ss[i := ts]) = (\<Union>t \<in> set ts. holds t)" for ts
  proof -
    have "\<forall>ks \<in> set ss. \<forall>k \<in> set ks. holds k = {}" using free by (auto simp: locked_def)
    then show ?thesis
      using set_update_subset_insert [of ss i ts] set_update_memI [OF i(1), of ts] unfolding locked_def by fastforce
  qed
  have stop: "stopReading ?s = ?s" "stopWriting ?s = ?s" by (simp_all add: stopReading_def stopWriting_def)
  note more = run_next [where i = i]
  have "(race_step L u)\<^sup>*\<^sup>* st \<lparr>ra_conn = ?s, ra_stacks = ss[i := restart_sections e]\<rparr>"
    by (rule more [where t = "Restart_Read r e" and ts = "[]" and new = "restart_sections e", OF run]) (use i r free in simp_all)
  then have "(race_step L u)\<^sup>*\<^sup>* st \<lparr>ra_conn = ?s,
      ra_stacks = ss[i := [Assert_Writer, Stop_Writing, Stop_Reading, Shutdown_Socket, Cancel_All e, Resolve_Again]]\<rparr>"
    by (rule more) (use i in \<open>simp_all add: restart_sections_def shutdown_sections_def check_def\<close>)
  then have "(race_step L u)\<^sup>*\<^sup>* st \<lparr>ra_conn = ?s,
      ra_stacks = ss[i := [Stop_Writing, Stop_Reading, Shutdown_Socket, Cancel_All e, Resolve_Again]]\<rparr>"
    by (rule more) (use i in \<open>simp_all add: check_def\<close>)
  then have "(race_step L u)\<^sup>*\<^sup>* st \<lparr>ra_conn = ?s,
      ra_stacks = ss[i := [Stop_Reading, Shutdown_Socket, Cancel_All e, Resolve_Again]]\<rparr>"
    by (rule more) (use i stop in \<open>simp_all add: others\<close>)
  then have "(race_step L u)\<^sup>*\<^sup>* st \<lparr>ra_conn = ?s,
      ra_stacks = ss[i := [Shutdown_Socket, Cancel_All e, Resolve_Again]]\<rparr>"
    by (rule more) (use i stop in simp_all)
  then have "(race_step L u)\<^sup>*\<^sup>* st \<lparr>ra_conn = shutdownSocket ?s, ra_stacks = ss[i := [Cancel_All e, Resolve_Again]]\<rparr>"
    by (rule more) (use i in simp_all)
  then show ?thesis
    by (rule more) (use i in \<open>simp_all add: others shutdownSocket_def\<close>)
qed

lemma createRequestItem_pending:
  "createRequestItem L u req cb s = (s1, Inr p) \<Longrightarrow>
     createRequestItem L u req cb (s\<lparr>vc_pending := ps\<rparr>) = (s1\<lparr>vc_pending := ps\<rparr>, Inr p)"
  by (auto simp: createRequestItem_def Let_def split: sum.splits)

lemma finish_pending: "pending_of ev = Some op \<Longrightarrow> finish ev s = s\<lparr>vc_pending := remove1 op (vc_pending s)\<rparr>"
  by (simp add: finish_def)

lemma race_threads_2: "race_threads 2 s = \<lparr>ra_conn = s, ra_stacks = [[], []]\<rparr>"
  by (simp add: race_threads_def numeral_2_eq_2)

text \<open>
  Between the reset of both loops and the assertion that there are none, \<open>restartConnection\<close> holds no
  mutex: a request that another thread sends there starts a write loop, and the assertion fails.
\<close>

theorem send_races_with_restart:
  assumes "vc_readLoop s = Some r" and "vc_connected s" and "ids_left s" and "Read_Deadline r t \<in> set (vc_pending s)"
    and "createRequestItem L u req (User_Callback cb) s = (s1, Inr p)"
  shows "\<exists>st ts ts'. (race_step L u)\<^sup>*\<^sup>* (race_threads 2 s) st \<and> ra_stacks st = [Assert_Writer # ts, ts'] \<and>
    section_step L u Assert_Writer (ra_conn st) = Inl (Assertion ''!_writeLoop._current'')"
proof -
  let ?ev = "Read_Timer r t False :: 'a event"
  let ?f = "s\<lparr>vc_pending := remove1 (Read_Deadline r t) (vc_pending s)\<rparr>"
  obtain item where s1: "s1 = s\<lparr>vc_messageID := vc_messageID s + 1, vc_items := vc_items s @ [item]\<rparr>"
    by (rule created_item [OF assms(5)])
  let ?g = "s1\<lparr>vc_pending := remove1 (Read_Deadline r t) (vc_pending s)\<rparr>"
  let ?h = "?g\<lparr>vc_readLoop := None, vc_writeLoop := None\<rparr>"
  let ?q = "?h\<lparr>vc_sendQueue := queue_add p (vc_sendQueue ?h)\<rparr>"
  obtain v where w: "startWriting_locked ?q = (v, Some (length (vc_writeLoops ?q)))" "vc_writeLoop v = Some (length (vc_writeLoops ?q))"
    by (simp add: startWriting_locked_def Let_def)
  note more0 = run_next [where i = 0] and more1 = run_next [where i = 1]
  have "race_step L u (race_threads 2 s) \<lparr>ra_conn = ?f, ra_stacks = [[], []][0 := [Restart_Read r Timeout]]\<rparr>"
    unfolding race_threads_2 by (rule race_step.event [where ev = ?ev]) (use assms in \<open>simp_all add: enabled_def finish_pending\<close>)
  then have "(race_step L u)\<^sup>*\<^sup>* (race_threads 2 s) \<lparr>ra_conn = ?f, ra_stacks = [[Restart_Read r Timeout], []]\<rparr>"
    by (simp add: r_into_rtranclp)
  moreover have "race_step L u \<lparr>ra_conn = ?f, ra_stacks = [[Restart_Read r Timeout], []]\<rparr>
      \<lparr>ra_conn = ?g, ra_stacks = [[Restart_Read r Timeout], []][1 := Work (Queue_Add p) # [[Restart_Read r Timeout], []] ! 1]\<rparr>"
    by (rule race_step.send [OF _ _ _ createRequestItem_pending [OF assms(5)]]) (use assms(3) in \<open>simp_all add: ids_left_def\<close>)
  ultimately have "(race_step L u)\<^sup>*\<^sup>* (race_threads 2 s)
      \<lparr>ra_conn = ?g, ra_stacks = [[Restart_Read r Timeout], [Work (Queue_Add p)]]\<rparr>"
    by (simp add: rtranclp.rtrancl_into_rtrancl)
  then have "(race_step L u)\<^sup>*\<^sup>* (race_threads 2 s)
      \<lparr>ra_conn = ?h, ra_stacks = [restart_sections Timeout, [Work (Queue_Add p)]]\<rparr>"
    by (rule more0 [where t = "Restart_Read r Timeout" and ts = "[]" and new = "restart_sections Timeout"]) (use assms(1) s1 in \<open>simp_all add: locked_def\<close>)
  then have "(race_step L u)\<^sup>*\<^sup>* (race_threads 2 s)
      \<lparr>ra_conn = ?h, ra_stacks = [tl (restart_sections Timeout), [Work (Queue_Add p)]]\<rparr>"
    by (rule more0) (simp_all add: restart_sections_def check_def)
  then have "(race_step L u)\<^sup>*\<^sup>* (race_threads 2 s)
      \<lparr>ra_conn = ?q, ra_stacks = [tl (restart_sections Timeout), [Work Check_Connected]]\<rparr>"
    by (rule more1) simp_all
  then have "(race_step L u)\<^sup>*\<^sup>* (race_threads 2 s)
      \<lparr>ra_conn = ?q, ra_stacks = [tl (restart_sections Timeout), [Work Start_Writing]]\<rparr>"
    by (rule more1) (use assms(2) s1 in simp_all)
  then have "(race_step L u)\<^sup>*\<^sup>* (race_threads 2 s) \<lparr>ra_conn = v,
      ra_stacks = [tl (restart_sections Timeout), [Work (Next_Request (length (vc_writeLoops ?q)))]]\<rparr>"
    by (rule more1) (use w in \<open>simp_all add: locked_def restart_sections_def shutdown_sections_def\<close>)
  with w(2) show ?thesis
    by (intro exI conjI) (assumption, simp_all add: restart_sections_def check_def)
qed

theorem send_races_with_restart_witness:
  "\<exists>st ts ts'. (race_step sized_vpack sample_chunk)\<^sup>*\<^sup>* (race_threads 2 sample_busy) st \<and> ra_stacks st = [Assert_Writer # ts, ts'] \<and>
     section_step sized_vpack sample_chunk Assert_Writer (ra_conn st) = Inl (Assertion ''!_writeLoop._current'')"
  by (rule send_races_with_restart [where r = 1 and t = 30000, OF _ _ _ _ sample_create]) (simp_all add: ids_left_def)

text \<open>A thread that waits for a mutex which its own stack holds waits forever.\<close>

lemma self_lock:
  assumes "(race_step L u)\<^sup>*\<^sup>* st st'" and i: "i < length (ra_stacks st)" "ra_stacks st ! i = t # ts"
    and t: "t \<noteq> In_Callback" "m \<in> needs t" "k \<in> set (t # ts)" "m \<in> holds k"
  shows "i < length (ra_stacks st') \<and> ra_stacks st' ! i = t # ts"
  using assms(1)
proof (induction rule: rtranclp_induct)
  case (step y z)
  then have y: "i < length (ra_stacks y)" "ra_stacks y ! i = t # ts" by simp_all
  then have m: "m \<in> locked (ra_stacks y)" using t(3,4) unfolding locked_def by (metis UN_iff nth_mem)
  from step(2) show ?case
  proof cases
    case (run j ss t' ts' s s' new)
    with y m t(2) have "j \<noteq> i" by auto
    with run y show ?thesis by simp
  next
    case (send j ss s req cb s' p)
    with y t(1) have "j \<noteq> i" by auto
    with send y show ?thesis by simp
  next
    case (event j ss ev s s' new)
    with y have "j \<noteq> i" by auto
    with event y show ?thesis by simp
  qed
qed (use i in simp)

lemma locked_update:
  assumes "i < length ss"
  shows "locked (ss[i := ts]) \<subseteq> locked ss \<union> (\<Union>t \<in> set ts. holds t)"
  using set_update_subset_insert [of ss i ts] by (fastforce simp: locked_def)

lemma queue_front_add: "\<exists>q. queue_front (queue_add p m) = Some q"
  by (cases m) (simp_all add: queue_front_def queue_add_def)

text \<open>A callback that sends a request comes to the point where the request is stored, with the mutex of the write loop.\<close>

lemma retry_run:
  assumes i: "i < length ss" "ss ! i = In_Callback # ts"
    and s: "vc_connected s" "vc_writeLoop s = None" "\<not> vc_permanent_failure s" "ids_left s"
    and free: "Write_Mutex \<notin> locked ss"
    and create: "createRequestItem L u req (User_Callback cb) s = (s1, Inr p)"
  shows "\<exists>v w q. (race_step L u)\<^sup>*\<^sup>* \<lparr>ra_conn = s, ra_stacks = ss\<rparr>
    \<lparr>ra_conn = v, ra_stacks = ss[i := Next_Store w q # In_Callback # ts]\<rparr>"
proof -
  obtain item where s1: "s1 = s\<lparr>vc_messageID := vc_messageID s + 1, vc_items := vc_items s @ [item]\<rparr>"
    by (rule created_item [OF create])
  let ?q = "s1\<lparr>vc_sendQueue := queue_add p (vc_sendQueue s1)\<rparr>" and ?w = "length (vc_writeLoops s1)"
  let ?c = "In_Callback # ts"
  obtain v where v: "startWriting_locked ?q = (v, Some ?w)" "vc_writeLoop v = Some ?w"
      "vc_permanent_failure v = vc_permanent_failure s" "vc_sendQueue v = queue_add p (vc_sendQueue s1)"
    using s s1 by (simp add: startWriting_locked_def Let_def)
  obtain q where q: "queue_front (vc_sendQueue v) = Some q" using queue_front_add v(4) by metis
  have unlocked: "Write_Mutex \<notin> locked (ss[i := Work k # ?c])" for k
  proof -
    have "Write_Mutex \<notin> (\<Union>k \<in> set ts. holds k)"
      using free i unfolding locked_def by (metis UN_I insertI2 list.simps(15) nth_mem UN_iff)
    then show ?thesis using locked_update [OF i(1), of "Work k # ?c"] free by auto
  qed
  note more = run_next [where i = i and ts = ?c]
  have "race_step L u \<lparr>ra_conn = s, ra_stacks = ss\<rparr> \<lparr>ra_conn = s1, ra_stacks = ss[i := Work (Queue_Add p) # ss ! i]\<rparr>"
    by (rule race_step.send [OF i(1) _ s(4) create]) (use i(2) in simp)
  then have "(race_step L u)\<^sup>*\<^sup>* \<lparr>ra_conn = s, ra_stacks = ss\<rparr> \<lparr>ra_conn = s1, ra_stacks = ss[i := Work (Queue_Add p) # ?c]\<rparr>"
    using i(2) by (simp add: r_into_rtranclp)
  then have "(race_step L u)\<^sup>*\<^sup>* \<lparr>ra_conn = s, ra_stacks = ss\<rparr> \<lparr>ra_conn = ?q, ra_stacks = ss[i := Work Check_Connected # ?c]\<rparr>"
    by (rule more) (use i in simp_all)
  then have "(race_step L u)\<^sup>*\<^sup>* \<lparr>ra_conn = s, ra_stacks = ss\<rparr> \<lparr>ra_conn = ?q, ra_stacks = ss[i := Work Start_Writing # ?c]\<rparr>"
    by (rule more) (use i s s1 in simp_all)
  then have "(race_step L u)\<^sup>*\<^sup>* \<lparr>ra_conn = s, ra_stacks = ss\<rparr> \<lparr>ra_conn = v, ra_stacks = ss[i := Work (Next_Request ?w) # ?c]\<rparr>"
    by (rule more) (use i v unlocked in simp_all)
  then have "(race_step L u)\<^sup>*\<^sup>* \<lparr>ra_conn = s, ra_stacks = ss\<rparr> \<lparr>ra_conn = v, ra_stacks = ss[i := Next_Front ?w # ?c]\<rparr>"
    by (rule more) (use i v s unlocked in simp_all)
  then have "(race_step L u)\<^sup>*\<^sup>* \<lparr>ra_conn = s, ra_stacks = ss\<rparr> \<lparr>ra_conn = v, ra_stacks = ss[i := Next_Store ?w q # ?c]\<rparr>"
    by (rule more) (use i v q in simp_all)
  then show ?thesis by blast
qed

text \<open>
  C34: a retry inside a callback deadlocks. When a thread is in a callback that \<open>cancelAll\<close> calls, and the
  callback sends a request, as a client does that retries, then the thread can come to the point where
  it locks the mutex of the message store, which it holds; it never gets past it, whatever all
  threads do from then on, and the mutexes of the store and of the write loop stay locked forever.
\<close>

theorem retry_in_callback_deadlocks:
  assumes i: "i < length ss" "ss ! i = In_Callback # ts" and hold: "Cancel_Rest e m \<in> set ts"
    and s: "vc_connected s" "vc_writeLoop s = None" "\<not> vc_permanent_failure s" "ids_left s"
    and free: "Write_Mutex \<notin> locked ss"
    and create: "createRequestItem L u req (User_Callback cb) s = (s1, Inr p)"
  shows "\<exists>st w q. (race_step L u)\<^sup>*\<^sup>* \<lparr>ra_conn = s, ra_stacks = ss\<rparr> st \<and>
    (\<forall>st'. (race_step L u)\<^sup>*\<^sup>* st st' \<longrightarrow>
       ra_stacks st' ! i = Next_Store w q # In_Callback # ts \<and> {Write_Mutex, Store_Mutex} \<subseteq> locked (ra_stacks st'))"
proof -
  obtain v w q where run: "(race_step L u)\<^sup>*\<^sup>* \<lparr>ra_conn = s, ra_stacks = ss\<rparr>
      \<lparr>ra_conn = v, ra_stacks = ss[i := Next_Store w q # In_Callback # ts]\<rparr>"
    using retry_run [OF i s free create] by blast
  let ?ts = "Next_Store w q # In_Callback # ts"
  have "ra_stacks st' ! i = ?ts \<and> {Write_Mutex, Store_Mutex} \<subseteq> locked (ra_stacks st')"
    if steps: "(race_step L u)\<^sup>*\<^sup>* \<lparr>ra_conn = v, ra_stacks = ss[i := ?ts]\<rparr> st'" for st'
  proof -
    have stack: "i < length (ra_stacks st') \<and> ra_stacks st' ! i = ?ts"
      by (rule self_lock [OF steps, of _ _ _ Store_Mutex "Cancel_Rest e m"]) (use i hold in simp_all)
    then have "?ts \<in> set (ra_stacks st')" by (metis nth_mem)
    moreover have "{Write_Mutex, Store_Mutex} \<subseteq> (\<Union>t \<in> set ?ts. holds t)" using hold by force
    ultimately show ?thesis using stack unfolding locked_def by blast
  qed
  with run show ?thesis by blast
qed

text \<open>The requests of cancelled items are moved out of their items.\<close>

definition spent :: "item_ptr set \<Rightarrow> 'u VstConnection \<Rightarrow> 'u VstConnection \<Rightarrow> bool" where
  "spent P s s' \<longleftrightarrow> item_frame s s' \<and>
     (\<forall>p < length (vc_items s). (p \<in> P \<or> ri_request (vc_items s ! p) = None \<longrightarrow> ri_request (vc_items s' ! p) = None) \<and>
        (callonce_inv (ri_callback (vc_items s ! p)) \<longrightarrow> callonce_inv (ri_callback (vc_items s' ! p))))"

lemma spent_trans: "spent P s t \<Longrightarrow> spent Q t v \<Longrightarrow> spent (P \<union> Q) s v"
  unfolding spent_def using item_frame_trans [of s t v] item_frame_fields(17) [of s t] by auto

lemma invoke_section:
  assumes p: "p < length (vc_items s)" "callonce_inv (ri_callback (vc_items s ! p))"
  obtains t q s' new where "section_step L u (Take_Request p e r) s = Inr (t, [Call p e q r])"
    and "section_step L u (Call p e q r) t = Inr (s', new)" and "new = [] \<or> new = [In_Callback]" and "spent {p} s s'"
proof -
  let ?t = "set_item p ((vc_items s ! p)\<lparr>ri_request := None\<rparr>) s"
  let ?i = "vc_items ?t ! p"
  obtain c where c: "invoke (ri_callback ?i) = Inr (c, co_cb (ri_callback ?i))" "callonce_inv c"
    using invoke_inv [OF p(2)] p(1) by (auto simp: set_item_def)
  let ?v = "set_item p (?i\<lparr>ri_callback := c\<rparr>) ?t"
  have v: "item_frame s ?v" "spent {p} s ?v"
  proof -
    show f: "item_frame s ?v"
      by (rule item_frame_trans [OF set_item_frame set_item_frame]) (use p(1) in simp_all)
    show "spent {p} s ?v" using f p c(2) by (auto simp: spent_def set_item_def nth_list_update)
  qed
  show thesis
  proof (cases "co_cb (ri_callback ?i)")
    case None
    with c v show thesis by (intro that [of ?t "ri_request (vc_items s ! p)" ?v "[]"]) (simp_all add: Let_def)
  next
    case (Some cb)
    let ?d = "\<lparr>d_item = p, d_callback = cb, d_error = e, d_request = ri_request (vc_items s ! p), d_response = r\<rparr>"
    have "spent {p} s (run_callback ?d ?v)"
      using v(2) item_frame_trans [OF v(1) VstSafety.run_callback_fields(3)] by (simp add: spent_def)
    with c Some show thesis
      by (intro that [of ?t "ri_request (vc_items s ! p)" "run_callback ?d ?v" "[In_Callback]"]) (simp_all add: Let_def)
  qed
qed

text \<open>A thread can cancel all items that it has to cancel, whatever the other threads hold.\<close>

lemma cancel_run:
  assumes "(race_step L u)\<^sup>*\<^sup>* st \<lparr>ra_conn = s, ra_stacks = ss\<rparr>" and "i < length ss" and "ss ! i = Cancel_Rest e m # ts"
    and "\<forall>p \<in> stored m. p < length (vc_items s) \<and> callonce_inv (ri_callback (vc_items s ! p))"
  shows "\<exists>s'. (race_step L u)\<^sup>*\<^sup>* st \<lparr>ra_conn = s', ra_stacks = ss[i := Cancel_Rest e [] # ts]\<rparr> \<and> spent (stored m) s s'"
  using assms
proof (induction m arbitrary: s ss)
  case Nil
  then have "ss[i := Cancel_Rest e [] # ts] = ss" by (metis list_update_id)
  with Nil show ?case by (auto simp: spent_def item_frame_refl)
next
  case (Cons a m)
  obtain k p where a: "a = (k, p)" by fastforce
  have p: "p < length (vc_items s)" "callonce_inv (ri_callback (vc_items s ! p))" using Cons.prems(4) a by simp_all
  obtain t q v new where sec: "section_step L u (Take_Request p (errorToInt e) None) s = Inr (t, [Call p (errorToInt e) q None])"
      "section_step L u (Call p (errorToInt e) q None) t = Inr (v, new)" "new = [] \<or> new = [In_Callback]" and v: "spent {p} s v"
    by (rule invoke_section [OF p])
  let ?ts = "Cancel_Rest e m # ts"
  note more = run_next [where i = i]
  have "(race_step L u)\<^sup>*\<^sup>* st \<lparr>ra_conn = s, ra_stacks = ss[i := Take_Request p (errorToInt e) None # ?ts]\<rparr>"
    by (rule more [OF Cons.prems(1)]) (use Cons.prems a in simp_all)
  then have "(race_step L u)\<^sup>*\<^sup>* st \<lparr>ra_conn = t, ra_stacks = ss[i := Call p (errorToInt e) q None # ?ts]\<rparr>"
    by (rule more [where ts = ?ts]) (use sec Cons.prems in simp_all)
  then have run: "(race_step L u)\<^sup>*\<^sup>* st \<lparr>ra_conn = v, ra_stacks = ss[i := new @ ?ts]\<rparr>"
    by (rule more [where ts = ?ts]) (use sec Cons.prems in simp_all)
  have "(race_step L u)\<^sup>*\<^sup>* st \<lparr>ra_conn = v, ra_stacks = ss[i := ?ts]\<rparr>"
  proof (cases "new = []")
    case False
    with sec(3) run have "(race_step L u)\<^sup>*\<^sup>* st \<lparr>ra_conn = v, ra_stacks = ss[i := In_Callback # ?ts]\<rparr>" by simp
    then show ?thesis by (rule more [where ts = ?ts]) (use Cons.prems in simp_all)
  qed (use run in simp)
  moreover have "\<forall>p \<in> stored m. p < length (vc_items v) \<and> callonce_inv (ri_callback (vc_items v ! p))"
    using Cons.prems(4) a v item_frame_fields(17) [of s v] by (auto simp: spent_def)
  ultimately obtain s' where "(race_step L u)\<^sup>*\<^sup>* st \<lparr>ra_conn = s', ra_stacks = ss[i := ?ts, i := Cancel_Rest e [] # ts]\<rparr>"
      and "spent (stored m) v s'"
    using Cons.IH [of v "ss[i := ?ts]"] Cons.prems(2) by auto
  moreover from this(2) have "spent (stored (a # m)) s s'" using spent_trans [OF v, of "stored m" s'] a by simp
  ultimately show ?case by auto
qed

text \<open>A write loop takes the next request: it moves from the queue to the store, and remains to be written.\<close>

lemma next_request_run:
  assumes run: "(race_step L u)\<^sup>*\<^sup>* st \<lparr>ra_conn = s, ra_stacks = [[Work (Next_Request w)], []]\<rparr>"
    and w: "vc_writeLoop s = Some w" "vc_readLoop s = Some r" "\<not> vc_permanent_failure s" "vc_sendQueue s = q # qs"
  shows "(race_step L u)\<^sup>*\<^sup>* st
    \<lparr>ra_conn = s\<lparr>vc_messageStore := store_add (\<lambda>p. ri_messageID (vc_items s ! p)) q (vc_messageStore s), vc_sendQueue := qs\<rparr>,
     ra_stacks = [[Work (Async_Write w q)], []]\<rparr>"
proof -
  let ?m = "s\<lparr>vc_messageStore := store_add (\<lambda>p. ri_messageID (vc_items s ! p)) q (vc_messageStore s)\<rparr>"
  note more = run_next [where i = 0]
  have "(race_step L u)\<^sup>*\<^sup>* st \<lparr>ra_conn = s, ra_stacks = [[Next_Front w], []]\<rparr>"
    by (rule more [OF run]) (use w in \<open>simp_all add: locked_def\<close>)
  then have "(race_step L u)\<^sup>*\<^sup>* st \<lparr>ra_conn = s, ra_stacks = [[Next_Store w q], []]\<rparr>"
    by (rule more) (use w in \<open>simp_all add: queue_front_def\<close>)
  then have "(race_step L u)\<^sup>*\<^sup>* st \<lparr>ra_conn = ?m, ra_stacks = [[Next_Remove w q], []]\<rparr>"
    by (rule more) (simp_all add: locked_def)
  then have "(race_step L u)\<^sup>*\<^sup>* st \<lparr>ra_conn = ?m\<lparr>vc_sendQueue := qs\<rparr>,
      ra_stacks = [[Work Start_Reading, Work (Async_Write w q)], []]\<rparr>"
    by (rule more) (use w in \<open>simp_all add: removeFirst_def\<close>)
  then show ?thesis
    by (rule more) (use w in \<open>simp_all add: startReading_locked_def\<close>)
qed

text \<open>A write that succeeds, and the next request taken from the queue: it is in the store, and not yet written.\<close>

lemma write_taken_run:
  assumes reach: "reachable L u conf s"
    and loops: "vc_readLoop s = Some r" "vc_writeLoop s = Some w" "\<not> vc_permanent_failure s" "ids_left s"
    and pending: "Read_Deadline r t \<in> set (vc_pending s)" "Writing w p \<in> set (vc_pending s)"
    and queue: "vc_sendQueue s = q # qs"
  shows "\<exists>g. (race_step L u)\<^sup>*\<^sup>* (race_threads 2 s) \<lparr>ra_conn = g, ra_stacks = [[Work (Async_Write w q)], []]\<rparr> \<and>
    q \<in> stored (vc_messageStore g) \<and> q < length (vc_items g) \<and> ri_requestBuffers (vc_items g ! q) \<noteq> [] \<and>
    vc_readLoop g = Some r \<and> ids_left g \<and> Read_Deadline r t \<in> set (vc_pending g)"
proof -
  let ?st = "race_threads 2 s"
  have inv: "id_inv s" "store_inv s" "send_inv s" "pool_inv (waiting s) s"
    using reachable_item [OF reach] by (simp_all add: item_inv_def)
  have q: "q < length (vc_items s)" "ri_requestBuffers (vc_items s ! q) \<noteq> []" "q \<noteq> p"
    using pool_inv_memb(1) [OF inv(4), of q] inv(3) queue pending(2) by (auto simp: waiting_def send_inv_def)
  let ?ev = "Written w p False :: 'a event"
  define f where "f = set_item p (resetSendData (vc_items s ! p))
    (s\<lparr>vc_pending := remove1 (Writing w p) (vc_pending s), vc_async_calls := vc_async_calls s - 1\<rparr>)"
  define g where "g = f\<lparr>vc_messageStore := store_add (\<lambda>p. ri_messageID (vc_items f ! p)) q (vc_messageStore f), vc_sendQueue := qs\<rparr>"
  have f: "same_calls s f" "vc_messageStore f = vc_messageStore s"
    using same_calls_set_item [of "resetSendData (vc_items s ! p)"
        "s\<lparr>vc_pending := remove1 (Writing w p) (vc_pending s), vc_async_calls := vc_async_calls s - 1\<rparr>" p]
    by (simp_all add: f_def resetSendData_def) (simp_all add: same_calls_def set_item_def)
  have qf: "q < length (vc_items f)" "ri_requestBuffers (vc_items f ! q) \<noteq> []"
    using q by (simp_all add: f_def set_item_def)
  have stored: "q \<in> stored (vc_messageStore g)"
    using store_add_found(2) [OF same_calls_ids(1) [OF f(1) inv(1)] same_calls_ids(2) [OF f(1) inv(2) f(2)] qf(1)]
    by (simp add: g_def)
  have "race_step L u ?st \<lparr>ra_conn = f, ra_stacks = [[], []][0 := [Work (Next_Request w)]]\<rparr>"
    unfolding race_threads_2 by (rule race_step.event [where ev = ?ev])
      (use loops pending in \<open>simp_all add: enabled_def finish_pending f_def Let_def\<close>)
  then have "(race_step L u)\<^sup>*\<^sup>* ?st \<lparr>ra_conn = f, ra_stacks = [[Work (Next_Request w)], []]\<rparr>"
    by (simp add: r_into_rtranclp)
  then have run: "(race_step L u)\<^sup>*\<^sup>* ?st \<lparr>ra_conn = g, ra_stacks = [[Work (Async_Write w q)], []]\<rparr>"
    unfolding g_def by (rule next_request_run) (use loops queue in \<open>simp_all add: f_def set_item_def\<close>)
  have "vc_readLoop g = Some r \<and> ids_left g \<and> Read_Deadline r t \<in> set (vc_pending g)"
    using loops pending by (simp add: g_def f_def set_item_def ids_left_def in_set_remove1)
  with run stored qf show ?thesis by (auto simp: g_def)
qed

text \<open>
  C35: a write that races with a restart. While one thread has taken the next request from the queue and is
  about to write it, another handles an expired read timer and cancels all requests in flight, that one
  included, whose \<open>Request\<close> is moved to its callback; then the first thread reads the timeout of the
  request through a null pointer.
\<close>

theorem cancel_races_with_write:
  assumes reach: "reachable L u conf s"
    and loops: "vc_readLoop s = Some r" "vc_writeLoop s = Some w" "\<not> vc_permanent_failure s" "ids_left s"
    and pending: "Read_Deadline r t \<in> set (vc_pending s)" "Writing w p \<in> set (vc_pending s)"
    and queue: "vc_sendQueue s = q # qs"
  shows "\<exists>st ts. (race_step L u)\<^sup>*\<^sup>* (race_threads 2 s) st \<and> ra_stacks st = [[Work (Async_Write w q)], ts] \<and>
    section_step L u (Work (Async_Write w q)) (ra_conn st) = Inl (Undefined ''null _request'')"
proof -
  let ?st = "race_threads 2 s" and ?ev' = "Read_Timer r t False :: 'a event"
  obtain g where run: "(race_step L u)\<^sup>*\<^sup>* ?st \<lparr>ra_conn = g, ra_stacks = [[Work (Async_Write w q)], []]\<rparr>"
    and stored: "q \<in> stored (vc_messageStore g)" and q: "q < length (vc_items g)" "ri_requestBuffers (vc_items g ! q) \<noteq> []"
    and g: "vc_readLoop g = Some r" "ids_left g" "Read_Deadline r t \<in> set (vc_pending g)"
    using write_taken_run [OF assms] by blast
  let ?h = "g\<lparr>vc_pending := remove1 (Read_Deadline r t) (vc_pending g)\<rparr>"
  have "race_step L u \<lparr>ra_conn = g, ra_stacks = [[Work (Async_Write w q)], []]\<rparr>
      \<lparr>ra_conn = ?h, ra_stacks = [[Work (Async_Write w q)], []][1 := [Restart_Read r Timeout]]\<rparr>"
    by (rule race_step.event [where ev = ?ev'])
      (use g in \<open>simp_all add: enabled_def finish_pending\<close>)
  with run have "(race_step L u)\<^sup>*\<^sup>* ?st \<lparr>ra_conn = ?h, ra_stacks = [[Work (Async_Write w q)], [Restart_Read r Timeout]]\<rparr>"
    by (simp add: rtranclp.rtrancl_into_rtrancl)
  from restart_run [OF this, of 1 r Timeout] obtain c
    where c: "c = shutdownSocket (?h\<lparr>vc_readLoop := None, vc_writeLoop := None\<rparr>)"
      and restart: "(race_step L u)\<^sup>*\<^sup>* ?st
        \<lparr>ra_conn = c, ra_stacks = [[Work (Async_Write w q)], [Cancel_Rest Timeout (vc_messageStore g), Resolve_Again]]\<rparr>"
    using g(1) by (simp add: locked_def)
  have cg: "vc_items c = vc_items g" "vc_messageStore c = vc_messageStore g" by (simp_all add: c shutdownSocket_def)
  have "calls_inv c (concat [[Work (Async_Write w q)], [Cancel_Rest Timeout (vc_messageStore g), Resolve_Again]])"
    using races_calls [OF restart start_calls [OF reach]] by simp
  then have "\<forall>p \<in> stored (vc_messageStore g). p < length (vc_items c) \<and> callonce_inv (ri_callback (vc_items c ! p))"
    by (auto simp: calls_inv_def)
  with cancel_run [OF restart, of 1 Timeout "vc_messageStore g" "[Resolve_Again]"] obtain s'
    where cancel: "(race_step L u)\<^sup>*\<^sup>* ?st
        \<lparr>ra_conn = s', ra_stacks = [[Work (Async_Write w q)], [Cancel_Rest Timeout [], Resolve_Again]]\<rparr>"
      and spent: "spent (stored (vc_messageStore g)) c s'"
    by auto
  have "q < length (vc_items c)" "ri_requestBuffers (vc_items c ! q) \<noteq> []" using q cg(1) by simp_all
  with spent stored have "ri_request (vc_items s' ! q) = None" "ri_requestBuffers (vc_items s' ! q) \<noteq> []"
    using item_frame_fields(20) [of c s' q] by (simp_all add: spent_def)
  then have "section_step L u (Work (Async_Write w q)) s' = Inl (Undefined ''null _request'')"
    by (simp add: issue_write_def item_timeout_def check_def Let_def)
  with cancel show ?thesis by (intro exI conjI) (assumption, simp_all)
qed

text \<open>The example connection with a second request waiting.\<close>

definition sample_queued :: "nat VstConnection" where
  "sample_queued = sample_busy\<lparr>vc_messageID := 2,
     vc_items := vc_items sample_busy @ [sample_prepared 2 (User_Callback 8)], vc_sendQueue := [1]\<rparr>"

lemma sample_queued_reachable: "reachable sized_vpack sample_chunk sample_conf sample_queued"
proof -
  have "handle sized_vpack sample_chunk (Send sample_request 8) sample_busy = Inr sample_queued"
    by (simp add: handle_def finish_def sendRequest_def sample_create queue_add_def startWriting_def sample_queued_def)
  then show ?thesis
    by (rule reachable.steps [OF sample_busy_reachable step.step [rotated 2]]) (simp_all add: enabled_def ids_left_def)
qed

theorem cancel_races_with_write_witness:
  "\<exists>st ts. (race_step sized_vpack sample_chunk)\<^sup>*\<^sup>* (race_threads 2 sample_queued) st \<and>
    ra_stacks st = [[Work (Async_Write 1 1)], ts] \<and>
    section_step sized_vpack sample_chunk (Work (Async_Write 1 1)) (ra_conn st) = Inl (Undefined ''null _request'')"
  by (rule cancel_races_with_write [OF sample_queued_reachable, of 1 1 30000 0])
    (simp_all add: sample_queued_def ids_left_def)

text \<open>On the example connection an expired timer ends in the callback of the request, inside \<open>cancelAll\<close>.\<close>

definition sample_callback :: "nat races" where
  "sample_callback =
     (let d = \<lparr>d_item = 0, d_callback = User_Callback 7, d_error = errorToInt Timeout,
            d_request = ri_request (sample_prepared 1 (User_Callback 7)), d_response = None\<rparr>;
          item = (sample_prepared 1 (User_Callback 7))\<lparr>ri_request := None, ri_callback := \<lparr>co_invoked = True, co_cb = None\<rparr>\<rparr>
      in \<lparr>ra_conn = run_callback d (set_item 0 item (shutdownSocket
            (sample_busy\<lparr>vc_pending := [Reading 1, Write_Deadline 1 30000, Writing 1 0], vc_readLoop := None, vc_writeLoop := None\<rparr>))),
          ra_stacks = [[In_Callback, Cancel_Rest Timeout [], Resolve_Again]]\<rparr>)"

lemma sample_callback_run: "(race_step sized_vpack sample_chunk)\<^sup>*\<^sup>* (race_threads 1 sample_busy) sample_callback"
proof -
  let ?R = "(race_step sized_vpack sample_chunk)\<^sup>*\<^sup>* (race_threads 1 sample_busy)"
  let ?f = "sample_busy\<lparr>vc_pending := [Reading 1, Write_Deadline 1 30000, Writing 1 0]\<rparr>"
  let ?h = "shutdownSocket (?f\<lparr>vc_readLoop := None, vc_writeLoop := None\<rparr>)"
  let ?item = "sample_prepared 1 (User_Callback 7)"
  have h: "vc_items ?h = [?item]" by (simp add: shutdownSocket_def)
  have cb: "invoke (ri_callback ?item) = Inr (\<lparr>co_invoked = True, co_cb = None\<rparr>, Some (User_Callback 7))"
    by (simp add: sample_prepared(5) CallOnce_assign_def CallOnce_new_def invoke_def check_def)
  note more = run_next [where i = 0]
  have "race_step sized_vpack sample_chunk (race_threads 1 sample_busy)
      \<lparr>ra_conn = ?f, ra_stacks = [[]][0 := [Restart_Read 1 Timeout]]\<rparr>"
    unfolding race_threads_def by (simp only: One_nat_def replicate.simps, rule race_step.event [where ev = "Read_Timer 1 30000 False"])
      (simp_all add: enabled_def ids_left_def finish_pending)
  then have "?R \<lparr>ra_conn = ?f, ra_stacks = [[Restart_Read 1 Timeout]]\<rparr>" by (simp add: r_into_rtranclp)
  from restart_run [OF this, of 0 1 Timeout]
  have "?R \<lparr>ra_conn = ?h, ra_stacks = [[Cancel_Rest Timeout [(1, 0)], Resolve_Again]]\<rparr>" by (simp add: locked_def)
  then have "?R \<lparr>ra_conn = ?h, ra_stacks = [[Take_Request 0 (errorToInt Timeout) None, Cancel_Rest Timeout [], Resolve_Again]]\<rparr>"
    by (rule more) simp_all
  then have "?R \<lparr>ra_conn = set_item 0 (?item\<lparr>ri_request := None\<rparr>) ?h,
      ra_stacks = [[Call 0 (errorToInt Timeout) (ri_request ?item) None, Cancel_Rest Timeout [], Resolve_Again]]\<rparr>"
    by (rule more) (use h in \<open>simp_all add: Let_def\<close>)
  then show ?thesis unfolding sample_callback_def Let_def
    by (rule more) (use h cb in \<open>simp_all add: set_item_def\<close>)
qed

lemma sample_callback_fields:
  "ra_stacks sample_callback = [[In_Callback, Cancel_Rest Timeout [], Resolve_Again]]"
  "vc_connected (ra_conn sample_callback)" "vc_writeLoop (ra_conn sample_callback) = None"
  "\<not> vc_permanent_failure (ra_conn sample_callback)" "ids_left (ra_conn sample_callback)"
  "vc_vstVersion (ra_conn sample_callback) = VST1_0" "length (vc_items (ra_conn sample_callback)) = 1"
  "map d_item (vc_delivered (ra_conn sample_callback)) = [0]"
  by (simp_all add: sample_callback_def Let_def run_callback_def set_item_def shutdownSocket_def ids_left_def)

theorem retry_in_callback_deadlocks_witness:
  "\<exists>st w q. (race_step sized_vpack sample_chunk)\<^sup>*\<^sup>* (race_threads 1 sample_busy) st \<and>
    (\<forall>st'. (race_step sized_vpack sample_chunk)\<^sup>*\<^sup>* st st' \<longrightarrow>
       ra_stacks st' ! 0 = [Next_Store w q, In_Callback, Cancel_Rest Timeout [], Resolve_Again] \<and>
       {Write_Mutex, Store_Mutex} \<subseteq> locked (ra_stacks st'))"
proof -
  have st: "sample_callback = \<lparr>ra_conn = ra_conn sample_callback, ra_stacks = ra_stacks sample_callback\<rparr>" by simp
  have "\<exists>st w q. (race_step sized_vpack sample_chunk)\<^sup>*\<^sup>*
      \<lparr>ra_conn = ra_conn sample_callback, ra_stacks = ra_stacks sample_callback\<rparr> st \<and>
    (\<forall>st'. (race_step sized_vpack sample_chunk)\<^sup>*\<^sup>* st st' \<longrightarrow>
       ra_stacks st' ! 0 = Next_Store w q # In_Callback # [Cancel_Rest Timeout [], Resolve_Again] \<and>
       {Write_Mutex, Store_Mutex} \<subseteq> locked (ra_stacks st'))"
    by (rule retry_in_callback_deadlocks [where e = Timeout and m = "[]" and cb = 8,
          OF _ _ _ _ _ _ _ _ sample_create [OF sample_callback_fields(6)]])
      (use sample_callback_fields in \<open>simp_all add: locked_def\<close>)
  then show ?thesis unfolding st [symmetric] using rtranclp_trans [OF sample_callback_run] by blast
qed



end
