(* ===== verification/CurlMulti.thy ===== *)
theory CurlMulti
  imports CallOnce StdMap
begin

text \<open>
  \<open>src/src/CurlMultiAsio.h\<close> and \<open>src/src/CurlMultiAsio.cpp\<close>: the adapter that lets libcurl use the
  event loop of \<open>boost::asio\<close>.
  \<^item> libcurl is not part of the repository. What it does in one of its functions is an argument of
    the model: the callbacks it calls, in order (\<open>curl_call\<close>), the result code, the number of running
    transfers and the messages it has ready (\<open>curl_reply\<close>). The callbacks that belong to an easy
    handle are function pointers; they are the argument \<open>data\<close> here.
  \<^item> The objects the adapter allocates live in heaps of the state: \<open>SocketInfo\<close> records
    (\<open>cm_infos\<close>, \<open>None\<close> once deleted) and TCP sockets (\<open>cm_tcp\<close>, \<open>False\<close> once deleted). Using or
    deleting a deleted one is \<open>Undefined\<close>.
  \<^item> \<open>cm_assigned\<close> is the pointer that libcurl keeps for a socket (\<open>curl_multi_assign\<close>) and passes to
    the socket callback; \<open>cm_handles\<close> are the easy handles in the multi handle. A handle is the
    number of its request item.
  \<^item> Pending work of the event loop: \<open>cm_posted\<close> (tasks posted), \<open>cm_timer_waits\<close> (waits on the
    timer, cancelled or not) and \<open>cm_watches\<close> (waits for a socket). \<open>cm_actions\<close> logs the calls of
    \<open>curl_multi_socket_action\<close>.
  The record is extended by \<open>HttpConnection\<close>, which owns the adapter. Only logging is left out.
\<close>

type_synonym curl_socket_t = int
type_synonym CURL = nat

datatype CURLcode =
    CURLE_OK | CURLE_COULDNT_CONNECT | CURLE_SSL_CONNECT_ERROR | CURLE_COULDNT_RESOLVE_HOST
  | CURLE_URL_MALFORMAT | CURLE_SEND_ERROR | CURLE_OPERATION_TIMEDOUT | CURLE_RECV_ERROR
  | CURLE_GOT_NOTHING | CURLE_other int

datatype CURLMcode =
    CURLM_OK | CURLM_CALL_MULTI_PERFORM | CURLM_BAD_HANDLE | CURLM_BAD_EASY_HANDLE
  | CURLM_OUT_OF_MEMORY | CURLM_INTERNAL_ERROR | CURLM_BAD_SOCKET | CURLM_UNKNOWN_OPTION
  | CURLM_other int

text \<open>The numbers of the codes in libcurl, which \<open>exit\<close> receives.\<close>

fun curlm_number :: "CURLMcode \<Rightarrow> int" where
  "curlm_number CURLM_CALL_MULTI_PERFORM = -1"
| "curlm_number CURLM_OK = 0"
| "curlm_number CURLM_BAD_HANDLE = 1"
| "curlm_number CURLM_BAD_EASY_HANDLE = 2"
| "curlm_number CURLM_OUT_OF_MEMORY = 3"
| "curlm_number CURLM_INTERNAL_ERROR = 4"
| "curlm_number CURLM_BAD_SOCKET = 5"
| "curlm_number CURLM_UNKNOWN_OPTION = 6"
| "curlm_number (CURLM_other i) = i"

datatype curl_poll = CURL_POLL_NONE | CURL_POLL_IN | CURL_POLL_OUT | CURL_POLL_INOUT | CURL_POLL_REMOVE | CURL_POLL_other int

fun curlWhat :: "curl_poll \<Rightarrow> string" where
  "curlWhat CURL_POLL_IN = ''IN''"
| "curlWhat CURL_POLL_OUT = ''OUT''"
| "curlWhat CURL_POLL_INOUT = ''INOUT''"
| "curlWhat CURL_POLL_REMOVE = ''REMOVE''"
| "curlWhat CURL_POLL_NONE = ''NONE''"
| "curlWhat (CURL_POLL_other i) = ''?''"

datatype curlsocktype = CURLSOCKTYPE_IPCXN | CURLSOCKTYPE_other
datatype family = AF_INET | AF_INET6 | AF_other

text \<open>
  The callbacks libcurl can call. \<open>Open_Socket\<close> carries what the operating system answers: an error
  of \<open>open\<close>, or the native handle of the new socket.
\<close>

datatype curl_call =
    Timer_Function int
  | Socket_Function curl_socket_t curl_poll
  | Open_Socket curlsocktype family "curl_socket_t option"
  | Close_Socket curl_socket_t
  | Header_Function CURL string
  | Write_Function CURL string

text \<open>A finished transfer: its handle and result, and what \<open>curl_multi_remove_handle\<close> does.\<close>

datatype curl_msg =
    CURLMSG_DONE CURL CURLcode "curl_call list" CURLMcode
  | CURLMSG_other

record curl_reply =
  cr_calls :: "curl_call list"
  cr_rc :: CURLMcode
  cr_still_running :: int
  cr_msgs :: "curl_msg list"

record SocketInfo =
  si_action :: curl_poll

datatype task = Timer_Task | Done_Task CURL CURLcode

record CurlMultiAsio =
  cm_socket_map :: "(curl_socket_t, nat) std_map"
  cm_requests_left :: int
  cm_infos :: "SocketInfo option list"
  cm_tcp :: "bool list"
  cm_assigned :: "curl_socket_t \<Rightarrow> nat option"
  cm_handles :: "CURL list"
  cm_posted :: "task list"
  cm_timer_waits :: nat
  cm_watches :: "(curl_socket_t \<times> curl_poll) list"
  cm_actions :: "(curl_socket_t \<times> curl_poll) list"

definition CURL_SOCKET_TIMEOUT :: curl_socket_t where
  "CURL_SOCKET_TIMEOUT = -1"

definition CURL_SOCKET_BAD :: curl_socket_t where
  "CURL_SOCKET_BAD = -1"

text \<open>The constructor; \<open>multi_init\<close> is whether \<open>curl_multi_init\<close> succeeds.\<close>

definition CurlMultiAsio_new :: "bool \<Rightarrow> CurlMultiAsio res" where
  "CurlMultiAsio_new multi_init =
     bind_res (check multi_init (Logic_error ''curl_multi_init failed'')) (\<lambda>_. Inr
     \<lparr>cm_socket_map = [], cm_requests_left = 0, cm_infos = [], cm_tcp = [], cm_assigned = (\<lambda>_. None),
      cm_handles = [], cm_posted = [], cm_timer_waits = 0, cm_watches = [],
      cm_actions = []\<rparr>)"

definition assertCurlOK :: "CURLMcode \<Rightarrow> unit res" where
  "assertCurlOK code =
     (if code \<noteq> CURLM_OK then
        (case code of
           CURLM_BAD_SOCKET \<Rightarrow> Inr ()
         | _ \<Rightarrow> Inl (Exit (curlm_number code)))
      else Inr ())"

section \<open>Callbacks of the multi handle\<close>

definition multi_timer_cb :: "int \<Rightarrow> 'a CurlMultiAsio_scheme \<Rightarrow> 'a CurlMultiAsio_scheme" where
  "multi_timer_cb timeout_ms c =
     (if 0 < timeout_ms then c\<lparr>cm_timer_waits := Suc (cm_timer_waits c)\<rparr>
      else if timeout_ms = 0 then c\<lparr>cm_posted := cm_posted c @ [Timer_Task]\<rparr>
      else c)"

definition use_info :: "nat \<Rightarrow> 'a CurlMultiAsio_scheme \<Rightarrow> SocketInfo res" where
  "use_info p c =
     (if p < length (cm_infos c)
      then (case cm_infos c ! p of None \<Rightarrow> Inl (Undefined ''deleted SocketInfo'') | Some i \<Rightarrow> Inr i)
      else Inl (Undefined ''deleted SocketInfo''))"

fun watches_for :: "curl_socket_t \<Rightarrow> curl_poll \<Rightarrow> (curl_socket_t \<times> curl_poll) list" where
  "watches_for s CURL_POLL_IN = [(s, CURL_POLL_IN)]"
| "watches_for s CURL_POLL_OUT = [(s, CURL_POLL_OUT)]"
| "watches_for s CURL_POLL_INOUT = [(s, CURL_POLL_IN), (s, CURL_POLL_OUT)]"
| "watches_for s _ = []"

definition set_socket ::
  "nat \<Rightarrow> curl_socket_t \<Rightarrow> curl_poll \<Rightarrow> 'a CurlMultiAsio_scheme \<Rightarrow> 'a CurlMultiAsio_scheme res"
where
  "set_socket socketp s action c =
     (case map_find (cm_socket_map c) s of
        None \<Rightarrow> Inr c
      | Some tcp_socket \<Rightarrow>
          bind_res (use_info socketp c) (\<lambda>info.
          bind_res (check (cm_tcp c ! tcp_socket) (Undefined ''deleted tcp socket'')) (\<lambda>_.
          Inr (c\<lparr>cm_infos := (cm_infos c)[socketp := Some (info\<lparr>si_action := action\<rparr>)],
                 cm_watches := cm_watches c @ watches_for s action\<rparr>))))"

definition add_socket :: "curl_socket_t \<Rightarrow> curl_poll \<Rightarrow> 'a CurlMultiAsio_scheme \<Rightarrow> 'a CurlMultiAsio_scheme res" where
  "add_socket s action c =
     (let socketp = length (cm_infos c)
      in set_socket socketp s action
           (c\<lparr>cm_infos := cm_infos c @ [Some \<lparr>si_action = CURL_POLL_NONE\<rparr>],
              cm_assigned := (cm_assigned c)(s := Some socketp)\<rparr>))"

definition remove_socket :: "nat option \<Rightarrow> curl_socket_t \<Rightarrow> 'a CurlMultiAsio_scheme \<Rightarrow> 'a CurlMultiAsio_scheme res" where
  "remove_socket socketp s c =
     (let c = c\<lparr>cm_assigned := (cm_assigned c)(s := None)\<rparr>
      in bind_res (case socketp of
             None \<Rightarrow> Inr c
           | Some p \<Rightarrow> bind_res (use_info p c) (\<lambda>_. Inr (c\<lparr>cm_infos := (cm_infos c)[p := None]\<rparr>))) (\<lambda>c.
         case map_find (cm_socket_map c) s of
           None \<Rightarrow> Inr c
         | Some tcp_socket \<Rightarrow>
             bind_res (check (cm_tcp c ! tcp_socket) (Undefined ''deleted tcp socket'')) (\<lambda>_. Inr c)))"

definition socket_cb :: "curl_socket_t \<Rightarrow> curl_poll \<Rightarrow> 'a CurlMultiAsio_scheme \<Rightarrow> 'a CurlMultiAsio_scheme res" where
  "socket_cb s what c =
     (let socketp = cm_assigned c s
      in if what = CURL_POLL_REMOVE then remove_socket socketp s c
         else case socketp of
           None \<Rightarrow> add_socket s what c
         | Some p \<Rightarrow> bind_res (use_info p c) (\<lambda>_. set_socket p s what c))"

text \<open>
  \<open>open_socket\<close> returns the native handle, or \<open>CURL_SOCKET_BAD\<close>. The TCP socket object is created
  before the address family is looked at, and is deleted on no path.
\<close>

definition open_socket ::
  "curlsocktype \<Rightarrow> family \<Rightarrow> curl_socket_t option \<Rightarrow> 'a CurlMultiAsio_scheme \<Rightarrow>
     'a CurlMultiAsio_scheme \<times> curl_socket_t"
where
  "open_socket purpose fam opened c =
     (if purpose = CURLSOCKTYPE_IPCXN then
        let tcp_socket = length (cm_tcp c); c = c\<lparr>cm_tcp := cm_tcp c @ [True]\<rparr>
        in if fam = AF_other then (c, CURL_SOCKET_BAD)
           else case opened of
             None \<Rightarrow> (c, CURL_SOCKET_BAD)
           | Some sockfd \<Rightarrow> (c\<lparr>cm_socket_map := map_emplace sockfd tcp_socket (cm_socket_map c)\<rparr>, sockfd)
      else (c, CURL_SOCKET_BAD))"

definition close_socket :: "curl_socket_t \<Rightarrow> 'a CurlMultiAsio_scheme \<Rightarrow> 'a CurlMultiAsio_scheme res" where
  "close_socket item c =
     (case map_find (cm_socket_map c) item of
        None \<Rightarrow> Inr c
      | Some tcp_socket \<Rightarrow>
          bind_res (check (cm_tcp c ! tcp_socket) (Undefined ''deleted tcp socket'')) (\<lambda>_.
          Inr (c\<lparr>cm_tcp := (cm_tcp c)[tcp_socket := False],
                 cm_socket_map := map_erase item (cm_socket_map c)\<rparr>)))"

type_synonym 'a curl_data = "curl_call \<Rightarrow> 'a CurlMultiAsio_scheme \<Rightarrow> 'a CurlMultiAsio_scheme res"

text \<open>The entry points that libcurl calls; the callbacks of an easy handle are \<open>data\<close>.\<close>

fun curl_callback :: "'a curl_data \<Rightarrow> curl_call \<Rightarrow> 'a CurlMultiAsio_scheme \<Rightarrow> 'a CurlMultiAsio_scheme res" where
  "curl_callback data (Timer_Function timeout_ms) c = Inr (multi_timer_cb timeout_ms c)"
| "curl_callback data (Socket_Function s what) c = socket_cb s what c"
| "curl_callback data (Open_Socket purpose fam opened) c = Inr (fst (open_socket purpose fam opened c))"
| "curl_callback data (Close_Socket s) c = close_socket s c"
| "curl_callback data call c = data call c"

fun curl_callbacks :: "'a curl_data \<Rightarrow> curl_call list \<Rightarrow> 'a CurlMultiAsio_scheme \<Rightarrow> 'a CurlMultiAsio_scheme res" where
  "curl_callbacks data [] c = Inr c"
| "curl_callbacks data (call # calls) c = bind_res (curl_callback data call c) (curl_callbacks data calls)"

section \<open>Operations\<close>

text \<open>\<open>curl_multi_add_handle\<close> calls callbacks and returns \<open>rc\<close>; the handle is added when that is \<open>CURLM_OK\<close>.\<close>

definition addRequest ::
  "'a curl_data \<Rightarrow> curl_call list \<Rightarrow> CURLMcode \<Rightarrow> CURL \<Rightarrow> 'a CurlMultiAsio_scheme \<Rightarrow> 'a CurlMultiAsio_scheme res"
where
  "addRequest data calls rc easyHandle c =
     bind_res (curl_callbacks data calls
       (if rc = CURLM_OK then c\<lparr>cm_handles := cm_handles c @ [easyHandle]\<rparr> else c)) (\<lambda>c.
     bind_res (assertCurlOK rc) (\<lambda>_. Inr c))"

fun check_msgs :: "'a curl_data \<Rightarrow> curl_msg list \<Rightarrow> 'a CurlMultiAsio_scheme \<Rightarrow> 'a CurlMultiAsio_scheme res" where
  "check_msgs data [] c = Inr c"
| "check_msgs data (CURLMSG_other # msgs) c = check_msgs data msgs c"
| "check_msgs data (CURLMSG_DONE easy result calls rc # msgs) c =
     bind_res (curl_callbacks data calls (c\<lparr>cm_handles := remove1 easy (cm_handles c)\<rparr>)) (\<lambda>c.
     bind_res (assertCurlOK rc) (\<lambda>_.
     check_msgs data msgs (c\<lparr>cm_posted := cm_posted c @ [Done_Task easy result]\<rparr>)))"

definition check_multi_info ::
  "'a curl_data \<Rightarrow> int \<Rightarrow> curl_msg list \<Rightarrow> 'a CurlMultiAsio_scheme \<Rightarrow> 'a CurlMultiAsio_scheme res"
where
  "check_multi_info data still_running msgs c =
     check_msgs data msgs (c\<lparr>cm_requests_left := still_running\<rparr>)"

definition socket_action ::
  "'a curl_data \<Rightarrow> curl_socket_t \<Rightarrow> curl_poll \<Rightarrow> curl_reply \<Rightarrow> 'a CurlMultiAsio_scheme \<Rightarrow> 'a CurlMultiAsio_scheme res"
where
  "socket_action data s action reply c =
     bind_res (curl_callbacks data (cr_calls reply) (c\<lparr>cm_actions := cm_actions c @ [(s, action)]\<rparr>)) (\<lambda>c.
     bind_res (assertCurlOK (cr_rc reply)) (\<lambda>_. Inr c))"

definition timer_cb ::
  "'a curl_data \<Rightarrow> bool \<Rightarrow> curl_reply \<Rightarrow> 'a CurlMultiAsio_scheme \<Rightarrow> 'a CurlMultiAsio_scheme res"
where
  "timer_cb data error reply c =
     (if error then Inr c
      else bind_res (socket_action data CURL_SOCKET_TIMEOUT CURL_POLL_NONE reply c)
             (check_multi_info data (cr_still_running reply) (cr_msgs reply)))"

text \<open>\<open>event_cb\<close> does not look at the error; the timer that it cancels stays a pending wait.\<close>

definition event_cb ::
  "'a curl_data \<Rightarrow> curl_socket_t \<Rightarrow> curl_poll \<Rightarrow> bool \<Rightarrow> curl_reply \<Rightarrow> 'a CurlMultiAsio_scheme \<Rightarrow> 'a CurlMultiAsio_scheme res"
where
  "event_cb data s action error reply c =
     bind_res (socket_action data s action reply c) (check_multi_info data (cr_still_running reply) (cr_msgs reply))"

definition curl_requestsLeft :: "'a CurlMultiAsio_scheme \<Rightarrow> int" where
  "curl_requestsLeft c = cm_requests_left c"


section \<open>Memory\<close>

text \<open>
  The invariant of the allocations: the TCP sockets in the table exist and are distinct, libcurl
  holds every existing \<open>SocketInfo\<close> for exactly one socket, and no deleted one.
\<close>

definition live_info :: "nat \<Rightarrow> 'a CurlMultiAsio_scheme \<Rightarrow> bool" where
  "live_info p c \<longleftrightarrow> p < length (cm_infos c) \<and> cm_infos c ! p \<noteq> None"

definition cm_inv :: "'a CurlMultiAsio_scheme \<Rightarrow> bool" where
  "cm_inv c \<longleftrightarrow>
     map_inv (cm_socket_map c) \<and> distinct (map snd (cm_socket_map c)) \<and>
     (\<forall>t \<in> snd ` set (cm_socket_map c). t < length (cm_tcp c) \<and> cm_tcp c ! t) \<and>
     inj_on (cm_assigned c) (dom (cm_assigned c)) \<and>
     (\<forall>p. (\<exists>s. cm_assigned c s = Some p) \<longleftrightarrow> live_info p c)"

definition done_handles :: "'a CurlMultiAsio_scheme \<Rightarrow> CURL list" where
  "done_handles c = concat (map (\<lambda>t. case t of Done_Task p r \<Rightarrow> [p] | Timer_Task \<Rightarrow> []) (cm_posted c))"

text \<open>What the callbacks of the multi handle leave alone.\<close>

definition cm_frame :: "'a CurlMultiAsio_scheme \<Rightarrow> 'a CurlMultiAsio_scheme \<Rightarrow> bool" where
  "cm_frame c c' \<longleftrightarrow> cm_requests_left c' = cm_requests_left c \<and>
     cm_handles c' = cm_handles c \<and> done_handles c' = done_handles c \<and>
     CurlMultiAsio.more c' = CurlMultiAsio.more c"

lemma cm_frame_refl: "cm_frame c c"
  by (simp add: cm_frame_def)

lemma cm_frame_trans: "cm_frame a b \<Longrightarrow> cm_frame b c \<Longrightarrow> cm_frame a c"
  by (simp add: cm_frame_def)

lemma map_find_set: "map_inv m \<Longrightarrow> map_find m k = Some v \<longleftrightarrow> (k, v) \<in> set m"
  by (rule std.entries_find [symmetric])

lemma cm_inv_tcp:
  assumes "cm_inv c" and "map_find (cm_socket_map c) s = Some t"
  shows "t < length (cm_tcp c) \<and> cm_tcp c ! t"
proof -
  have "(s, t) \<in> set (cm_socket_map c)" using assms by (simp add: cm_inv_def map_find_set)
  then have "t \<in> snd ` set (cm_socket_map c)" by (rule image_eqI [rotated]) simp
  with assms(1) show ?thesis by (auto simp: cm_inv_def)
qed

lemma use_info_live: "(\<exists>i. use_info p c = Inr i) \<longleftrightarrow> live_info p c"
  by (auto simp: use_info_def live_info_def split: option.splits)

lemma cm_inv_info: "cm_inv c \<Longrightarrow> cm_assigned c s = Some p \<Longrightarrow> live_info p c"
  by (auto simp: cm_inv_def)

lemma live_info_cong: "cm_infos c' = cm_infos c \<Longrightarrow> live_info p c' = live_info p c"
  by (simp add: live_info_def)

lemma multi_timer_cb_ok:
  shows "cm_inv c \<Longrightarrow> cm_inv (multi_timer_cb t c)" and "cm_frame c (multi_timer_cb t c)"
  by (simp_all add: multi_timer_cb_def cm_inv_def cm_frame_def done_handles_def live_info_def)

lemma set_socket_ok:
  assumes inv: "cm_inv c" and p: "cm_assigned c s' = Some p"
  shows "\<exists>c'. set_socket p s action c = Inr c' \<and> cm_inv c' \<and> cm_frame c c'"
proof (cases "map_find (cm_socket_map c) s")
  case None
  with inv show ?thesis by (simp add: set_socket_def cm_frame_refl)
next
  case (Some t)
  have live: "live_info p c" by (rule cm_inv_info [OF inv p])
  then obtain i where i: "use_info p c = Inr i" using use_info_live by blast
  let ?c = "c\<lparr>cm_infos := (cm_infos c)[p := Some (i\<lparr>si_action := action\<rparr>)],
    cm_watches := cm_watches c @ watches_for s action\<rparr>"
  have "set_socket p s action c = Inr ?c"
    using Some i cm_inv_tcp [OF inv Some] by (simp add: set_socket_def check_def)
  moreover have "live_info q ?c = live_info q c" for q
    using live by (auto simp: live_info_def nth_list_update)
  then have "cm_inv ?c"
    using inv by (simp add: cm_inv_def)
  moreover have "cm_frame c ?c" by (simp add: cm_frame_def done_handles_def)
  ultimately show ?thesis by blast
qed

lemma add_socket_ok:
  assumes inv: "cm_inv c" and new: "cm_assigned c s = None"
  shows "\<exists>c'. add_socket s action c = Inr c' \<and> cm_inv c' \<and> cm_frame c c'"
proof -
  let ?p = "length (cm_infos c)"
  let ?c = "c\<lparr>cm_infos := cm_infos c @ [Some \<lparr>si_action = CURL_POLL_NONE\<rparr>],
              cm_assigned := (cm_assigned c)(s := Some ?p)\<rparr>"
  have fresh: "cm_assigned c x \<noteq> Some ?p" for x
    using cm_inv_info [OF inv, of x ?p] by (auto simp: live_info_def)
  have "live_info q ?c \<longleftrightarrow> live_info q c \<or> q = ?p" for q
    by (auto simp: live_info_def nth_append)
  moreover have "(\<exists>x. cm_assigned ?c x = Some q) \<longleftrightarrow> (\<exists>x. cm_assigned c x = Some q) \<or> q = ?p" for q
    using new by (auto, metis option.distinct(1))
  moreover have "inj_on (cm_assigned ?c) (dom (cm_assigned ?c))"
    using inv fresh by (auto simp: cm_inv_def inj_on_def dest: sym)
  ultimately have "cm_inv ?c"
    using inv by (simp add: cm_inv_def)
  then obtain c' where "set_socket ?p s action ?c = Inr c'" "cm_inv c'" "cm_frame ?c c'"
    using set_socket_ok [of ?c s ?p s action] by auto
  moreover have "cm_frame c ?c" by (simp add: cm_frame_def done_handles_def)
  ultimately show ?thesis by (auto simp: add_socket_def Let_def intro: cm_frame_trans)
qed

lemma remove_socket_ok:
  assumes inv: "cm_inv c"
  shows "\<exists>c'. remove_socket (cm_assigned c s) s c = Inr c' \<and> cm_inv c' \<and> cm_frame c c'"
proof -
  let ?c = "c\<lparr>cm_assigned := (cm_assigned c)(s := None)\<rparr>"
  let ?d = "case cm_assigned c s of None \<Rightarrow> ?c | Some p \<Rightarrow> ?c\<lparr>cm_infos := (cm_infos c)[p := None]\<rparr>"
  have tcp: "map_find (cm_socket_map c) s = Some t \<Longrightarrow> cm_tcp c ! t" for t
    using cm_inv_tcp [OF inv] by blast
  have "remove_socket (cm_assigned c s) s c = Inr ?d \<and> cm_inv ?d"
  proof (cases "cm_assigned c s")
    case None
    then have "?c = c" by (simp add: fun_upd_idem)
    with None tcp inv show ?thesis by (auto simp: remove_socket_def Let_def check_def split: option.split)
  next
    case (Some p)
    have live: "live_info p ?c" using cm_inv_info [OF inv Some] by (simp add: live_info_def)
    then obtain i where "use_info p ?c = Inr i" using use_info_live by blast
    with Some tcp have rm: "remove_socket (cm_assigned c s) s c = Inr ?d"
      by (auto simp: remove_socket_def Let_def check_def split: option.split)
    have inj: "inj_on (cm_assigned c) (dom (cm_assigned c))" using inv by (simp add: cm_inv_def)
    have "live_info q ?d \<longleftrightarrow> live_info q c \<and> q \<noteq> p" for q
      using Some by (cases "q = p") (auto simp: live_info_def)
    moreover have "(\<exists>x. ((cm_assigned c)(s := None)) x = Some q) \<longleftrightarrow> (\<exists>x. cm_assigned c x = Some q) \<and> q \<noteq> p" for q
      using Some inj by (auto simp: inj_on_def dom_def) (metis option.inject)
    moreover have "inj_on ((cm_assigned c)(s := None)) (dom ((cm_assigned c)(s := None)))"
      using inj by (auto simp: inj_on_def)
    ultimately have "cm_inv ?d"
      using inv Some by (simp add: cm_inv_def)
    with rm show ?thesis ..
  qed
  moreover have "cm_frame c ?d" by (simp add: cm_frame_def done_handles_def split: option.split)
  ultimately show ?thesis by blast
qed

lemma socket_cb_ok:
  assumes inv: "cm_inv c"
  shows "\<exists>c'. socket_cb s what c = Inr c' \<and> cm_inv c' \<and> cm_frame c c'"
proof (cases "what = CURL_POLL_REMOVE")
  case True
  with remove_socket_ok [OF inv] show ?thesis by (simp add: socket_cb_def)
next
  case False
  show ?thesis
  proof (cases "cm_assigned c s")
    case None
    with False add_socket_ok [OF inv None] show ?thesis by (simp add: socket_cb_def)
  next
    case (Some p)
    obtain i where "use_info p c = Inr i" using cm_inv_info [OF inv Some] use_info_live by blast
    with False Some set_socket_ok [OF inv Some] show ?thesis by (simp add: socket_cb_def)
  qed
qed

lemma open_socket_ok:
  assumes inv: "cm_inv c"
  shows "cm_inv (fst (open_socket purpose fam opened c)) \<and> cm_frame c (fst (open_socket purpose fam opened c))"
proof -
  let ?t = "length (cm_tcp c)"
  let ?c = "c\<lparr>cm_tcp := cm_tcp c @ [True]\<rparr>"
  have c: "cm_inv ?c" using inv by (auto simp: cm_inv_def nth_append live_info_def intro: less_SucI)
  have "cm_inv (?c\<lparr>cm_socket_map := map_emplace k ?t (cm_socket_map c)\<rparr>)" for k
  proof -
    have m: "map_inv (cm_socket_map c)" using inv by (simp add: cm_inv_def)
    have t: "?t \<notin> snd ` set (cm_socket_map c)" using inv by (auto simp: cm_inv_def)
    show ?thesis
    proof (cases "map_find (cm_socket_map c) k")
      case None
      then have "mset (map_emplace k ?t (cm_socket_map c)) = add_mset (k, ?t) (mset (cm_socket_map c))"
        by (rule emplace_mset)
      then have s: "set (map_emplace k ?t (cm_socket_map c)) = insert (k, ?t) (set (cm_socket_map c))"
        and d: "mset (map snd (map_emplace k ?t (cm_socket_map c))) = mset (?t # map snd (cm_socket_map c))"
        by (metis set_mset_add_mset_insert set_mset_mset, simp)
      have "distinct (map snd (map_emplace k ?t (cm_socket_map c)))"
        using mset_eq_imp_distinct_iff [OF d] t inv by (simp add: cm_inv_def)
      with inv m s show ?thesis by (auto simp: cm_inv_def nth_append live_info_def intro: less_SucI)
    next
      case (Some v)
      then have "map_emplace k ?t (cm_socket_map c) = cm_socket_map c"
        using m by (intro emplace_present)
      with c show ?thesis by (simp add: cm_inv_def)
    qed
  qed
  with inv c show ?thesis
    by (auto simp: open_socket_def Let_def cm_frame_def done_handles_def split: option.split)
qed

lemma close_socket_ok:
  assumes inv: "cm_inv c"
  shows "\<exists>c'. close_socket s c = Inr c' \<and> cm_inv c' \<and> cm_frame c c'"
proof (cases "map_find (cm_socket_map c) s")
  case None
  with inv show ?thesis by (simp add: close_socket_def cm_frame_refl)
next
  case (Some t)
  let ?m = "map_erase s (cm_socket_map c)"
  let ?c = "c\<lparr>cm_tcp := (cm_tcp c)[t := False], cm_socket_map := ?m\<rparr>"
  have "mset (cm_socket_map c) = add_mset (s, t) (mset ?m)" using Some by (rule erase_mset)
  then have m: "mset (map snd (cm_socket_map c)) = mset (t # map snd ?m)"
    and sub: "set ?m \<subseteq> set (cm_socket_map c)"
    by (simp, metis insertCI set_mset_add_mset_insert set_mset_mset subsetI)
  have "distinct (t # map snd ?m)"
    using mset_eq_imp_distinct_iff [OF m] inv by (simp add: cm_inv_def)
  then have d: "distinct (map snd ?m)" "t \<notin> snd ` set ?m" by simp_all
  have "u < length (cm_tcp c) \<and> (cm_tcp c)[t := False] ! u" if "u \<in> snd ` set ?m" for u
  proof -
    have "u \<noteq> t" "u \<in> snd ` set (cm_socket_map c)" using that d(2) sub by auto
    with inv show ?thesis by (auto simp: cm_inv_def)
  qed
  then have "cm_inv ?c"
    using inv d by (simp add: cm_inv_def live_info_def)
  moreover have "close_socket s c = Inr ?c"
    using Some cm_inv_tcp [OF inv Some] by (simp add: close_socket_def check_def)
  moreover have "cm_frame c ?c" by (simp add: cm_frame_def done_handles_def)
  ultimately show ?thesis by blast
qed


section \<open>The contract of the callbacks of an easy handle\<close>

text \<open>
  What the adapter relies on: the callbacks that the owner of a handle registers keep the
  adapter's memory in order, and change the state only as \<open>keeps\<close> allows, which also allows what
  the adapter's own callbacks do.
\<close>

locale easy_callbacks =
  fixes data :: "'a curl_data"
    and keeps :: "'a CurlMultiAsio_scheme \<Rightarrow> 'a CurlMultiAsio_scheme \<Rightarrow> bool"
  assumes keeps_frame: "cm_frame c c' \<Longrightarrow> keeps c c'"
    and keeps_trans: "keeps c d \<Longrightarrow> keeps d e \<Longrightarrow> keeps c e"
    and data_keeps: "cm_inv c \<Longrightarrow> data call c = Inr c' \<Longrightarrow> cm_inv c' \<and> keeps c c'"
begin

lemma callback_keeps:
  assumes "cm_inv c" and "curl_callback data call c = Inr c'"
  shows "cm_inv c' \<and> keeps c c'"
proof (cases call)
  case (Timer_Function t)
  with assms multi_timer_cb_ok(1) keeps_frame [OF multi_timer_cb_ok(2)] show ?thesis by auto
next
  case (Socket_Function s what)
  with assms socket_cb_ok [OF assms(1), of s what] show ?thesis by (auto intro: keeps_frame)
next
  case (Open_Socket purpose fam opened)
  with assms open_socket_ok [OF assms(1)] show ?thesis by (auto intro: keeps_frame)
next
  case (Close_Socket s)
  with assms close_socket_ok [OF assms(1), of s] show ?thesis by (auto intro: keeps_frame)
qed (use assms data_keeps in auto)

lemma callbacks_keep:
  "cm_inv c \<Longrightarrow> curl_callbacks data calls c = Inr c' \<Longrightarrow> cm_inv c' \<and> keeps c c'"
proof (induction calls arbitrary: c)
  case Nil
  then show ?case by (auto intro: keeps_frame cm_frame_refl)
next
  case (Cons call calls)
  then obtain d where d: "curl_callback data call c = Inr d" "curl_callbacks data calls d = Inr c'" by auto
  with Cons callback_keeps show ?case by (meson keeps_trans)
qed

text \<open>Only a transfer callback can fail: the others never use deleted memory.\<close>

lemma callback_fails:
  assumes "cm_inv c" and "curl_callback data call c = Inl e"
  shows "data call c = Inl e \<and> (\<exists>p x. call = Header_Function p x \<or> call = Write_Function p x)"
  using assms socket_cb_ok [OF assms(1)] close_socket_ok [OF assms(1)]
  by (cases call) (auto, (metis sum.distinct(1))+)

lemma callbacks_fail:
  "cm_inv c \<Longrightarrow> curl_callbacks data calls c = Inl e \<Longrightarrow>
     \<exists>d. \<exists>call \<in> set calls. cm_inv d \<and> keeps c d \<and> data call d = Inl e \<and>
       (\<exists>p x. call = Header_Function p x \<or> call = Write_Function p x)"
proof (induction calls arbitrary: c)
  case (Cons call calls)
  show ?case
  proof (cases "curl_callback data call c")
    case (Inl e')
    with Cons.prems callback_fails [OF Cons.prems(1) Inl] show ?thesis
      by (auto intro: keeps_frame cm_frame_refl)
  next
    case (Inr d)
    note d = callback_keeps [OF Cons.prems(1) Inr]
    then obtain d' call' where "call' \<in> set calls" "cm_inv d'" "keeps d d'" "data call' d' = Inl e"
      "\<exists>p x. call' = Header_Function p x \<or> call' = Write_Function p x"
      using Cons.IH [of d] Cons.prems(2) Inr by auto
    moreover from this have "keeps c d'" using d keeps_trans by blast
    ultimately show ?thesis by (intro exI [of _ d'] bexI [of _ call']) simp_all
  qed
qed simp

end

end
