(* ===== verification/HttpItem.thy ===== *)
theory HttpItem
  imports CurlMulti Helper MessageStore
begin

text \<open>
  The request items of \<open>src/src/HttpConnection.h\<close> and the functions of \<open>src/src/HttpConnection.cpp\<close>
  that build the URL and the options of a transfer, collect its response and log it. The options
  of an easy handle are the list of the \<open>curl_easy_setopt\<close> calls made on it, in order.
\<close>

datatype curl_option =
    CURLOPT_PRIVATE CURL
  | CURLOPT_HTTPHEADER "string list"
  | CURLOPT_HEADER int
  | CURLOPT_URL string
  | CURLOPT_WRITEFUNCTION_readBody
  | CURLOPT_WRITEDATA CURL
  | CURLOPT_HEADERFUNCTION_readHeaders
  | CURLOPT_HEADERDATA CURL
  | CURLOPT_ERRORBUFFER CURL
  | CURLOPT_SSL_VERIFYPEER int
  | CURLOPT_SSL_VERIFYHOST int
  | CURLOPT_TIMEOUT_MS int
  | CURLOPT_CONNECTTIMEOUT int
  | CURLOPT_POST int
  | CURLOPT_CUSTOMREQUEST string
  | CURLOPT_HTTPAUTH_BASIC
  | CURLOPT_USERNAME string
  | CURLOPT_PASSWORD string
  | CURLOPT_POSTFIELDSIZE nat
  | CURLOPT_COPYPOSTFIELDS "byte list"

text \<open>
  \<open>HttpConnection::RequestItem\<close>. The start time and the error buffer are only logged; the
  connection timeout is a whole number of seconds (\<open>2.0\<close>).
\<close>

record 'cb HttpItem =
  hi_destination :: string
  hi_request :: "Request option"
  hi_callback :: "'cb CallOnceRequestCallback"
  hi_connectionTimeout :: int
  hi_requestHeaders :: "string list"
  hi_responseHeaders :: StringMap
  hi_responseBody :: string
  hi_options :: "curl_option list"

definition HttpItem_new :: "CURL \<Rightarrow> string \<Rightarrow> Request \<Rightarrow> 'cb \<Rightarrow> 'cb HttpItem" where
  "HttpItem_new handle destination request callback =
     \<lparr>hi_destination = destination, hi_request = Some request,
      hi_callback = CallOnce_assign callback CallOnce_new, hi_connectionTimeout = 2,
      hi_requestHeaders = [], hi_responseHeaders = [], hi_responseBody = [],
      hi_options = [CURLOPT_PRIVATE handle]\<rparr>"

section \<open>The URL of a request\<close>

text \<open>The loop over the parameters: \<open>sep\<close> is \<open>?\<close> before the first one and \<open>&\<close> after it.\<close>

fun add_parameters :: "string \<Rightarrow> (string \<times> string) list \<Rightarrow> string res" where
  "add_parameters sep [] = Inr ''''"
| "add_parameters sep ((k, v) # ps) =
     bind_res (urlEncode k) (\<lambda>k'.
     bind_res (urlEncode v) (\<lambda>v'.
     bind_res (add_parameters ''&'' ps) (\<lambda>rest.
     Inr (sep @ k' @ ''='' @ v' @ rest))))"

definition destination_of :: "ConnectionConfiguration \<Rightarrow> MessageHeader \<Rightarrow> string res" where
  "destination_of conf h =
     (let dbString = (case h_database h of None \<Rightarrow> '''' | Some db \<Rightarrow> ''/_db/'' @ db)
      in bind_res (opt_get (h_path h)) (\<lambda>path.
         let destination = (if c_ssl conf then ''https://'' else ''http://'') @ c_host conf @ '':'' @
               c_port conf @ dbString @ path
         in case h_parameters h of
              None \<Rightarrow> Inr destination
            | Some parameters \<Rightarrow>
                bind_res (add_parameters ''?'' parameters) (\<lambda>query. Inr (destination @ query))))"

definition dot_replacement :: "string \<Rightarrow> nat \<Rightarrow> string" where
  "dot_replacement originalUrl found =
     (if found + 2 = length originalUrl then ''/%2E''
      else if originalUrl ! (found + 2) \<in> {CHR ''/'', CHR ''#'', CHR ''?''} then ''/%2E''
      else ''/.'')"

lemma str_find_Some:
  assumes "str_find n s pos = Some i"
  shows "pos \<le> i" and "i + length n \<le> length s" and "take (length n) (drop i s) = n"
proof -
  obtain j where j: "pos \<le> length s" "find_sub n (drop pos s) = Some j" "i = pos + j"
    using assms by (auto simp: str_find_def split: if_splits)
  with find_sub_Some [OF j(2)] show "pos \<le> i" "i + length n \<le> length s" "take (length n) (drop i s) = n"
    by (auto simp: add.commute)
qed

lemma str_find_bound: "str_find n s pos = Some i \<Longrightarrow> pos \<le> i \<and> i + length n \<le> length s"
  using str_find_Some by blast

function safe_loop :: "string \<Rightarrow> nat \<Rightarrow> string \<Rightarrow> string" where
  "safe_loop originalUrl currentFind url =
     (case str_find ''/.'' originalUrl currentFind of
        None \<Rightarrow> url @ drop currentFind originalUrl
      | Some found \<Rightarrow>
          safe_loop originalUrl (found + 2)
            (url @ take (found - currentFind) (drop currentFind originalUrl) @ dot_replacement originalUrl found))"
  by pat_completeness auto
termination
  by (relation "measure (\<lambda>(s, pos, url). Suc (length s) - pos)") (auto dest!: str_find_bound)

declare safe_loop.simps [simp del]

definition createSafeDottedCurlUrl :: "string \<Rightarrow> string" where
  "createSafeDottedCurlUrl originalUrl = safe_loop originalUrl 0 ''''"

section \<open>The options of a transfer\<close>

fun verb_options :: "RestVerb \<Rightarrow> curl_option list res" where
  "verb_options Post = Inr [CURLOPT_POST 1]"
| "verb_options Put = Inr [CURLOPT_CUSTOMREQUEST ''PUT'']"
| "verb_options Delete = Inr [CURLOPT_CUSTOMREQUEST ''DELETE'']"
| "verb_options Head = Inr [CURLOPT_CUSTOMREQUEST ''HEAD'']"
| "verb_options Patch = Inr [CURLOPT_CUSTOMREQUEST ''PATCH'']"
| "verb_options Options = Inr [CURLOPT_CUSTOMREQUEST ''OPTIONS'']"
| "verb_options Get = Inr []"
| "verb_options Illegal = Inl (Runtime_error (''Invalid request type '' @ to_string_RestVerb Illegal))"
| "verb_options (Other_RestVerb i) = Inr []"

definition auth_options :: "ConnectionConfiguration \<Rightarrow> curl_option list res" where
  "auth_options conf =
     (case c_authenticationType conf of
        None_Auth \<Rightarrow> Inr []
      | Basic \<Rightarrow> Inr [CURLOPT_HTTPAUTH_BASIC, CURLOPT_USERNAME (c_str (c_user conf)), CURLOPT_PASSWORD (c_str (c_password conf))]
      | Jwt \<Rightarrow> Inl (Invalid_argument ''Jwt authentication is not yet support''))"


text \<open>
  The calls of \<open>createRequestItem\<close> on the handle of the new item \<open>p\<close>, after \<open>CURLOPT_PRIVATE\<close>, and
  the header list. A C string ends at its first NUL; the body is copied with its given size.
\<close>

definition header_lines :: "MessageHeader \<Rightarrow> string list" where
  "header_lines h =
     (case h_meta h of None \<Rightarrow> [] | Some m \<Rightarrow> map (\<lambda>(k, v). c_str (k @ '': '' @ v)) m)"

definition body_options :: "Request \<Rightarrow> curl_option list res" where
  "body_options r =
     (let pay = Request_payload r
      in if 0 < cb_size pay
         then bind_res (buffer_bytes pay) (\<lambda>bytes.
              Inr [CURLOPT_POSTFIELDSIZE (cb_size pay), CURLOPT_COPYPOSTFIELDS bytes])
         else Inr [])"

definition item_options ::
  "ConnectionConfiguration \<Rightarrow> CURL \<Rightarrow> 'cb HttpItem \<Rightarrow> Request \<Rightarrow> curl_option list res"
where
  "item_options conf p item r =
     (let connectTimeout = hi_connectionTimeout item;
          connectTimeout = (if connectTimeout \<le> 0 then 1 else connectTimeout);
          common =
            [CURLOPT_HTTPHEADER (header_lines (r_header r)), CURLOPT_HEADER 0,
             CURLOPT_URL (c_str (createSafeDottedCurlUrl (hi_destination item))),
             CURLOPT_WRITEFUNCTION_readBody, CURLOPT_WRITEDATA p,
             CURLOPT_HEADERFUNCTION_readHeaders, CURLOPT_HEADERDATA p, CURLOPT_ERRORBUFFER p,
             CURLOPT_SSL_VERIFYPEER 0, CURLOPT_SSL_VERIFYHOST 0,
             CURLOPT_TIMEOUT_MS (r_timeout r), CURLOPT_CONNECTTIMEOUT connectTimeout]
      in bind_res (opt_get (h_restVerb (r_header r))) (\<lambda>verb.
         bind_res (verb_options verb) (\<lambda>verb_opts.
         bind_res (auth_options conf) (\<lambda>auth_opts.
         bind_res (body_options r) (\<lambda>body_opts.
         Inr (common @ verb_opts @ auth_opts @ body_opts))))))"

section \<open>The response\<close>

text \<open>
  \<open>readHeaders\<close>: the header line as libcurl hands it over, with its line end. The length argument
  of the second \<open>substr\<close> is computed in \<open>size_t\<close>.
\<close>

definition size_sub :: "nat \<Rightarrow> nat \<Rightarrow> nat" where
  "size_sub a b = nat ((int a - int b) mod 2 ^ 64)"

definition readHeaders :: "string \<Rightarrow> 'cb HttpItem \<Rightarrow> 'cb HttpItem res" where
  "readHeaders header item =
     (case str_find '':'' header 0 of
        None \<Rightarrow> Inr item
      | Some pivot \<Rightarrow>
          let key = map tolower (take pivot header)
          in bind_res (substr header (pivot + 2) (size_sub (length header) (pivot + 4))) (\<lambda>value.
             Inr (item\<lparr>hi_responseHeaders := map_emplace key value (hi_responseHeaders item)\<rparr>)))"

definition readBody :: "string \<Rightarrow> 'cb HttpItem \<Rightarrow> 'cb HttpItem" where
  "readBody data item = item\<lparr>hi_responseBody := hi_responseBody item @ data\<rparr>"

definition body_bytes :: "string \<Rightarrow> byte list" where
  "body_bytes s = map (\<lambda>c. of_nat (of_char c)) s"

text \<open>\<open>responseHeaders[key]\<close> inserts an empty string when the key is absent.\<close>

definition transformResult :: "StringMap \<Rightarrow> string \<Rightarrow> Response \<Rightarrow> Response" where
  "transformResult responseHeaders responseBody response =
     (let responseHeaders = map_emplace fu_content_type_key '''' responseHeaders;
          ctype = (case map_find responseHeaders fu_content_type_key of None \<Rightarrow> '''' | Some t \<Rightarrow> t);
          response = response\<lparr>s_header := set_contentTypeString ctype (s_header response)\<rparr>;
          response = (if responseBody \<noteq> [] then setPayload (body_bytes responseBody) 0 response else response)
      in response\<lparr>s_header := (s_header response)\<lparr>h_meta := Some responseHeaders\<rparr>\<rparr>)"

section \<open>Logging\<close>

text \<open>The lines that \<open>logHttpBody\<close> and \<open>logHttpHeaders\<close> print.\<close>

function logHttpBody :: "string \<Rightarrow> string \<Rightarrow> string list" where
  "logHttpBody prefix data =
     (if data = [] then [] else (prefix @ '' '' @ take 80 data @ endl) # logHttpBody prefix (drop 80 data))"
  by pat_completeness auto
termination by (relation "measure (\<lambda>(p, d). length d)") auto

declare logHttpBody.simps [simp del]

function header_loop :: "string \<Rightarrow> string \<Rightarrow> nat \<Rightarrow> string list" where
  "header_loop prefix headerData pos =
     (case str_find [CHR 0x0D, CHR 0x0A] headerData pos of
        None \<Rightarrow> []
      | Some n \<Rightarrow> (prefix @ '' '' @ take (n - pos) (drop pos headerData) @ endl) #
          header_loop prefix headerData (n + 2))"
  by pat_completeness auto
termination
  by (relation "measure (\<lambda>(p, d, pos). Suc (length d) - pos)") (auto dest!: str_find_bound)

declare header_loop.simps [simp del]

definition logHttpHeaders :: "string \<Rightarrow> string \<Rightarrow> string list" where
  "logHttpHeaders prefix headerData = header_loop prefix headerData 0"

datatype curl_infotype =
    CURLINFO_TEXT | CURLINFO_HEADER_OUT | CURLINFO_HEADER_IN | CURLINFO_DATA_OUT
  | CURLINFO_SSL_DATA_OUT | CURLINFO_DATA_IN | CURLINFO_SSL_DATA_IN | CURLINFO_END

definition curlDebug :: "curl_infotype \<Rightarrow> string \<Rightarrow> 'cb HttpItem \<Rightarrow> string list res" where
  "curlDebug type dataStr inprogress =
     (case hi_request inprogress of
        None \<Rightarrow> Inl (Undefined ''null _request'')
      | Some r \<Rightarrow>
          let prefix = ''Communicator('' @ show_nat (unat (r_messageID r)) @ ''): ''
          in Inr (case type of
               CURLINFO_TEXT \<Rightarrow> [prefix @ ''Text: '' @ dataStr]
             | CURLINFO_HEADER_OUT \<Rightarrow> logHttpHeaders (prefix @ ''Header >>'') dataStr
             | CURLINFO_HEADER_IN \<Rightarrow> logHttpHeaders (prefix @ ''Header <<'') dataStr
             | CURLINFO_DATA_OUT \<Rightarrow> logHttpBody (prefix @ ''Body >>'') dataStr
             | CURLINFO_SSL_DATA_OUT \<Rightarrow> logHttpBody (prefix @ ''Body >>'') dataStr
             | CURLINFO_DATA_IN \<Rightarrow> logHttpBody (prefix @ ''Body <<'') dataStr
             | CURLINFO_SSL_DATA_IN \<Rightarrow> logHttpBody (prefix @ ''Body <<'') dataStr
             | CURLINFO_END \<Rightarrow> []))"


section \<open>URLs: lemmas\<close>

text \<open>A reference for \<open>createSafeDottedCurlUrl\<close>, character by character.\<close>

definition segment_end :: "string \<Rightarrow> bool" where
  "segment_end rest \<longleftrightarrow> rest = [] \<or> hd rest \<in> {CHR ''/'', CHR ''#'', CHR ''?''}"

fun safe_url :: "string \<Rightarrow> string" where
  "safe_url [] = []"
| "safe_url [c] = [c]"
| "safe_url (c # d # rest) =
     (if c = CHR ''/'' \<and> d = CHR ''.''
      then (if segment_end rest then ''/%2E'' else ''/.'') @ safe_url rest
      else c # safe_url (d # rest))"

text \<open>A path segment that is a single dot, which libcurl would remove.\<close>

fun has_dot_segment :: "string \<Rightarrow> bool" where
  "has_dot_segment (c # d # rest) \<longleftrightarrow>
     (c = CHR ''/'' \<and> d = CHR ''.'' \<and> segment_end rest) \<or> has_dot_segment (d # rest)"
| "has_dot_segment _ \<longleftrightarrow> False"

lemma safe_url_None: "find_sub ''/.'' s = None \<Longrightarrow> safe_url s = s"
  by (induction s rule: safe_url.induct) (auto split: if_splits)

lemma safe_url_Some:
  "find_sub ''/.'' s = Some i \<Longrightarrow>
     safe_url s = take i s @ (if segment_end (drop (i + 2) s) then ''/%2E'' else ''/.'') @ safe_url (drop (i + 2) s)"
proof (induction s arbitrary: i rule: safe_url.induct)
  case (3 c d rest)
  show ?case
  proof (cases "c = CHR ''/'' \<and> d = CHR ''.''")
    case False
    with 3 show ?thesis by (auto split: if_splits)
  qed (use 3 in auto)
qed (auto split: if_splits)

lemma dot_replacement_eq:
  "found + 2 \<le> length u \<Longrightarrow>
     dot_replacement u found = (if segment_end (drop (found + 2) u) then ''/%2E'' else ''/.'')"
  by (auto simp: dot_replacement_def segment_end_def hd_drop_conv_nth)

lemma safe_loop_eq: "pos \<le> length u \<Longrightarrow> safe_loop u pos url = url @ safe_url (drop pos u)"
proof (induction u pos url rule: safe_loop.induct)
  case (1 u pos url)
  show ?case
  proof (cases "str_find ''/.'' u pos")
    case None
    with 1 show ?thesis
      by (simp add: safe_loop.simps [of u] str_find_def safe_url_None)
  next
    case (Some found)
    then obtain i where i: "find_sub ''/.'' (drop pos u) = Some i" "found = pos + i"
      using 1 by (auto simp: str_find_def split: if_splits)
    have b: "found + 2 \<le> length u" using str_find_bound [OF Some] by simp
    show ?thesis
      using "1.IH" [OF Some b] i b dot_replacement_eq [OF b] safe_url_Some [OF i(1)] Some
      by (simp add: safe_loop.simps [of u pos] add.commute)
  qed
qed

lemma safe_url_hd: "s \<noteq> [] \<Longrightarrow> safe_url s \<noteq> [] \<and> hd (safe_url s) = hd s"
  by (cases s rule: safe_url.cases) auto

lemma safe_url_segment_end: "segment_end (safe_url s) = segment_end s"
  using safe_url_hd [of s] by (cases "s = []") (auto simp: segment_end_def)

lemma has_dot_Cons: "has_dot_segment (c # s) \<longleftrightarrow>
    (c = CHR ''/'' \<and> s \<noteq> [] \<and> hd s = CHR ''.'' \<and> segment_end (tl s)) \<or> has_dot_segment s"
  by (cases s) auto

lemma safe_url_no_dot: "\<not> has_dot_segment (safe_url s)"
proof (induction s rule: safe_url.induct)
  case (3 c d rest)
  show ?case
  proof (cases "c = CHR ''/'' \<and> d = CHR ''.''")
    case True
    with 3 show ?thesis
      by (simp add: has_dot_Cons safe_url_segment_end)
  next
    case False
    have hd: "safe_url (d # rest) \<noteq> []" "hd (safe_url (d # rest)) = d"
      using safe_url_hd [of "d # rest"] by simp_all
    from False have "safe_url (c # d # rest) = c # safe_url (d # rest)" by auto
    with 3(2) [OF False] hd False show ?thesis by (auto simp: has_dot_Cons)
  qed
qed simp_all

text \<open>Reading a query string: the pairs between \<open>&\<close>, split at \<open>=\<close> and decoded.\<close>

definition decode_pair :: "string \<Rightarrow> string \<times> string" where
  "decode_pair s = (urlDecode (takeWhile (\<lambda>c. c \<noteq> CHR ''='') s), urlDecode (tl (dropWhile (\<lambda>c. c \<noteq> CHR ''='') s)))"

definition decode_query :: "string \<Rightarrow> (string \<times> string) list" where
  "decode_query s = (if s = [] then [] else map decode_pair (split_on (CHR ''&'') (tl s)))"

lemma url_plain_not_sep: "url_plain c \<or> c = CHR ''%'' \<Longrightarrow> c \<noteq> CHR ''&'' \<and> c \<noteq> CHR ''='' \<and> c \<noteq> CHR ''?''"
  by (auto simp: url_plain_def less_eq_char_def)

lemma urlEncode_Inr:
  assumes "urlEncode s = Inr e"
  shows "urlDecode e = s" and "CHR ''&'' \<notin> set e" and "CHR ''='' \<notin> set e"
proof -
  have e: "e = concat (map encode_char s)" using assms by (auto simp: urlEncode_def split: if_splits)
  have "urlDecode (concat (map encode_char s)) = s"
    by (induction s) (simp_all add: urlDecode_encode_char, simp add: urlDecode_def decode_loop.simps)
  with e show "urlDecode e = s" by simp
  have "c \<noteq> CHR ''&'' \<and> c \<noteq> CHR ''=''" if "c \<in> set e" for c
    using that encode_char_set url_plain_not_sep by (auto simp: e)
  then show "CHR ''&'' \<notin> set e" "CHR ''='' \<notin> set e" by auto
qed

lemma decode_pair_eq:
  assumes "urlEncode k = Inr k'" and "urlEncode v = Inr v'"
  shows "decode_pair (k' @ CHR ''='' # v') = (k, v)"
proof -
  note k = urlEncode_Inr [OF assms(1)] and v = urlEncode_Inr [OF assms(2)]
  have "takeWhile (\<lambda>c. c \<noteq> CHR ''='') (k' @ CHR ''='' # v') = k'"
    "dropWhile (\<lambda>c. c \<noteq> CHR ''='') (k' @ CHR ''='' # v') = CHR ''='' # v'"
    using k(3) by (auto simp: takeWhile_append dropWhile_append)
  with k v show ?thesis by (simp add: decode_pair_def)
qed

lemma add_parameters_decode:
  "add_parameters sep ps = Inr q \<Longrightarrow> length sep = 1 \<Longrightarrow> decode_query q = ps"
proof (induction sep ps arbitrary: q rule: add_parameters.induct)
  case (2 sep k v ps)
  then obtain k' v' rest where k: "urlEncode k = Inr k'" and v: "urlEncode v = Inr v'"
    and rest: "add_parameters ''&'' ps = Inr rest" and q: "q = sep @ k' @ ''='' @ v' @ rest"
    by auto
  have IH: "decode_query rest = ps" using "2.IH" [OF rest] by simp
  obtain c where c: "sep = [c]" using "2.prems" by (cases sep) auto
  have kv: "CHR ''&'' \<notin> set (k' @ CHR ''='' # v')"
    using urlEncode_Inr(2) [OF k] urlEncode_Inr(2) [OF v] by simp
  show ?case
  proof (cases ps)
    case Nil
    with rest q c kv show ?thesis
      by (simp add: decode_query_def split_on_plain decode_pair_eq [OF k v])
  next
    case (Cons p ps')
    obtain r where r: "rest = CHR ''&'' # r"
      using rest Cons by (cases p) auto
    have "split_on (CHR ''&'') (tl q) = (k' @ CHR ''='' # v') # split_on (CHR ''&'') r"
      using split_on_append [OF kv, of r] by (simp add: q c r)
    with q c r IH decode_pair_eq [OF k v] show ?thesis
      by (simp add: decode_query_def)
  qed
qed (simp add: decode_query_def)


section \<open>Headers: lemmas\<close>

lemma find_sub_char: "find_sub [c] s = (if c \<in> set s then Some (length (takeWhile (\<lambda>d. d \<noteq> c) s)) else None)"
  by (induction s) auto

lemma str_find_char:
  "str_find [c] s 0 = (if c \<in> set s then Some (length (takeWhile (\<lambda>d. d \<noteq> c) s)) else None)"
  by (simp add: str_find_def find_sub_char option.map_ident)

lemma size_sub_le: "b \<le> a \<Longrightarrow> a < 2 ^ 64 \<Longrightarrow> size_sub a b = a - b"
  by (simp add: size_sub_def of_nat_diff [symmetric] del: of_nat_diff)

section \<open>Properties\<close>

text \<open>
  C28: the dot rule of the URLs. \<open>createSafeDottedCurlUrl\<close> computes the function that replaces the
  dot of every path segment that is a single dot by \<open>%2E\<close> and copies everything else, and its
  result has no such segment left, so libcurl does not normalise the path of a document key away.
\<close>

theorem createSafeDottedCurlUrl_eq:
  "createSafeDottedCurlUrl u = safe_url u \<and> \<not> has_dot_segment (createSafeDottedCurlUrl u)"
  using safe_url_no_dot [of u] by (simp add: createSafeDottedCurlUrl_def safe_loop_eq)

text \<open>
  C29: the query string of a request. The destination of a request is the scheme, host, port,
  database and path followed by a query that decodes to exactly the parameters of the request, in
  their order, whatever characters the keys and values hold.
\<close>

theorem destination_query_roundtrip:
  assumes "destination_of conf h = Inr dest" and "h_path h = Some path"
  shows "\<exists>query. dest = (if c_ssl conf then ''https://'' else ''http://'') @ c_host conf @ '':'' @ c_port conf @
      (case h_database h of None \<Rightarrow> [] | Some db \<Rightarrow> ''/_db/'' @ db) @ path @ query \<and>
    decode_query query = (case h_parameters h of None \<Rightarrow> [] | Some ps \<Rightarrow> ps)"
proof (cases "h_parameters h")
  case None
  with assms show ?thesis
    by (intro exI [of _ "[]"]) (auto simp: destination_of_def opt_get_def decode_query_def Let_def)
next
  case (Some ps)
  then obtain query where "add_parameters ''?'' ps = Inr query" and "dest = (if c_ssl conf then ''https://'' else ''http://'') @
      c_host conf @ '':'' @ c_port conf @ (case h_database h of None \<Rightarrow> [] | Some db \<Rightarrow> ''/_db/'' @ db) @ path @ query"
    using assms by (auto simp: destination_of_def opt_get_def Let_def)
  moreover from this(1) have "decode_query query = ps" by (rule add_parameters_decode) simp
  ultimately show ?thesis using Some by auto
qed

theorem destination_query_roundtrip_witness:
  "\<exists>query. decode_query query = [(''a&'', ''1'')] \<and>
     destination_of (ConnectionConfiguration_default\<lparr>c_ssl := False, c_port := ''1''\<rparr>)
       (MessageHeader_new\<lparr>h_path := Some ''/x'', h_parameters := Some [(''a&'', ''1'')]\<rparr>) =
       Inr (''http://localhost:1/x'' @ query)"
proof -
  let ?conf = "ConnectionConfiguration_default\<lparr>c_ssl := False, c_port := ''1''\<rparr>"
  let ?h = "MessageHeader_new\<lparr>h_path := Some ''/x'', h_parameters := Some [(''a&'', ''1'')]\<rparr>"
  have "\<exists>dest. destination_of ?conf ?h = Inr dest"
    by (simp add: destination_of_def opt_get_def urlEncode_def SIZE_MAX_def Let_def MessageHeader_new_def)
  then obtain dest where d: "destination_of ?conf ?h = Inr dest" by blast
  show ?thesis
    using destination_query_roundtrip [OF d, of "''/x''"] d
    by (auto simp: MessageHeader_new_def ConnectionConfiguration_default_def)
qed

text \<open>
  C30: response headers. A header line of the usual form is stored under its name in lower case,
  with the value between \<open>: \<close> and the line end, unless that name was there already. A line that
  ends at its colon makes \<open>readHeaders\<close> throw \<open>std::out_of_range\<close> into libcurl, and the value of a
  line without the space after the colon loses its first character.
\<close>

theorem readHeaders_lines:
  assumes "CHR '':'' \<notin> set name" and "length (name @ value) < 2 ^ 32"
  shows "readHeaders (name @ '': '' @ value @ [CHR 0x0D, CHR 0x0A]) item =
      Inr (item\<lparr>hi_responseHeaders := map_emplace (map tolower name) value (hi_responseHeaders item)\<rparr>) \<and>
    readHeaders (name @ '':'') item = Inl (Out_of_range ''basic_string::substr'') \<and>
    (value \<noteq> [] \<longrightarrow>
       readHeaders (name @ '':'' @ value @ [CHR 0x0D, CHR 0x0A]) item =
       Inr (item\<lparr>hi_responseHeaders := map_emplace (map tolower name) (tl value) (hi_responseHeaders item)\<rparr>))"
proof -
  have f: "str_find '':'' (name @ CHR '':'' # rest) 0 = Some (length name)" for rest
    using assms(1) by (auto simp: str_find_char takeWhile_append)
  have "size_sub (length name + 1 + (1 + length value) + 2) (length name + 4) = length value"
    using assms(2) by (subst size_sub_le) simp_all
  moreover have "value \<noteq> [] \<Longrightarrow> size_sub (length name + 1 + length value + 2) (length name + 4) = length value - 1"
    using assms(2) by (subst size_sub_le) (simp_all add: Suc_leI)
  ultimately show ?thesis
    using f [of "CHR '' '' # value @ [CHR 0x0D, CHR 0x0A]"] f [of "[]"] f [of "value @ [CHR 0x0D, CHR 0x0A]"]
    by (cases "value") (simp_all add: readHeaders_def substr_def numeral_3_eq_3)
qed

definition sample_http_item :: "nat HttpItem" where
  "sample_http_item = HttpItem_new 0 ''http://localhost:8529/'' (Request_new MessageHeader_new []) 7"

theorem readHeaders_lines_witness:
  "readHeaders (''Server'' @ '': '' @ ''x'' @ [CHR 0x0D, CHR 0x0A]) sample_http_item =
     Inr (sample_http_item\<lparr>hi_responseHeaders :=
       map_emplace (map tolower ''Server'') ''x'' (hi_responseHeaders sample_http_item)\<rparr>)"
  by (rule readHeaders_lines [THEN conjunct1]) simp_all

end
