(* ===== verification/HttpConnection.thy ===== *)
theory HttpConnection
  imports HttpItem
begin

text \<open>
  \<open>src/src/HttpConnection.h\<close> and \<open>src/src/HttpConnection.cpp\<close>: the connection over libcurl. The state
  extends the one of the adapter it owns. Request items are kept alive by the message store alone
  (the easy handle holds a plain pointer), so an item outside the store is deleted, and using it is
  \<open>Undefined\<close>. The handle of an item is the item's number in \<open>hc_items\<close>. The ticket counter is a
  static variable; it belongs to the state here. Calls of the user's callbacks are logged in
  \<open>hc_delivered\<close>, calls of \<open>onFailure\<close> in \<open>hc_failures\<close>.
\<close>

record 'u HttpDelivery =
  hd_item :: item_ptr
  hd_callback :: 'u
  hd_error :: Error
  hd_request :: "Request option"
  hd_response :: "Response option"

record 'u HttpConnection = CurlMultiAsio +
  hc_configuration :: ConnectionConfiguration
  hc_ticketId :: u64
  hc_messageStore :: MessageStore
  hc_items :: "'u HttpItem list"
  hc_delivered :: "'u HttpDelivery list"
  hc_failures :: "(Error \<times> string) list"

definition HttpConnection_new :: "ConnectionConfiguration \<Rightarrow> u64 \<Rightarrow> bool \<Rightarrow> 'u HttpConnection res" where
  "HttpConnection_new conf ticket multi_init =
     bind_res (CurlMultiAsio_new multi_init) (\<lambda>c. Inr (CurlMultiAsio.extend c
       \<lparr>hc_configuration = conf, hc_ticketId = ticket, hc_messageStore = [], hc_items = [],
        hc_delivered = [], hc_failures = []\<rparr>))"

definition http_onFailure :: "Error \<Rightarrow> string \<Rightarrow> 'u HttpConnection \<Rightarrow> 'u HttpConnection" where
  "http_onFailure e msg s =
     (if c_onFailure (hc_configuration s) then s\<lparr>hc_failures := hc_failures s @ [(e, msg)]\<rparr> else s)"

text \<open>An item behind a plain pointer.\<close>

definition live_item :: "CURL \<Rightarrow> 'u HttpConnection \<Rightarrow> 'u HttpItem res" where
  "live_item p s =
     (if p \<in> snd ` set (hc_messageStore s) \<and> p < length (hc_items s) then Inr (hc_items s ! p)
      else Inl (Undefined ''deleted RequestItem''))"

definition set_http_item :: "CURL \<Rightarrow> 'u HttpItem \<Rightarrow> 'u HttpConnection \<Rightarrow> 'u HttpConnection" where
  "set_http_item p item s = s\<lparr>hc_items := (hc_items s)[p := item]\<rparr>"

text \<open>The callbacks of an easy handle.\<close>

fun http_data :: "curl_call \<Rightarrow> 'u HttpConnection \<Rightarrow> 'u HttpConnection res" where
  "http_data (Header_Function p header) s =
     bind_res (live_item p s) (\<lambda>item.
     bind_res (readHeaders header item) (\<lambda>item. Inr (set_http_item p item s)))"
| "http_data (Write_Function p data) s =
     bind_res (live_item p s) (\<lambda>item. Inr (set_http_item p (readBody data item) s))"
| "http_data _ s = Inr s"

text \<open>\<open>messageID()\<close> of an item reads the request it holds.\<close>

definition http_messageID :: "'u HttpConnection \<Rightarrow> item_ptr \<Rightarrow> MessageID" where
  "http_messageID s p = (case hi_request (hc_items s ! p) of None \<Rightarrow> 0 | Some r \<Rightarrow> r_messageID r)"

text \<open>
  \<open>createRequestItem\<close>. Nothing is stored before the last throwing step, so an exception leaves the
  state as it was; \<open>calls\<close> and \<open>rc\<close> are what \<open>curl_multi_add_handle\<close> does.
\<close>

definition http_createRequestItem ::
  "curl_call list \<Rightarrow> CURLMcode \<Rightarrow> string \<Rightarrow> Request \<Rightarrow> 'u \<Rightarrow> 'u HttpConnection \<Rightarrow> 'u HttpConnection res"
where
  "http_createRequestItem calls rc destination request callback s =
     (let p = length (hc_items s); item = HttpItem_new p destination request callback
      in bind_res (item_options (hc_configuration s) p item request) (\<lambda>opts.
         let item = item\<lparr>hi_requestHeaders := header_lines (r_header request),
                         hi_options := hi_options item @ opts\<rparr>;
             s = s\<lparr>hc_items := hc_items s @ [item]\<rparr>;
             s = s\<lparr>hc_messageStore := store_add (http_messageID s) p (hc_messageStore s)\<rparr>
         in addRequest http_data calls rc p s))"

definition queueRequest ::
  "curl_call list \<Rightarrow> CURLMcode \<Rightarrow> string \<Rightarrow> Request \<Rightarrow> 'u \<Rightarrow> 'u HttpConnection \<Rightarrow>
     'u HttpConnection \<times> MessageID res"
where
  "queueRequest calls rc destination request callback s =
     (let i = hc_ticketId s + 1; s = s\<lparr>hc_ticketId := i\<rparr>
      in case http_createRequestItem calls rc destination (request\<lparr>r_messageID := i\<rparr>) callback s of
           Inl e \<Rightarrow> (s, Inl e)
         | Inr s \<Rightarrow> (s, Inr i))"

definition http_sendRequest ::
  "curl_call list \<Rightarrow> CURLMcode \<Rightarrow> Request \<Rightarrow> 'u \<Rightarrow> 'u HttpConnection \<Rightarrow> 'u HttpConnection \<times> MessageID res"
where
  "http_sendRequest calls rc request callback s =
     (case destination_of (hc_configuration s) (r_header request) of
        Inl e \<Rightarrow> (s, Inl e)
      | Inr destination \<Rightarrow> queueRequest calls rc destination request callback s)"

definition http_requestsLeft :: "'u HttpConnection \<Rightarrow> int" where
  "http_requestsLeft s = curl_requestsLeft s"

section \<open>Results\<close>

text \<open>The call of \<open>_callback.invoke\<close> on a live item: its request is moved out.\<close>

definition http_invoke ::
  "Error \<Rightarrow> Response option \<Rightarrow> CURL \<Rightarrow> 'u HttpConnection \<Rightarrow> 'u HttpConnection res"
where
  "http_invoke e response p s =
     (let item = hc_items s ! p
      in bind_res (invoke (hi_callback item)) (\<lambda>(callback, call).
         let s = set_http_item p (item\<lparr>hi_callback := callback, hi_request := None\<rparr>) s
         in Inr (case call of
              None \<Rightarrow> s
            | Some cb \<Rightarrow>
                s\<lparr>hc_delivered := hc_delivered s @ [\<lparr>hd_item = p, hd_callback = cb, hd_error = e,
                    hd_request = hi_request item, hd_response = response\<rparr>]\<rparr>)))"

text \<open>The error that the callback gets for a failed transfer, and the message for \<open>onFailure\<close>, if any.\<close>

fun curl_error :: "CURLcode \<Rightarrow> (ErrorCondition \<times> string option) option" where
  "curl_error CURLE_OK = None"
| "curl_error CURLE_COULDNT_CONNECT = Some (CouldNotConnect, Some ''connect failed'')"
| "curl_error CURLE_SSL_CONNECT_ERROR = Some (CouldNotConnect, Some ''ssl connect failed'')"
| "curl_error CURLE_COULDNT_RESOLVE_HOST = Some (CouldNotConnect, Some ''resolve host failed'')"
| "curl_error CURLE_URL_MALFORMAT = Some (MalformedURL, None)"
| "curl_error CURLE_SEND_ERROR = Some (CouldNotConnect, None)"
| "curl_error CURLE_OPERATION_TIMEDOUT = Some (Timeout, None)"
| "curl_error CURLE_RECV_ERROR = Some (Timeout, None)"
| "curl_error CURLE_GOT_NOTHING = Some (Timeout, None)"
| "curl_error (CURLE_other i) = Some (CurlError, Some ''unknown curl error'')"

definition http_response :: "u32 \<Rightarrow> 'u HttpItem \<Rightarrow> Request \<Rightarrow> Response" where
  "http_response httpStatusCode item r =
     (let response = Response_new MessageHeader_new [];
          response = response\<lparr>s_header := (s_header response)\<lparr>h_responseCode := Some httpStatusCode\<rparr>,
                              s_messageID := r_messageID r\<rparr>
      in transformResult (hi_responseHeaders item) (hi_responseBody item) response)"

text \<open>\<open>handleResult\<close> for the item \<open>p\<close>; \<open>httpStatusCode\<close> is what libcurl answers.\<close>

definition handleResult :: "CURL \<Rightarrow> CURLcode \<Rightarrow> u32 \<Rightarrow> 'u HttpConnection \<Rightarrow> 'u HttpConnection res" where
  "handleResult p rc httpStatusCode s =
     bind_res (live_item p s) (\<lambda>item.
     case hi_request item of
       None \<Rightarrow> Inl (Undefined ''null _request'')
     | Some r \<Rightarrow>
         let request_id = r_messageID r
         in bind_res
              (case curl_error rc of
                 None \<Rightarrow> http_invoke 0 (Some (http_response httpStatusCode item r)) p s
               | Some (e, failure) \<Rightarrow>
                   http_invoke (errorToInt e) None p
                     (case failure of None \<Rightarrow> s | Some msg \<Rightarrow> http_onFailure (errorToInt e) msg s)) (\<lambda>s.
            Inr (s\<lparr>hc_messageStore := removeByID request_id (hc_messageStore s)\<rparr>)))"

text \<open>The destructor cancels everything in the store; the adapter goes with it.\<close>

definition HttpConnection_destroy :: "'u HttpConnection \<Rightarrow> 'u HttpConnection res" where
  "HttpConnection_destroy s =
     bind_res (cancelAll (\<lambda>e p s. http_invoke e None p s) CanceledDuringReset (hc_messageStore s) s) (\<lambda>(store, s).
     Inr (s\<lparr>hc_messageStore := store\<rparr>))"

section \<open>Events\<close>

text \<open>
  What can happen to a connection: a call of \<open>sendRequest\<close>, a task that was posted to the event loop,
  a timer and a watched socket. Each carries what libcurl does in it.
\<close>

datatype 'u http_event =
    Http_Send "curl_call list" CURLMcode Request 'u
  | Http_Timer_Task curl_reply
  | Http_Done_Task CURL CURLcode u32
  | Http_Timer bool curl_reply
  | Http_Socket curl_socket_t curl_poll bool curl_reply
  | Http_Ticket

fun http_handle :: "'u http_event \<Rightarrow> 'u HttpConnection \<Rightarrow> 'u HttpConnection res" where
  "http_handle (Http_Send calls rc r cb) s =
     (case http_sendRequest calls rc r cb s of
        (s', Inr i) \<Rightarrow> Inr s'
      | (s', Inl e) \<Rightarrow> if fatal e then Inl e else Inr s')"
| "http_handle (Http_Timer_Task reply) s =
     timer_cb http_data False reply (s\<lparr>cm_posted := remove1 Timer_Task (cm_posted s)\<rparr>)"
| "http_handle (Http_Done_Task p rc code) s =
     handleResult p rc code (s\<lparr>cm_posted := remove1 (Done_Task p rc) (cm_posted s)\<rparr>)"
| "http_handle (Http_Timer error reply) s =
     timer_cb http_data error reply (s\<lparr>cm_timer_waits := cm_timer_waits s - 1\<rparr>)"
| "http_handle (Http_Socket sock action error reply) s =
     event_cb http_data sock action error reply (s\<lparr>cm_watches := remove1 (sock, action) (cm_watches s)\<rparr>)"
| "http_handle Http_Ticket s = Inr (s\<lparr>hc_ticketId := hc_ticketId s + 1\<rparr>)"

text \<open>
  What libcurl documents: it calls the callbacks of a handle only while the handle is in the multi
  handle, reports each transfer at most once, and \<open>curl_multi_add_handle\<close> does not answer
  \<open>CURLM_BAD_SOCKET\<close>, which is about sockets. While it adds or removes a handle it transfers
  nothing.
\<close>

fun is_transfer :: "curl_call \<Rightarrow> bool" where
  "is_transfer (Header_Function p h) = True"
| "is_transfer (Write_Function p d) = True"
| "is_transfer _ = False"

fun call_handles :: "curl_call \<Rightarrow> CURL list" where
  "call_handles (Header_Function p h) = [p]"
| "call_handles (Write_Function p d) = [p]"
| "call_handles _ = []"

fun msg_handles :: "curl_msg \<Rightarrow> CURL list" where
  "msg_handles (CURLMSG_DONE p rc calls mrc) = [p]"
| "msg_handles CURLMSG_other = []"

fun msg_ok :: "curl_msg \<Rightarrow> bool" where
  "msg_ok (CURLMSG_DONE p rc calls mrc) \<longleftrightarrow> list_all (\<lambda>c. \<not> is_transfer c) calls"
| "msg_ok CURLMSG_other \<longleftrightarrow> True"

definition reply_ok :: "curl_reply \<Rightarrow> 'a CurlMultiAsio_scheme \<Rightarrow> bool" where
  "reply_ok reply c \<longleftrightarrow>
     list_all (\<lambda>call. list_all (\<lambda>p. p \<in> set (cm_handles c)) (call_handles call)) (cr_calls reply) \<and>
     mset (concat (map msg_handles (cr_msgs reply))) \<subseteq># mset (cm_handles c) \<and>
     list_all msg_ok (cr_msgs reply)"

fun http_enabled :: "'u http_event \<Rightarrow> 'u HttpConnection \<Rightarrow> bool" where
  "http_enabled (Http_Send calls rc r cb) s \<longleftrightarrow>
     rc \<noteq> CURLM_BAD_SOCKET \<and> list_all (\<lambda>c. \<not> is_transfer c) calls \<and> hc_ticketId s \<noteq> -1"
| "http_enabled (Http_Timer_Task reply) s \<longleftrightarrow> Timer_Task \<in> set (cm_posted s) \<and> reply_ok reply s"
| "http_enabled (Http_Done_Task p rc code) s \<longleftrightarrow> Done_Task p rc \<in> set (cm_posted s)"
| "http_enabled (Http_Timer error reply) s \<longleftrightarrow> 0 < cm_timer_waits s \<and> reply_ok reply s"
| "http_enabled (Http_Socket sock action error reply) s \<longleftrightarrow>
     (sock, action) \<in> set (cm_watches s) \<and> reply_ok reply s"
| "http_enabled Http_Ticket s \<longleftrightarrow> hc_ticketId s \<noteq> -1"

inductive http_reachable :: "ConnectionConfiguration \<Rightarrow> 'u HttpConnection \<Rightarrow> bool"
  for conf :: ConnectionConfiguration
where
  http_started: "HttpConnection_new conf ticket True = Inr s \<Longrightarrow> http_reachable conf s"
| http_step: "http_reachable conf s \<Longrightarrow> http_enabled ev s \<Longrightarrow> http_handle ev s = Inr s' \<Longrightarrow> http_reachable conf s'"

end
