(* ===== verification/HttpSafety.thy ===== *)
theory HttpSafety
  imports HttpConnection
begin

text \<open>
  What the HTTP connection keeps: the invariant \<open>http_inv\<close> that ties the multi handle, the posted
  results, the message store and the delivered callbacks together, its preservation by every event
  (the callbacks of libcurl through the locale \<open>easy_callbacks\<close>), and the properties.
\<close>

section \<open>Invariant\<close>

text \<open>
  Every item that was handed to libcurl is in the multi handle, in a posted result, or delivered, and
  the message store holds exactly the first two kinds, under their ids, with their requests and
  callbacks.
\<close>

definition http_item_inv :: "'u HttpConnection \<Rightarrow> MessageID \<Rightarrow> item_ptr \<Rightarrow> bool" where
  "http_item_inv s i p \<longleftrightarrow>
     p < length (hc_items s) \<and> i \<le> hc_ticketId s \<and>
     (\<exists>r. hi_request (hc_items s ! p) = Some r \<and> r_messageID r = i) \<and>
     \<not> co_invoked (hi_callback (hc_items s ! p)) \<and> co_cb (hi_callback (hc_items s ! p)) \<noteq> None"

definition http_inv :: "'u HttpConnection \<Rightarrow> bool" where
  "http_inv s \<longleftrightarrow>
     cm_inv s \<and> map_inv (hc_messageStore s) \<and>
     mset (cm_handles s) + mset (done_handles s) = mset (map snd (hc_messageStore s)) \<and>
     mset (map snd (hc_messageStore s)) + mset (map hd_item (hc_delivered s)) = mset [0..<length (hc_items s)] \<and>
     (\<forall>(i, p) \<in> set (hc_messageStore s). http_item_inv s i p)"

text \<open>What libcurl's callbacks may change in the state of the connection.\<close>

definition http_keeps :: "'u HttpConnection \<Rightarrow> 'u HttpConnection \<Rightarrow> bool" where
  "http_keeps s s' \<longleftrightarrow>
     cm_requests_left s' = cm_requests_left s \<and> cm_handles s' = cm_handles s \<and> done_handles s' = done_handles s \<and>
     hc_configuration s' = hc_configuration s \<and> hc_ticketId s' = hc_ticketId s \<and>
     hc_messageStore s' = hc_messageStore s \<and> hc_delivered s' = hc_delivered s \<and>
     hc_failures s' = hc_failures s \<and> length (hc_items s') = length (hc_items s) \<and>
     (\<forall>p < length (hc_items s). hi_request (hc_items s' ! p) = hi_request (hc_items s ! p) \<and>
        hi_callback (hc_items s' ! p) = hi_callback (hc_items s ! p))"

lemma keeps_refl: "http_keeps s s"
  by (simp add: http_keeps_def)

lemma http_keeps_trans: "http_keeps s t \<Longrightarrow> http_keeps t v \<Longrightarrow> http_keeps s v"
  by (simp add: http_keeps_def)

lemma http_keeps_inv: "http_inv s \<Longrightarrow> cm_inv s' \<Longrightarrow> http_keeps s s' \<Longrightarrow> http_inv s'"
  by (auto simp: http_inv_def http_keeps_def http_item_inv_def)

lemma more_eq:
  assumes "CurlMultiAsio.more s' = CurlMultiAsio.more (s :: 'u HttpConnection)"
  shows "hc_configuration s' = hc_configuration s" and "hc_ticketId s' = hc_ticketId s"
    and "hc_messageStore s' = hc_messageStore s" and "hc_items s' = hc_items s"
    and "hc_delivered s' = hc_delivered s" and "hc_failures s' = hc_failures s"
  using assms by (cases s; cases s'; simp only: CurlMultiAsio.select_convs HttpConnection.select_convs HttpConnection.ext_inject)+

lemma readHeaders_fields:
  "readHeaders h item = Inr item' \<Longrightarrow> hi_request item' = hi_request item \<and> hi_callback item' = hi_callback item"
  by (auto simp: readHeaders_def Let_def split: option.splits)

lemma update_nth: "q < length xs \<Longrightarrow> xs[p := x] ! q = (if q = p then x else xs ! q)"
  by (simp add: nth_list_update)

lemma set_http_item_cm [simp]:
  "cm_inv (set_http_item p item s) = cm_inv s" "cm_handles (set_http_item p item s) = cm_handles s"
  "cm_requests_left (set_http_item p item s) = cm_requests_left s"
  "done_handles (set_http_item p item s) = done_handles s"
  by (simp_all add: set_http_item_def cm_inv_def live_info_def done_handles_def)

lemma set_http_item_keeps:
  assumes "hi_request item = hi_request (hc_items s ! p)" and "hi_callback item = hi_callback (hc_items s ! p)"
  shows "http_keeps s (set_http_item p item s)"
  unfolding http_keeps_def set_http_item_cm using assms by (simp add: set_http_item_def update_nth)

interpretation http: easy_callbacks http_data http_keeps
proof (unfold_locales, goal_cases)
  case (1 c c')
  then show ?case using more_eq [of c' c] by (simp add: http_keeps_def cm_frame_def)
next
  case (2 c d e)
  then show ?case by (rule http_keeps_trans)
next
  case (3 c call c')
  then show ?case
    using set_http_item_keeps keeps_refl
    by (cases call) (auto simp: live_item_def readBody_def dest!: readHeaders_fields split: if_splits)
qed


section \<open>The invariant is preserved\<close>

text \<open>Handles may move from the multi handle to the posted results.\<close>

definition http_moves :: "'u HttpConnection \<Rightarrow> 'u HttpConnection \<Rightarrow> bool" where
  "http_moves s s' \<longleftrightarrow>
     mset (cm_handles s') + mset (done_handles s') = mset (cm_handles s) + mset (done_handles s) \<and>
     hc_configuration s' = hc_configuration s \<and> hc_ticketId s' = hc_ticketId s \<and>
     hc_messageStore s' = hc_messageStore s \<and> hc_delivered s' = hc_delivered s \<and>
     hc_failures s' = hc_failures s \<and> length (hc_items s') = length (hc_items s) \<and>
     (\<forall>p < length (hc_items s). hi_request (hc_items s' ! p) = hi_request (hc_items s ! p) \<and>
        hi_callback (hc_items s' ! p) = hi_callback (hc_items s ! p))"

lemma http_keeps_moves: "http_keeps s s' \<Longrightarrow> http_moves s s'"
  by (simp add: http_keeps_def http_moves_def)

lemma http_moves_trans: "http_moves s t \<Longrightarrow> http_moves t v \<Longrightarrow> http_moves s v"
  by (simp add: http_moves_def)

lemma http_moves_inv: "http_inv s \<Longrightarrow> cm_inv s' \<Longrightarrow> http_moves s s' \<Longrightarrow> http_inv s'"
  by (auto simp: http_inv_def http_moves_def http_item_inv_def)

lemma done_handles_post [simp]:
  "done_handles (c\<lparr>cm_posted := cm_posted c @ [Done_Task p r]\<rparr>) = done_handles c @ [p]"
  "done_handles (c\<lparr>cm_handles := hs\<rparr>) = done_handles c"
  "done_handles (c\<lparr>cm_requests_left := n\<rparr>) = done_handles c"
  "done_handles (c\<lparr>cm_actions := a\<rparr>) = done_handles c"
  "done_handles (c\<lparr>cm_watches := w\<rparr>) = done_handles c"
  "done_handles (c\<lparr>cm_timer_waits := t\<rparr>) = done_handles c"
  by (simp_all add: done_handles_def)

lemma cm_inv_updates [simp]:
  "cm_inv (c\<lparr>cm_posted := ts\<rparr>) = cm_inv c" "cm_inv (c\<lparr>cm_handles := hs\<rparr>) = cm_inv c"
  "cm_inv (c\<lparr>cm_requests_left := n\<rparr>) = cm_inv c" "cm_inv (c\<lparr>cm_actions := a\<rparr>) = cm_inv c"
  "cm_inv (c\<lparr>cm_watches := w\<rparr>) = cm_inv c" "cm_inv (c\<lparr>cm_timer_waits := t\<rparr>) = cm_inv c"
  by (simp_all add: cm_inv_def live_info_def)

lemma done_handles_mset:
  "mset (done_handles c) = sum_list (map (\<lambda>t. case t of Done_Task p r \<Rightarrow> {#p#} | Timer_Task \<Rightarrow> {#}) (cm_posted c))"
proof -
  have "(\<lambda>t. mset (case t of Done_Task p r \<Rightarrow> [p] | Timer_Task \<Rightarrow> [])) =
      (\<lambda>t. case t of Done_Task p r \<Rightarrow> {#p#} | Timer_Task \<Rightarrow> {#})"
    by (simp add: fun_eq_iff split: task.split)
  then show ?thesis by (simp add: done_handles_def mset_concat comp_def)
qed

lemma done_handles_remove:
  "t \<in> set (cm_posted c) \<Longrightarrow> mset (done_handles c) =
     (case t of Done_Task p r \<Rightarrow> {#p#} | Timer_Task \<Rightarrow> {#}) +
     mset (done_handles (c\<lparr>cm_posted := remove1 t (cm_posted c)\<rparr>))"
  by (simp add: done_handles_mset sum_list_map_remove1)

lemma check_msgs_moves:
  "cm_inv c \<Longrightarrow> mset (concat (map msg_handles msgs)) \<subseteq># mset (cm_handles c) \<Longrightarrow>
     check_msgs http_data msgs c = Inr c' \<Longrightarrow> cm_inv c' \<and> http_moves c c'"
proof (induction msgs arbitrary: c)
  case Nil
  then show ?case by (simp add: http_moves_def)
next
  case (Cons m msgs)
  show ?case
  proof (cases m)
    case CURLMSG_other
    with Cons show ?thesis by simp
  next
    case (CURLMSG_DONE p r calls rc)
    let ?c = "c\<lparr>cm_handles := remove1 p (cm_handles c)\<rparr>"
    obtain d where d: "curl_callbacks http_data calls ?c = Inr d"
      and next_: "check_msgs http_data msgs (d\<lparr>cm_posted := cm_posted d @ [Done_Task p r]\<rparr>) = Inr c'"
      using Cons.prems(3) CURLMSG_DONE by auto
    let ?d = "d\<lparr>cm_posted := cm_posted d @ [Done_Task p r]\<rparr>"
    have k: "cm_inv d" "http_keeps ?c d"
      using http.callbacks_keep [OF _ d] Cons.prems(1) by simp_all
    have sub: "add_mset p (mset (concat (map msg_handles msgs))) \<subseteq># mset (cm_handles c)"
      using Cons.prems(2) CURLMSG_DONE by simp
    then have p: "p \<in> set (cm_handles c)" by (metis insert_subset_eq_iff set_mset_mset)
    have "mset (concat (map msg_handles msgs)) \<subseteq># mset (cm_handles ?d)"
      using sub k(2) by (simp add: http_keeps_def insert_subset_eq_iff)
    then have "cm_inv c' \<and> http_moves ?d c'"
      using Cons.IH [of ?d] k(1) next_ by simp
    moreover have "http_moves c ?d"
      using k(2) p by (auto simp: http_keeps_def http_moves_def)
    ultimately show ?thesis by (auto intro: http_moves_trans)
  qed
qed

lemma socket_action_keeps:
  assumes "cm_inv c" and "socket_action http_data s a reply c = Inr c'"
  shows "cm_inv c' \<and> http_keeps c c'"
proof -
  let ?c = "c\<lparr>cm_actions := cm_actions c @ [(s, a)]\<rparr>"
  have "curl_callbacks http_data (cr_calls reply) ?c = Inr c'"
    using assms(2) by (auto simp: socket_action_def)
  then have "cm_inv c'" "http_keeps ?c c'"
    using http.callbacks_keep [of ?c] assms(1) by simp_all
  then show ?thesis by (simp add: http_keeps_def)
qed

lemma reply_moves:
  assumes "cm_inv c" and ok: "reply_ok reply c"
    and r: "bind_res (socket_action http_data s a reply c)
      (check_multi_info http_data (cr_still_running reply) (cr_msgs reply)) = Inr c'"
  shows "cm_inv c' \<and> http_moves c c'"
proof -
  obtain d where d: "socket_action http_data s a reply c = Inr d"
    and m: "check_msgs http_data (cr_msgs reply) (d\<lparr>cm_requests_left := cr_still_running reply\<rparr>) = Inr c'"
    using r by (auto simp: check_multi_info_def)
  let ?d = "d\<lparr>cm_requests_left := cr_still_running reply\<rparr>"
  have k: "cm_inv d" "http_keeps c d" using socket_action_keeps [OF assms(1) d] by simp_all
  then have "cm_inv c' \<and> http_moves ?d c'"
    using ok check_msgs_moves [OF _ _ m] by (simp add: reply_ok_def http_keeps_def)
  moreover have "http_moves c ?d" using k(2) by (simp add: http_keeps_def http_moves_def)
  ultimately show ?thesis by (auto intro: http_moves_trans)
qed

lemma timer_event_moves:
  assumes "cm_inv s" and "reply_ok reply s"
  shows "timer_cb http_data e reply s = Inr s' \<Longrightarrow> http_moves s s'"
    and "event_cb http_data sock a e reply s = Inr s' \<Longrightarrow> http_moves s s'"
  using reply_moves [OF assms] http_keeps_moves [OF keeps_refl]
  by (auto simp: timer_cb_def event_cb_def split: if_splits)

lemma timer_event_inv:
  assumes "http_inv s" and "reply_ok reply s"
  shows "timer_cb http_data e reply s = Inr s' \<Longrightarrow> http_inv s'"
    and "event_cb http_data sock a e reply s = Inr s' \<Longrightarrow> http_inv s'"
proof -
  have "cm_inv s" using assms(1) by (simp add: http_inv_def)
  note r = reply_moves [OF this assms(2)] and i = http_moves_inv [OF assms(1)]
  show "timer_cb http_data e reply s = Inr s' \<Longrightarrow> http_inv s'"
    using assms(1) r i by (auto simp: timer_cb_def split: if_splits)
  show "event_cb http_data sock a e reply s = Inr s' \<Longrightarrow> http_inv s'"
    using r i by (auto simp: event_cb_def)
qed


section \<open>Results and new requests\<close>

lemma live_item_Inr:
  "live_item p s = Inr x \<longleftrightarrow> p \<in> snd ` set (hc_messageStore s) \<and> p < length (hc_items s) \<and> x = hc_items s ! p"
  by (auto simp: live_item_def)

lemma http_stored:
  assumes "http_inv s" and "p \<in> set (cm_handles s) \<or> p \<in> set (done_handles s)"
  obtains i r where "(i, p) \<in> set (hc_messageStore s)" and "hi_request (hc_items s ! p) = Some r"
    and "r_messageID r = i" and "live_item p s = Inr (hc_items s ! p)"
    and "\<not> co_invoked (hi_callback (hc_items s ! p))" and "co_cb (hi_callback (hc_items s ! p)) \<noteq> None"
proof -
  have "mset (cm_handles s) + mset (done_handles s) = mset (map snd (hc_messageStore s))"
    using assms(1) by (simp add: http_inv_def)
  from arg_cong [OF this, of set_mset] have "p \<in> snd ` set (hc_messageStore s)"
    using assms(2) by auto
  then obtain i where i: "(i, p) \<in> set (hc_messageStore s)" by auto
  then have "http_item_inv s i p" using assms(1) by (auto simp: http_inv_def)
  moreover have "p \<in> snd ` set (hc_messageStore s)" using i by (rule image_eqI [rotated]) simp
  ultimately show ?thesis
    using that i by (auto simp: http_item_inv_def live_item_def)
qed

text \<open>Delivering an item that was in the store.\<close>

lemma http_invoke_ok:
  assumes "p < length (hc_items s)" and "\<not> co_invoked (hi_callback (hc_items s ! p))"
    and "co_cb (hi_callback (hc_items s ! p)) = Some cb"
  obtains c where "http_invoke e resp p s =
    Inr (s\<lparr>hc_items := (hc_items s)[p := (hc_items s ! p)\<lparr>hi_callback := c, hi_request := None\<rparr>],
           hc_delivered := hc_delivered s @ [\<lparr>hd_item = p, hd_callback = cb, hd_error = e,
             hd_request = hi_request (hc_items s ! p), hd_response = resp\<rparr>]\<rparr>)"
  using assms by (auto simp: http_invoke_def invoke_def check_def set_http_item_def Let_def)

lemma done_handles_hc [simp]:
  "done_handles (s\<lparr>hc_items := x\<rparr>) = done_handles s" "done_handles (s\<lparr>hc_delivered := d\<rparr>) = done_handles s"
  "done_handles (s\<lparr>hc_messageStore := m\<rparr>) = done_handles s" "done_handles (s\<lparr>hc_failures := f\<rparr>) = done_handles s"
  "done_handles (s\<lparr>hc_ticketId := t\<rparr>) = done_handles s"
  "cm_inv (s\<lparr>hc_items := x\<rparr>) = cm_inv s" "cm_inv (s\<lparr>hc_delivered := d\<rparr>) = cm_inv s"
  "cm_inv (s\<lparr>hc_messageStore := m\<rparr>) = cm_inv s" "cm_inv (s\<lparr>hc_failures := f\<rparr>) = cm_inv s"
  "cm_inv (s\<lparr>hc_ticketId := t\<rparr>) = cm_inv s"
  by (simp_all add: done_handles_def cm_inv_def live_info_def)

text \<open>What \<open>handleResult\<close> tells the callback.\<close>

definition http_outcome :: "CURLcode \<Rightarrow> u32 \<Rightarrow> 'u HttpItem \<Rightarrow> Request \<Rightarrow> Error \<times> Response option" where
  "http_outcome rc code item r =
     (case curl_error rc of
        None \<Rightarrow> (0, Some (http_response code item r))
      | Some (e, failure) \<Rightarrow> (errorToInt e, None))"

text \<open>Whatever libcurl reports, the callback of a live item is called once, with the outcome.\<close>

lemma handleResult_eq:
  assumes p: "live_item p s = Inr (hc_items s ! p)" and cb: "\<not> co_invoked (hi_callback (hc_items s ! p))"
    "co_cb (hi_callback (hc_items s ! p)) = Some u" and r: "hi_request (hc_items s ! p) = Some r"
  obtains fl c where "handleResult p rc code s =
      Inr (s\<lparr>hc_failures := fl, hc_items := (hc_items s)[p := (hc_items s ! p)\<lparr>hi_callback := c, hi_request := None\<rparr>],
           hc_delivered := hc_delivered s @ [\<lparr>hd_item = p, hd_callback = u, hd_error = fst (http_outcome rc code (hc_items s ! p) r),
             hd_request = Some r, hd_response = snd (http_outcome rc code (hc_items s ! p) r)\<rparr>],
           hc_messageStore := removeByID (r_messageID r) (hc_messageStore s)\<rparr>)"
proof -
  have id: "s\<lparr>hc_failures := hc_failures s\<rparr> = s"
    by (cases s) (simp only: CurlMultiAsio.update_convs HttpConnection.update_convs HttpConnection.select_convs)
  obtain fl where fl: "(case curl_error rc of None \<Rightarrow> http_invoke 0 (Some (http_response code (hc_items s ! p) r)) p s
      | Some (e, failure) \<Rightarrow> http_invoke (errorToInt e) None p
          (case failure of None \<Rightarrow> s | Some msg \<Rightarrow> http_onFailure (errorToInt e) msg s)) =
      http_invoke (fst (http_outcome rc code (hc_items s ! p) r)) (snd (http_outcome rc code (hc_items s ! p) r)) p
        (s\<lparr>hc_failures := fl\<rparr>)"
  proof (cases "curl_error rc")
    case None
    with that [of "hc_failures s"] show thesis by (simp add: http_outcome_def id)
  next
    case (Some a)
    then obtain e failure where a: "curl_error rc = Some (e, failure)" by (cases a) simp
    with that [of "hc_failures s"]
      that [of "if c_onFailure (hc_configuration s) then hc_failures s @ [(errorToInt e, the failure)] else hc_failures s"]
    show thesis by (cases failure) (simp_all add: http_outcome_def http_onFailure_def id)
  qed
  have len: "p < length (hc_items s)" using p by (auto simp: live_item_def split: if_splits)
  obtain c where c: "http_invoke (fst (http_outcome rc code (hc_items s ! p) r)) (snd (http_outcome rc code (hc_items s ! p) r)) p
      (s\<lparr>hc_failures := fl\<rparr>) =
      Inr (s\<lparr>hc_failures := fl, hc_items := (hc_items s)[p := (hc_items s ! p)\<lparr>hi_callback := c, hi_request := None\<rparr>],
           hc_delivered := hc_delivered s @ [\<lparr>hd_item = p, hd_callback = u, hd_error = fst (http_outcome rc code (hc_items s ! p) r),
             hd_request = hi_request (hc_items s ! p), hd_response = snd (http_outcome rc code (hc_items s ! p) r)\<rparr>]\<rparr>)"
    by (rule http_invoke_ok [of p "s\<lparr>hc_failures := fl\<rparr>" u]) (use len cb in simp_all)
  show thesis
    by (rule that [where fl = fl and c = c]) (simp add: handleResult_def p r fl c Let_def)
qed

text \<open>Taking the item of a finished transfer out of the store, and marking it delivered.\<close>

lemma http_finish_item:
  assumes inv: "http_inv s" and f: "findByID i (hc_messageStore s) = Some p"
    and d: "mset (done_handles s) = add_mset p (mset (done_handles t))" and "cm_inv t" and "cm_handles t = cm_handles s"
    and t: "hc_items t = (hc_items s)[p := x]" "hc_messageStore t = removeByID i (hc_messageStore s)"
      "map hd_item (hc_delivered t) = map hd_item (hc_delivered s) @ [p]" "hc_ticketId t = hc_ticketId s"
  shows "http_inv t"
proof -
  have m: "map_inv (hc_messageStore s)" using inv by (simp add: http_inv_def)
  let ?m = "removeByID i (hc_messageStore s)"
  have held: "mset (map snd (hc_messageStore s)) = add_mset p (mset (map snd ?m))"
    by (rule store.remove_held [OF m f])
  have "mset (map snd (hc_messageStore s)) + mset (map hd_item (hc_delivered s)) = mset [0..<length (hc_items s)]"
    using inv by (simp add: http_inv_def)
  with held have "mset (p # map snd ?m @ map hd_item (hc_delivered s)) = mset [0..<length (hc_items s)]" by simp
  then have "distinct (p # map snd ?m @ map hd_item (hc_delivered s))"
    using mset_eq_imp_distinct_iff by fastforce
  then have np: "p \<notin> snd ` set ?m" by auto
  have sub: "set ?m \<subseteq> set (hc_messageStore s)"
    using erase_mset [of "hc_messageStore s" i p] f
    by (simp add: removeByID_def findByID_def) (metis insertCI set_mset_add_mset_insert set_mset_mset subsetI)
  have "http_item_inv t j q" if "(j, q) \<in> set ?m" for j q
  proof -
    have "q \<noteq> p" using that np by force
    moreover have "http_item_inv s j q" using that sub inv by (auto simp: http_inv_def)
    ultimately show ?thesis using t by (simp add: http_item_inv_def)
  qed
  moreover have "map_inv ?m" using m by (simp add: removeByID_def)
  ultimately show ?thesis
    using inv d held assms(4,5) t by (auto simp: http_inv_def)
qed

lemma handleResult_spec:
  assumes inv: "http_inv s" and t: "Done_Task p rc \<in> set (cm_posted s)"
  obtains s' r where "http_handle (Http_Done_Task p rc code) s = Inr s'" and "http_inv s'"
    and "hi_request (hc_items s ! p) = Some r"
    and "hc_messageStore s' = removeByID (r_messageID r) (hc_messageStore s)"
    and "findByID (r_messageID r) (hc_messageStore s) = Some p"
    and "hc_delivered s' = hc_delivered s @ [\<lparr>hd_item = p,
      hd_callback = the (co_cb (hi_callback (hc_items s ! p))),
      hd_error = fst (http_outcome rc code (hc_items s ! p) r), hd_request = Some r,
      hd_response = snd (http_outcome rc code (hc_items s ! p) r)\<rparr>]"
    and "length (hc_items s') = length (hc_items s)"
    and "\<forall>q. q \<noteq> p \<longrightarrow> hc_items s' ! q = hc_items s ! q"
proof -
  let ?s = "s\<lparr>cm_posted := remove1 (Done_Task p rc) (cm_posted s)\<rparr>"
  have d: "mset (done_handles s) = add_mset p (mset (done_handles ?s))"
    using done_handles_remove [OF t] by simp
  then have "p \<in> set (done_handles s)" by (metis set_mset_mset union_single_eq_member)
  then obtain i r where i: "(i, p) \<in> set (hc_messageStore s)" and r: "hi_request (hc_items s ! p) = Some r"
    "r_messageID r = i" and live: "live_item p s = Inr (hc_items s ! p)"
    and cb: "\<not> co_invoked (hi_callback (hc_items s ! p))" "co_cb (hi_callback (hc_items s ! p)) \<noteq> None"
    using http_stored [OF inv] by metis
  have f: "findByID i (hc_messageStore s) = Some p"
    using i inv by (simp add: findByID_def map_find_set http_inv_def)
  obtain u where u: "co_cb (hi_callback (hc_items s ! p)) = Some u" using cb by auto
  let ?item = "\<lambda>c. (hc_items ?s ! p)\<lparr>hi_callback := c, hi_request := None\<rparr>"
  let ?d = "\<lparr>hd_item = p, hd_callback = u, hd_error = fst (http_outcome rc code (hc_items ?s ! p) r),
             hd_request = Some r, hd_response = snd (http_outcome rc code (hc_items ?s ! p) r)\<rparr>"
  let ?t = "\<lambda>fl c. ?s\<lparr>hc_failures := fl, hc_items := (hc_items ?s)[p := ?item c],
      hc_delivered := hc_delivered ?s @ [?d], hc_messageStore := removeByID (r_messageID r) (hc_messageStore ?s)\<rparr>"
  obtain fl c where "handleResult p rc code ?s = Inr (?t fl c)"
    by (rule handleResult_eq [where p = p and s = ?s and u = u and rc = rc and code = code and r = r])
      (use live cb(1) u r in \<open>simp_all add: live_item_Inr\<close>)
  then have h: "http_handle (Http_Done_Task p rc code) s = Inr (?t fl c)" by simp
  have "http_inv (?t fl c)"
    by (rule http_finish_item [OF inv f, of _ "?item c"]) (use d inv r(2) in \<open>simp_all add: http_inv_def\<close>)
  with h r f u show ?thesis by (intro that [of "?t fl c" r]) simp_all
qed

lemma fresh_ticket:
  assumes inv: "http_inv s" and ids: "hc_ticketId s \<noteq> -1"
  shows "j \<le> hc_ticketId s \<Longrightarrow> j < hc_ticketId s + 1"
    and "findByID (hc_ticketId s + 1) (hc_messageStore s) = None"
proof -
  have lt: "j < hc_ticketId s + 1" if "j \<le> hc_ticketId s" for j
    using that ids unatSuc [of "hc_ticketId s"] by (simp add: word_less_nat_alt word_le_nat_alt add.commute add_eq_0_iff)
  then show "j \<le> hc_ticketId s \<Longrightarrow> j < hc_ticketId s + 1" .
  show "findByID (hc_ticketId s + 1) (hc_messageStore s) = None"
  proof (rule ccontr)
    assume "findByID (hc_ticketId s + 1) (hc_messageStore s) \<noteq> None"
    then obtain q where "(hc_ticketId s + 1, q) \<in> set (hc_messageStore s)"
      using inv by (auto simp: findByID_def map_find_set http_inv_def)
    then have "hc_ticketId s + 1 \<le> hc_ticketId s" using inv by (auto simp: http_inv_def http_item_inv_def)
    then show False using lt by blast
  qed
qed

text \<open>Filing a new item under a new ticket, and giving its handle to libcurl.\<close>

lemma http_file_item:
  assumes inv: "http_inv s" and ids: "hc_ticketId s \<noteq> -1" and key: "key (length (hc_items s)) = hc_ticketId s + 1"
    and item: "hi_request item = Some r" "r_messageID r = hc_ticketId s + 1" "\<not> co_invoked (hi_callback item)"
      "co_cb (hi_callback item) \<noteq> None"
    and t: "t = s\<lparr>hc_ticketId := hc_ticketId s + 1, hc_items := hc_items s @ [item],
      hc_messageStore := store_add key (length (hc_items s)) (hc_messageStore s),
      cm_handles := cm_handles s @ [length (hc_items s)]\<rparr>"
  shows "http_inv t" and "findByID (hc_ticketId s + 1) (hc_messageStore t) = Some (length (hc_items s))"
proof -
  let ?i = "hc_ticketId s + 1" and ?p = "length (hc_items s)"
  let ?m = "store_add key ?p (hc_messageStore s)"
  have m: "map_inv (hc_messageStore s)" using inv by (simp add: http_inv_def)
  note none = fresh_ticket(2) [OF inv ids]
  have held: "mset ?m = add_mset (?i, ?p) (mset (hc_messageStore s))"
    using none by (simp add: store_add_def findByID_def emplace_mset key)
  then have set_m: "set ?m = insert (?i, ?p) (set (hc_messageStore s))"
    by (metis set_mset_add_mset_insert set_mset_mset)
  have "http_item_inv t j q" if "(j, q) \<in> set ?m" for j q
  proof (cases "(j, q) = (?i, ?p)")
    case True
    then show ?thesis using item by (auto simp: t http_item_inv_def)
  next
    case False
    then have "http_item_inv s j q" using that set_m inv by (auto simp: http_inv_def)
    then show ?thesis using fresh_ticket(1) [OF inv ids, of j] by (auto simp: t http_item_inv_def nth_append intro: less_imp_le)
  qed
  moreover have "map_inv ?m" using m by (simp add: store_add_def)
  ultimately show "http_inv t"
    using inv arg_cong [OF held, of "image_mset snd"] by (auto simp: t http_inv_def)
  show "findByID ?i (hc_messageStore t) = Some ?p"
    using store.put_find [OF m, of key ?p] none by (auto simp: t key dest: fun_cong [of _ _ ?i])
qed

lemma http_create_inv:
  assumes inv: "http_inv s" and ids: "hc_ticketId s \<noteq> -1" and rc: "rc \<noteq> CURLM_BAD_SOCKET"
    and r: "http_createRequestItem calls rc dest (req\<lparr>r_messageID := hc_ticketId s + 1\<rparr>) cb
      (s\<lparr>hc_ticketId := hc_ticketId s + 1\<rparr>) = Inr s'"
  shows "http_inv s' \<and> length (hc_items s') = Suc (length (hc_items s)) \<and>
    findByID (hc_ticketId s + 1) (hc_messageStore s') = Some (length (hc_items s)) \<and>
    length (hc_items s) \<in> set (cm_handles s') \<and> hc_delivered s' = hc_delivered s \<and>
    (\<forall>p < length (hc_items s). hi_request (hc_items s' ! p) = hi_request (hc_items s ! p) \<and>
       hi_callback (hc_items s' ! p) = hi_callback (hc_items s ! p)) \<and>
    hi_request (hc_items s' ! length (hc_items s)) = Some (req\<lparr>r_messageID := hc_ticketId s + 1\<rparr>) \<and>
    co_cb (hi_callback (hc_items s' ! length (hc_items s))) = Some cb"
proof -
  let ?i = "hc_ticketId s + 1" and ?p = "length (hc_items s)"
  let ?r = "req\<lparr>r_messageID := ?i\<rparr>"
  let ?new = "\<lambda>item. s\<lparr>hc_ticketId := ?i, hc_items := hc_items s @ [item]\<rparr>"
  obtain item where req: "hi_request item = Some ?r" and co: "hi_callback item = CallOnce_assign cb CallOnce_new"
    and add: "addRequest http_data calls rc ?p ((?new item)\<lparr>hc_messageStore :=
        store_add (http_messageID (?new item)) ?p (hc_messageStore s)\<rparr>) = Inr s'"
  proof -
    obtain opts where "addRequest http_data calls rc ?p ((?new ((HttpItem_new ?p dest ?r cb)\<lparr>
          hi_requestHeaders := header_lines (r_header ?r), hi_options := hi_options (HttpItem_new ?p dest ?r cb) @ opts\<rparr>))
        \<lparr>hc_messageStore := store_add (http_messageID (?new ((HttpItem_new ?p dest ?r cb)\<lparr>
          hi_requestHeaders := header_lines (r_header ?r), hi_options := hi_options (HttpItem_new ?p dest ?r cb) @ opts\<rparr>)))
        ?p (hc_messageStore s)\<rparr>) = Inr s'"
      using r by (auto simp: http_createRequestItem_def Let_def)
    then show thesis by (rule that [rotated 2]) (simp_all add: HttpItem_new_def)
  qed
  let ?key = "http_messageID (?new item)"
  let ?t = "s\<lparr>hc_ticketId := ?i, hc_items := hc_items s @ [item],
      hc_messageStore := store_add ?key ?p (hc_messageStore s), cm_handles := cm_handles s @ [?p]\<rparr>"
  have "rc = CURLM_OK"
    using add rc by (auto simp: addRequest_def assertCurlOK_def split: if_splits CURLMcode.splits)
  then have cbs: "curl_callbacks http_data calls ?t = Inr s'"
    using add by (auto simp: addRequest_def)
  have key: "?key ?p = ?i" using req by (simp add: http_messageID_def)
  have t: "http_inv ?t" "findByID ?i (hc_messageStore ?t) = Some ?p"
    by (rule http_file_item [of s ?key item ?r ?t]; use inv ids key req co in \<open>simp add: CallOnce_assign_def CallOnce_new_def\<close>)+
  have "cm_inv ?t" using inv by (simp add: http_inv_def)
  then have k: "cm_inv s'" "http_keeps ?t s'"
    using http.callbacks_keep [OF _ cbs] by simp_all
  moreover have "co_cb (hi_callback item) = Some cb"
    using co by (simp add: CallOnce_assign_def CallOnce_new_def)
  ultimately show ?thesis
    using k(2) req t http_keeps_inv [OF t(1) k(1,2)] by (auto simp: http_keeps_def nth_append)
qed


section \<open>Reachable states\<close>

lemma http_inv_ticket:
  assumes "http_inv s" and "hc_ticketId s \<noteq> - 1"
  shows "http_inv (s\<lparr>hc_ticketId := hc_ticketId s + 1\<rparr>)"
proof -
  let ?s = "s\<lparr>hc_ticketId := hc_ticketId s + 1\<rparr>"
  have le: "hc_ticketId s \<le> hc_ticketId s + 1"
    using assms(2) unatSuc [of "hc_ticketId s"] by (simp add: word_le_nat_alt add.commute add_eq_0_iff)
  have "http_item_inv s i p \<Longrightarrow> http_item_inv ?s i p" for i p
    using le by (auto simp: http_item_inv_def)
  then show ?thesis using assms(1) by (auto simp: http_inv_def)
qed

lemma http_handle_inv:
  assumes inv: "http_inv s" and en: "http_enabled ev s" and h: "http_handle ev s = Inr s'"
  shows "http_inv s'"
proof (cases ev)
  case (Http_Send calls rc r cb)
  let ?s = "s\<lparr>hc_ticketId := hc_ticketId s + 1\<rparr>"
  have up: "http_inv ?s" using http_inv_ticket [OF inv] en Http_Send by simp
  show ?thesis
  proof (cases "destination_of (hc_configuration s) (r_header r)")
    case (Inl e)
    with h Http_Send inv show ?thesis by (auto simp: http_sendRequest_def split: if_splits)
  next
    case (Inr dest)
    show ?thesis
    proof (cases "http_createRequestItem calls rc dest (r\<lparr>r_messageID := hc_ticketId s + 1\<rparr>) cb ?s")
      case (Inl e)
      with \<open>destination_of _ _ = Inr dest\<close> h Http_Send up show ?thesis
        by (auto simp: http_sendRequest_def queueRequest_def Let_def split: if_splits)
    next
      case (Inr t)
      with \<open>destination_of _ _ = Inr dest\<close> h Http_Send have "s' = t"
        by (auto simp: http_sendRequest_def queueRequest_def Let_def)
      with http_create_inv [OF inv _ _ Inr] en Http_Send show ?thesis by simp
    qed
  qed
next
  case (Http_Timer_Task reply)
  let ?s = "s\<lparr>cm_posted := remove1 Timer_Task (cm_posted s)\<rparr>"
  have "mset (done_handles ?s) = mset (done_handles s)"
    using en Http_Timer_Task done_handles_remove [of Timer_Task s] by simp
  then have "http_inv ?s" using inv by (simp add: http_inv_def http_item_inv_def)
  moreover have "reply_ok reply ?s" using en Http_Timer_Task by (simp add: reply_ok_def)
  ultimately show ?thesis using h Http_Timer_Task timer_event_inv(1) by simp
next
  case (Http_Done_Task p rc code)
  with en have "Done_Task p rc \<in> set (cm_posted s)" by simp
  then obtain t where "http_handle (Http_Done_Task p rc code) s = Inr t" "http_inv t"
    by (rule handleResult_spec [OF inv])
  with h Http_Done_Task show ?thesis by simp
next
  case (Http_Timer e reply)
  let ?s = "s\<lparr>cm_timer_waits := cm_timer_waits s - 1\<rparr>"
  have "http_inv ?s" using inv by (simp add: http_inv_def http_item_inv_def)
  moreover have "reply_ok reply ?s" using en Http_Timer by (simp add: reply_ok_def)
  ultimately show ?thesis using h Http_Timer timer_event_inv(1) by simp
next
  case (Http_Socket sock a e reply)
  let ?s = "s\<lparr>cm_watches := remove1 (sock, a) (cm_watches s)\<rparr>"
  have "http_inv ?s" using inv by (simp add: http_inv_def http_item_inv_def)
  moreover have "reply_ok reply ?s" using en Http_Socket by (simp add: reply_ok_def)
  ultimately show ?thesis using h Http_Socket timer_event_inv(2) by simp
next
  case Http_Ticket
  with h en http_inv_ticket [OF inv] show ?thesis by auto
qed

lemma http_reachable_inv: "http_reachable conf s \<Longrightarrow> http_inv s"
proof (induction rule: http_reachable.induct)
  case (http_started ticket s)
  then show ?case
    by (auto simp: HttpConnection_new_def CurlMultiAsio_new_def check_def CurlMultiAsio.extend_def http_inv_def cm_inv_def
        done_handles_def live_info_def)
qed (rule http_handle_inv)

section \<open>Failures\<close>

definition curl_failure :: "exn \<Rightarrow> bool" where
  "curl_failure e \<longleftrightarrow> (\<exists>i. e = Exit i) \<or> e = Out_of_range ''basic_string::substr''"

lemma assertCurlOK_Inl: "assertCurlOK rc = Inl e \<Longrightarrow> \<exists>i. e = Exit i"
  by (auto simp: assertCurlOK_def split: if_splits CURLMcode.splits)

lemma non_transfer_callbacks:
  assumes "cm_inv c" and "list_all (\<lambda>call. \<not> is_transfer call) calls"
  shows "\<exists>c'. curl_callbacks http_data calls c = Inr c'"
proof (cases "curl_callbacks http_data calls c")
  case (Inl e)
  from http.callbacks_fail [OF assms(1) this] assms(2) show ?thesis
    by (auto simp: list_all_iff)
qed simp

lemma check_msgs_fail:
  "cm_inv c \<Longrightarrow> list_all msg_ok msgs \<Longrightarrow> check_msgs http_data msgs c = Inl e \<Longrightarrow> \<exists>i. e = Exit i"
proof (induction msgs arbitrary: c)
  case (Cons m msgs)
  show ?case
  proof (cases m)
    case CURLMSG_other
    with Cons show ?thesis by simp
  next
    case (CURLMSG_DONE p r calls rc)
    let ?c = "c\<lparr>cm_handles := remove1 p (cm_handles c)\<rparr>"
    obtain d where d: "curl_callbacks http_data calls ?c = Inr d"
      using non_transfer_callbacks [of ?c calls] Cons.prems CURLMSG_DONE by auto
    have "cm_inv d" using http.callbacks_keep [OF _ d] Cons.prems(1) by simp
    then have "check_msgs http_data msgs (d\<lparr>cm_posted := cm_posted d @ [Done_Task p r]\<rparr>) = Inl e \<Longrightarrow> \<exists>i. e = Exit i"
      using Cons.IH [of "d\<lparr>cm_posted := cm_posted d @ [Done_Task p r]\<rparr>"] Cons.prems by simp
    with Cons.prems(3) CURLMSG_DONE d show ?thesis
      by (cases "assertCurlOK rc") (auto dest: assertCurlOK_Inl)
  qed
qed simp

lemma transfer_fails:
  assumes inv: "http_inv s" and p: "p \<in> set (cm_handles s)"
  shows "http_data (Header_Function p x) s = Inl e \<Longrightarrow> curl_failure e"
    and "http_data (Write_Function p x) s \<noteq> Inl e"
proof -
  have live: "live_item p s = Inr (hc_items s ! p)"
    by (rule http_stored [OF inv disjI1 [OF p]])
  then show "http_data (Write_Function p x) s \<noteq> Inl e" by simp
  assume "http_data (Header_Function p x) s = Inl e"
  then have "readHeaders x (hc_items s ! p) = Inl e"
    using live by (cases "readHeaders x (hc_items s ! p)") auto
  then show "curl_failure e"
    by (auto simp: readHeaders_def Let_def substr_def curl_failure_def split: option.splits if_splits)
qed

lemma reply_fails:
  assumes inv: "http_inv s" and ok: "reply_ok reply s"
    and r: "bind_res (socket_action http_data sock a reply s)
      (check_multi_info http_data (cr_still_running reply) (cr_msgs reply)) = Inl e"
  shows "curl_failure e"
proof -
  let ?s = "s\<lparr>cm_actions := cm_actions s @ [(sock, a)]\<rparr>"
  have inv': "http_inv ?s" using inv by (simp add: http_inv_def http_item_inv_def)
  then have cm: "cm_inv ?s" by (simp add: http_inv_def)
  show ?thesis
  proof (cases "curl_callbacks http_data (cr_calls reply) ?s")
    case (Inl e')
    obtain d call where call: "call \<in> set (cr_calls reply)" and d: "cm_inv d" "http_keeps ?s d" "http_data call d = Inl e'"
      using http.callbacks_fail [OF cm Inl] by blast
    have dinv: "http_inv d" by (rule http_keeps_inv [OF inv' d(1,2)])
    have "p \<in> set (cm_handles d)" if "p \<in> set (call_handles call)" for p
      using ok call that d(2) by (auto simp: reply_ok_def list_all_iff http_keeps_def)
    then have "curl_failure e'"
      using d(3) transfer_fails [OF dinv] by (cases call) auto
    then show ?thesis using r Inl by (simp add: socket_action_def)
  next
    case (Inr d)
    then have "cm_inv d" using http.callbacks_keep [OF cm Inr] by simp
    then have "\<exists>i. e = Exit i"
      using r Inr ok check_msgs_fail [of "d\<lparr>cm_requests_left := cr_still_running reply\<rparr>" "cr_msgs reply" e]
      by (cases "assertCurlOK (cr_rc reply)")
        (auto simp: socket_action_def check_multi_info_def reply_ok_def dest: assertCurlOK_Inl)
    then show ?thesis by (simp add: curl_failure_def)
  qed
qed


section \<open>Properties\<close>

text \<open>A first request on a fresh connection: what the examples use.\<close>

definition http_conf :: ConnectionConfiguration where
  "http_conf = ConnectionConfiguration_default\<lparr>c_ssl := False, c_port := ''8529''\<rparr>"

definition http_sample_request :: Request where
  "http_sample_request = Request_new (MessageHeader_new\<lparr>h_restVerb := Some Get, h_path := Some ''/x''\<rparr>) []"

definition http_idle :: "nat HttpConnection" where
  "http_idle = projr (HttpConnection_new http_conf 0 True)"

definition http_busy :: "nat HttpConnection" where
  "http_busy = fst (http_sendRequest [Timer_Function 0] CURLM_OK http_sample_request 7 http_idle)"

lemma http_idle_reachable: "http_reachable http_conf http_idle"
  by (rule http_started [of http_conf 0]) (simp add: http_idle_def HttpConnection_new_def CurlMultiAsio_new_def check_def)

lemma http_busy_send:
  "http_sendRequest [Timer_Function 0] CURLM_OK http_sample_request 7 http_idle = (http_busy, Inr 1)"
  "cm_posted http_busy = [Timer_Task]" "cm_handles http_busy = [0]" "cm_timer_waits http_busy = 0"
  "hc_messageStore http_busy = [(1, 0)]" "hc_delivered http_busy = []" "length (hc_items http_busy) = 1"
  "cm_requests_left http_busy = 0"
  by (simp_all add: http_busy_def http_idle_def http_conf_def http_sample_request_def http_sendRequest_def
      HttpConnection_new_def CurlMultiAsio_new_def check_def CurlMultiAsio.extend_def destination_of_def
      Request_new_def Message_header_def MessageHeader_new_def ConnectionConfiguration_default_def opt_get_def
      queueRequest_def http_createRequestItem_def item_options_def auth_options_def body_options_def
      Request_payload_def Let_def HttpItem_new_def addRequest_def assertCurlOK_def multi_timer_cb_def
      store_add_def http_messageID_def)

lemma http_busy_reachable: "http_reachable http_conf http_busy"
proof (rule http_step [OF http_idle_reachable])
  show "http_enabled (Http_Send [Timer_Function 0] CURLM_OK http_sample_request 7) http_idle"
    by (simp add: http_idle_def HttpConnection_new_def CurlMultiAsio_new_def check_def CurlMultiAsio.extend_def)
  show "http_handle (Http_Send [Timer_Function 0] CURLM_OK http_sample_request 7) http_idle = Inr http_busy"
    by (simp add: http_busy_send)
qed

definition http_reply :: curl_reply where
  "http_reply = \<lparr>cr_calls = [Open_Socket CURLSOCKTYPE_IPCXN AF_INET (Some 5), Socket_Function 5 CURL_POLL_INOUT,
       Header_Function 0 (''Server: x'' @ [CHR 0x0D, CHR 0x0A]), Write_Function 0 ''ok'',
       Socket_Function 5 CURL_POLL_REMOVE, Close_Socket 5],
     cr_rc = CURLM_OK, cr_still_running = 0, cr_msgs = [CURLMSG_DONE 0 CURLE_OK [] CURLM_OK]\<rparr>"

text \<open>
  C23: no HTTP request is lost and no callback is called twice. In every reachable state, every item
  that was handed to libcurl is in exactly one of three places: in the multi handle, in a result that
  is posted to the event loop, or delivered; the message store holds exactly the items of the first
  two kinds, each under the id of the request it still has.
\<close>

theorem http_requests_accounted:
  assumes "http_reachable conf s"
  shows "mset (cm_handles s) + mset (done_handles s) = mset (map snd (hc_messageStore s)) \<and>
    mset (map snd (hc_messageStore s)) + mset (map hd_item (hc_delivered s)) = mset [0..<length (hc_items s)] \<and>
    distinct (map hd_item (hc_delivered s)) \<and>
    list_all (\<lambda>(i, p). p < length (hc_items s) \<and> map_option r_messageID (hi_request (hc_items s ! p)) = Some i \<and>
       \<not> co_invoked (hi_callback (hc_items s ! p))) (hc_messageStore s)"
proof -
  have inv: "http_inv s" by (rule http_reachable_inv [OF assms])
  then have eq: "mset (map snd (hc_messageStore s)) + mset (map hd_item (hc_delivered s)) = mset [0..<length (hc_items s)]"
    by (simp add: http_inv_def)
  then have "mset (map snd (hc_messageStore s) @ map hd_item (hc_delivered s)) = mset [0..<length (hc_items s)]"
    by simp
  then have "distinct (map hd_item (hc_delivered s))"
    using mset_eq_imp_distinct_iff by fastforce
  with inv show ?thesis
    by (auto simp: http_inv_def http_item_inv_def list_all_iff)
qed

theorem http_requests_accounted_witness:
  "mset (cm_handles http_busy) + mset (done_handles http_busy) = mset (map snd (hc_messageStore http_busy)) \<and>
   cm_handles http_busy = [0]"
  using http_requests_accounted [OF http_busy_reachable] http_busy_send by simp

text \<open>
  C24: HTTP results. In every reachable state, the handler of a posted result finds its item alive and
  delivers it: the callback of the request is called once, with the request, and either error 0 and
  the response that libcurl collected or the error that belongs to the result code; the item leaves
  the message store.
\<close>

theorem http_result_delivered:
  assumes "http_reachable conf s" and "Done_Task p rc \<in> set (cm_posted s)"
  shows "\<exists>s' r. http_handle (Http_Done_Task p rc code) s = Inr s' \<and> hi_request (hc_items s ! p) = Some r \<and>
    hc_messageStore s' = removeByID (r_messageID r) (hc_messageStore s) \<and>
    hc_delivered s' = hc_delivered s @ [\<lparr>hd_item = p,
      hd_callback = the (co_cb (hi_callback (hc_items s ! p))),
      hd_error = (case curl_error rc of None \<Rightarrow> 0 | Some (e, _) \<Rightarrow> errorToInt e), hd_request = Some r,
      hd_response = (if rc = CURLE_OK then Some (http_response code (hc_items s ! p) r) else None)\<rparr>]"
proof -
  obtain s' r where s': "http_handle (Http_Done_Task p rc code) s = Inr s'" "hi_request (hc_items s ! p) = Some r"
    "hc_messageStore s' = removeByID (r_messageID r) (hc_messageStore s)"
    "hc_delivered s' = hc_delivered s @ [\<lparr>hd_item = p,
      hd_callback = the (co_cb (hi_callback (hc_items s ! p))),
      hd_error = fst (http_outcome rc code (hc_items s ! p) r), hd_request = Some r,
      hd_response = snd (http_outcome rc code (hc_items s ! p) r)\<rparr>]"
    by (rule handleResult_spec [OF http_reachable_inv [OF assms(1)] assms(2), of code])
  have "http_outcome rc code it r = ((case curl_error rc of None \<Rightarrow> 0 | Some (e, _) \<Rightarrow> errorToInt e),
      (if rc = CURLE_OK then Some (http_response code it r) else None))" for it :: "'a HttpItem"
    by (cases rc) (simp_all add: http_outcome_def)
  with s' show ?thesis by simp
qed

lemma http_sample_done:
  "http_enabled (Http_Timer_Task http_reply) http_busy \<and>
   (\<exists>s. http_handle (Http_Timer_Task http_reply) http_busy = Inr s \<and> cm_posted s = [Done_Task 0 CURLE_OK] \<and>
     hc_delivered s = [] \<and> hi_responseBody (hc_items s ! 0) = ''ok'')"
  by (simp add: http_busy_def http_idle_def http_conf_def http_sample_request_def http_sendRequest_def
      HttpConnection_new_def CurlMultiAsio_new_def check_def CurlMultiAsio.extend_def destination_of_def
      Request_new_def Message_header_def MessageHeader_new_def ConnectionConfiguration_default_def opt_get_def
      queueRequest_def http_createRequestItem_def item_options_def auth_options_def body_options_def
      Request_payload_def Let_def HttpItem_new_def addRequest_def assertCurlOK_def multi_timer_cb_def
      store_add_def http_messageID_def http_reply_def reply_ok_def timer_cb_def socket_action_def open_socket_def
      socket_cb_def add_socket_def set_socket_def use_info_def map_find_def live_item_def readHeaders_def
      str_find_char set_http_item_def readBody_def remove_socket_def close_socket_def check_multi_info_def
      substr_def size_sub_def)

theorem http_result_delivered_witness:
  "\<exists>s s'. http_reachable http_conf (s :: nat HttpConnection) \<and> hi_responseBody (hc_items s ! 0) = ''ok'' \<and>
     http_handle (Http_Done_Task 0 CURLE_OK 200) s = Inr s' \<and> map hd_error (hc_delivered s') = [0]"
proof -
  obtain s where s: "http_handle (Http_Timer_Task http_reply) http_busy = Inr s" "cm_posted s = [Done_Task 0 CURLE_OK]"
    "hc_delivered s = []" "hi_responseBody (hc_items s ! 0) = ''ok''"
    using http_sample_done by blast
  have "http_reachable http_conf s"
    using http_step [OF http_busy_reachable _ s(1)] http_sample_done by blast
  with http_result_delivered [OF this, of 0 CURLE_OK 200] s show ?thesis by fastforce
qed

text \<open>A request that \<open>sendRequest\<close> can process: it has a path and a verb, and its payload is in memory.\<close>

definition http_request_ok :: "Request \<Rightarrow> bool" where
  "http_request_ok r \<longleftrightarrow> h_path (r_header r) \<noteq> None \<and> h_restVerb (r_header r) \<noteq> None \<and>
     r_payloadLength r \<le> length (r_payload r)"

fun http_event_ok :: "'u http_event \<Rightarrow> bool" where
  "http_event_ok (Http_Send calls rc r cb) \<longleftrightarrow> http_request_ok r"
| "http_event_ok _ \<longleftrightarrow> True"

lemma urlEncode_Inl: "urlEncode x = Inl e \<Longrightarrow> \<exists>m. e = Overflow_error m"
  by (auto simp: urlEncode_def split: if_splits)

lemma add_parameters_Inl: "add_parameters sep ps = Inl e \<Longrightarrow> \<exists>m. e = Overflow_error m"
  by (induction sep ps rule: add_parameters.induct) (auto simp: bind_res_eq_Inl dest: urlEncode_Inl)

lemma destination_of_Inl:
  "destination_of conf h = Inl e \<Longrightarrow> h_path h \<noteq> None \<Longrightarrow> \<exists>m. e = Overflow_error m"
  by (auto simp: destination_of_def Let_def opt_get_def bind_res_eq_Inl split: option.splits dest: add_parameters_Inl)

lemma item_options_Inl:
  assumes "item_options conf p item r = Inl e" and "http_request_ok r"
  shows "\<not> fatal e"
proof -
  obtain verb where v: "h_restVerb (r_header r) = Some verb" using assms(2) by (auto simp: http_request_ok_def)
  have "\<exists>b. body_options r = Inr b"
    using assms(2) by (auto simp: body_options_def http_request_ok_def Request_payload_def buffer_bytes_def Let_def)
  moreover have "verb_options verb = Inl e' \<Longrightarrow> \<not> fatal e'" for e' by (cases verb) auto
  moreover have "auth_options conf = Inl e' \<Longrightarrow> \<not> fatal e'" for e'
    by (auto simp: auth_options_def split: AuthenticationType.splits)
  ultimately show ?thesis
    using assms(1) v by (auto simp: item_options_def Let_def opt_get_def bind_res_eq_Inl)
qed

text \<open>The state in which \<open>createRequestItem\<close> calls \<open>addRequest\<close>.\<close>

definition with_item :: "string \<Rightarrow> Request \<Rightarrow> 'u \<Rightarrow> curl_option list \<Rightarrow> 'u HttpConnection \<Rightarrow> 'u HttpConnection" where
  "with_item destination request callback opts s =
     (let p = length (hc_items s); item = HttpItem_new p destination request callback;
          item = item\<lparr>hi_requestHeaders := header_lines (r_header request), hi_options := hi_options item @ opts\<rparr>;
          s = s\<lparr>hc_items := hc_items s @ [item]\<rparr>
      in s\<lparr>hc_messageStore := store_add (http_messageID s) p (hc_messageStore s)\<rparr>)"

lemma create_with_item:
  "http_createRequestItem calls rc destination request callback s =
     bind_res (item_options (hc_configuration s) (length (hc_items s))
         (HttpItem_new (length (hc_items s)) destination request callback) request) (\<lambda>opts.
       addRequest http_data calls rc (length (hc_items s)) (with_item destination request callback opts s))"
  by (simp add: http_createRequestItem_def with_item_def Let_def)

lemma with_item_simps [simp]:
  "cm_inv (with_item destination request callback opts s) = cm_inv s"
  "cm_requests_left (with_item destination request callback opts s) = cm_requests_left s"
  "length (hc_items (with_item destination request callback opts s)) = Suc (length (hc_items s))"
  by (simp_all add: with_item_def Let_def)

lemma http_send_fails:
  assumes inv: "http_inv s" and ok: "http_request_ok r" and calls: "list_all (\<lambda>c. \<not> is_transfer c) calls"
    and r: "http_sendRequest calls rc r cb s = (s', Inl e)" and "fatal e"
  shows "\<exists>i. e = Exit i"
proof -
  let ?i = "hc_ticketId s + 1" and ?s = "s\<lparr>hc_ticketId := hc_ticketId s + 1\<rparr>"
  let ?r = "r\<lparr>r_messageID := ?i\<rparr>"
  have ok': "http_request_ok ?r" using ok by (simp add: http_request_ok_def)
  show ?thesis
  proof (cases "destination_of (hc_configuration s) (r_header r)")
    case (Inl e')
    with r have "e' = e" by (simp add: http_sendRequest_def)
    with destination_of_Inl [OF Inl] ok \<open>fatal e\<close> show ?thesis by (auto simp: http_request_ok_def)
  next
    case (Inr dest)
    with r have c: "http_createRequestItem calls rc dest ?r cb ?s = Inl e"
      by (auto simp: http_sendRequest_def queueRequest_def Let_def split: sum.splits)
    show ?thesis
    proof (cases "item_options (hc_configuration s) (length (hc_items s)) (HttpItem_new (length (hc_items s)) dest ?r cb) ?r")
      case (Inl e')
      with c have "e' = e" by (simp add: http_createRequestItem_def Let_def)
      with item_options_Inl [OF Inl ok'] \<open>fatal e\<close> show ?thesis by simp
    next
      case (Inr opts)
      let ?t = "with_item dest ?r cb opts ?s"
      have add: "addRequest http_data calls rc (length (hc_items s)) ?t = Inl e"
        using c Inr by (simp add: create_with_item)
      have "cm_inv ?t" using inv by (simp add: http_inv_def)
      then have "cm_inv (if rc = CURLM_OK then ?t\<lparr>cm_handles := cm_handles ?t @ [length (hc_items s)]\<rparr> else ?t)" by simp
      from non_transfer_callbacks [OF this calls] add show ?thesis
        by (cases "assertCurlOK rc") (auto simp: addRequest_def dest: assertCurlOK_Inl)
    qed
  qed
qed



lemma callbacks_requests_left:
  "cm_inv s \<Longrightarrow> curl_callbacks http_data calls s = Inr s' \<Longrightarrow> cm_requests_left s' = cm_requests_left s"
  using http.callbacks_keep by (auto simp: http_keeps_def)

text \<open>
  A request is not counted when it is sent. \<open>requestsLeft\<close> is the number of running transfers at
  the last call of \<open>check_multi_info\<close>, so a successful \<open>sendRequest\<close> leaves it as it was: a caller
  that loops while requests are left can stop before the first request has been started.
\<close>

theorem http_requestsLeft_unchanged:
  assumes "http_reachable conf s" and "http_sendRequest calls rc r cb s = (s', Inr i)"
  shows "http_requestsLeft s' = http_requestsLeft s \<and> length (hc_items s') = Suc (length (hc_items s))"
proof -
  have inv: "cm_inv s" using http_reachable_inv [OF assms(1)] by (simp add: http_inv_def)
  let ?s = "s\<lparr>hc_ticketId := hc_ticketId s + 1\<rparr>"
  obtain dest where c: "http_createRequestItem calls rc dest (r\<lparr>r_messageID := hc_ticketId s + 1\<rparr>) cb ?s = Inr s'"
    using assms(2) by (auto simp: http_sendRequest_def queueRequest_def Let_def split: sum.splits)
  then obtain opts where add: "addRequest http_data calls rc (length (hc_items s))
      (with_item dest (r\<lparr>r_messageID := hc_ticketId s + 1\<rparr>) cb opts ?s) = Inr s'"
    by (auto simp: create_with_item)
  let ?u = "with_item dest (r\<lparr>r_messageID := hc_ticketId s + 1\<rparr>) cb opts ?s"
  let ?t = "if rc = CURLM_OK then ?u\<lparr>cm_handles := cm_handles ?u @ [length (hc_items s)]\<rparr> else ?u"
  have "curl_callbacks http_data calls ?t = Inr s'" and "cm_inv ?t"
    using add inv by (auto simp: addRequest_def)
  then have "http_keeps ?t s'" using http.callbacks_keep by blast
  then show ?thesis
    by (auto simp: http_requestsLeft_def curl_requestsLeft_def http_keeps_def split: if_splits)
qed

theorem http_requestsLeft_unchanged_witness:
  "http_requestsLeft http_busy = 0 \<and> hc_messageStore http_busy = [(1, 0)]"
  using http_requestsLeft_unchanged [OF http_idle_reachable http_busy_send(1)] http_busy_send
  by (simp add: http_requestsLeft_def curl_requestsLeft_def)


section \<open>A leak\<close>

definition leaked :: "nat \<Rightarrow> 'a CurlMultiAsio_scheme \<Rightarrow> bool" where
  "leaked t c \<longleftrightarrow> t < length (cm_tcp c) \<and> cm_tcp c ! t \<and> t \<notin> snd ` set (cm_socket_map c)"

lemma leaked_cong: "cm_tcp c' = cm_tcp c \<Longrightarrow> cm_socket_map c' = cm_socket_map c \<Longrightarrow> leaked t c' = leaked t c"
  by (simp add: leaked_def)

lemma socket_cb_tables:
  "socket_cb s what c = Inr c' \<Longrightarrow> cm_tcp c' = cm_tcp c \<and> cm_socket_map c' = cm_socket_map c"
  by (auto simp: socket_cb_def remove_socket_def add_socket_def set_socket_def Let_def split: option.splits if_splits)

lemma http_data_tables:
  "http_data call s = Inr s' \<Longrightarrow> cm_tcp s' = cm_tcp s \<and> cm_socket_map s' = cm_socket_map s"
  by (cases call) (auto simp: set_http_item_def)

lemma leaked_open:
  assumes "leaked t c"
  shows "leaked t (fst (open_socket purpose fam opened c))"
proof -
  have "t \<notin> snd ` set (map_emplace k (length (cm_tcp c)) (cm_socket_map c))" for k
    using assms set_emplace [of k "length (cm_tcp c)" "cm_socket_map c"] by (force simp: leaked_def)
  with assms show ?thesis
    by (simp add: open_socket_def leaked_def Let_def nth_append split: option.split)
qed

lemma leaked_close:
  assumes "leaked t c" and "close_socket s c = Inr c'"
  shows "leaked t c'"
proof (cases "map_find (cm_socket_map c) s")
  case None
  with assms show ?thesis by (simp add: close_socket_def)
next
  case (Some u)
  then have "(s, u) \<in> set (cm_socket_map c)" by (simp add: map_find_def map_of_SomeD)
  then have u: "u \<noteq> t" using assms(1) by (force simp: leaked_def)
  have "t \<notin> snd ` set (map_erase s (cm_socket_map c))"
    using assms(1) set_erase [of s "cm_socket_map c"] by (force simp: leaked_def)
  with u show ?thesis
    using assms Some by (auto simp: close_socket_def leaked_def)
qed

lemma leaked_callbacks: "leaked t s \<Longrightarrow> curl_callbacks http_data calls s = Inr s' \<Longrightarrow> leaked t s'"
proof (induction calls arbitrary: s)
  case (Cons call calls)
  then obtain d where d: "curl_callback http_data call s = Inr d" "curl_callbacks http_data calls d = Inr s'" by auto
  have "leaked t d"
  proof (cases call)
    case (Timer_Function x)
    with d Cons.prems(1) show ?thesis
      by (auto simp: leaked_cong [of s "multi_timer_cb x s"] multi_timer_cb_def)
  next
    case (Socket_Function x y)
    with d(1) have "socket_cb x y s = Inr d" by simp
    with Cons.prems(1) socket_cb_tables show ?thesis by (metis leaked_cong)
  next
    case (Open_Socket x y z)
    with d Cons.prems(1) leaked_open show ?thesis by auto
  next
    case (Close_Socket x)
    with d Cons.prems(1) leaked_close show ?thesis by auto
  next
    case (Header_Function x y)
    with d(1) have "http_data call s = Inr d" by simp
    with Cons.prems(1) http_data_tables show ?thesis by (metis leaked_cong)
  next
    case (Write_Function x y)
    with d(1) have "http_data call s = Inr d" by simp
    with Cons.prems(1) http_data_tables show ?thesis by (metis leaked_cong)
  qed
  with Cons d show ?case by blast
qed simp

text \<open>
  C31: a leak of sockets. When \<open>open_socket\<close> is given an address family other than IPv4 and IPv6, or
  \<open>open\<close> fails, the socket object that it has just created stays allocated and is not in the
  socket table, and no sequence of callbacks ever changes that.
\<close>

theorem open_socket_leak:
  assumes "cm_inv s" and "fam = AF_other \<or> opened = None"
    and "curl_callbacks http_data calls (fst (open_socket CURLSOCKTYPE_IPCXN fam opened s)) = Inr s'"
  shows "snd (open_socket CURLSOCKTYPE_IPCXN fam opened s) = CURL_SOCKET_BAD \<and>
    cm_tcp s' ! length (cm_tcp s) \<and> length (cm_tcp s) \<notin> snd ` set (cm_socket_map s')"
proof -
  have "leaked (length (cm_tcp s)) (fst (open_socket CURLSOCKTYPE_IPCXN fam opened s))"
    using assms(1,2) by (auto simp: open_socket_def leaked_def cm_inv_def Let_def split: option.split)
  from leaked_callbacks [OF this assms(3)] assms(2) show ?thesis
    by (auto simp: leaked_def open_socket_def Let_def split: option.split)
qed

theorem open_socket_leak_witness:
  "\<exists>s' :: nat HttpConnection. curl_callbacks http_data [Timer_Function 0, Close_Socket (-1)]
      (fst (open_socket CURLSOCKTYPE_IPCXN AF_INET None http_idle)) = Inr s' \<and> cm_tcp s' ! 0"
proof -
  have i: "cm_inv http_idle" using http_reachable_inv [OF http_idle_reachable] by (simp add: http_inv_def)
  have t: "cm_tcp http_idle = []" "cm_socket_map http_idle = []"
    by (simp_all add: http_idle_def HttpConnection_new_def CurlMultiAsio_new_def check_def CurlMultiAsio.extend_def)
  then obtain s' where s': "curl_callbacks http_data [Timer_Function 0, Close_Socket (-1)]
      (fst (open_socket CURLSOCKTYPE_IPCXN AF_INET None http_idle)) = Inr s'"
    by (simp add: open_socket_def Let_def multi_timer_cb_def close_socket_def map_find_def)
  have "cm_tcp s' ! 0"
    using open_socket_leak [OF i disjI2 [OF refl] s'] unfolding t by simp
  with s' show ?thesis by blast
qed

end
