(* ===== verification/HttpService.thy ===== *)
theory HttpService
  imports HttpSafety Service
begin

text \<open>
  The HTTP connection refines the abstract service of \<open>Service\<close>: every event of the connection is a
  sequence of steps of the service.
\<close>

section \<open>The simulation\<close>

definition answer_of :: "'u HttpDelivery \<Rightarrow> 'u Answer" where
  "answer_of d = \<lparr>an_item = hd_item d, an_callback = hd_callback d, an_request = the (hd_request d),
     an_error = hd_error d, an_response = hd_response d\<rparr>"

text \<open>
  The relation between the connection and the service: the same number of submissions, the same
  answers, and each item in the message store still holds the callback and request it came with.
\<close>

definition http_implements :: "'u HttpConnection \<Rightarrow> 'u service \<Rightarrow> bool" where
  "http_implements s a \<longleftrightarrow>
     length (sv_sent a) = length (hc_items s) \<and> sv_answers a = map answer_of (hc_delivered s) \<and>
     (\<forall>d \<in> set (hc_delivered s). hd_request d \<noteq> None) \<and>
     (\<forall>p \<in> snd ` set (hc_messageStore s). co_cb (hi_callback (hc_items s ! p)) = Some (fst (sv_sent a ! p)) \<and>
        hi_request (hc_items s ! p) = Some (snd (sv_sent a ! p)))"

lemma implements_item:
  "http_implements s a \<Longrightarrow> p \<in> snd ` set (hc_messageStore s) \<Longrightarrow>
     co_cb (hi_callback (hc_items s ! p)) = Some (fst (sv_sent a ! p)) \<and> hi_request (hc_items s ! p) = Some (snd (sv_sent a ! p))"
  unfolding http_implements_def by blast

lemma implements_moves:
  assumes "http_inv s" and "http_implements s a" and "http_moves s s'"
  shows "http_implements s' a"
proof -
  have "p < length (hc_items s)" if "p \<in> snd ` set (hc_messageStore s)" for p
    using assms(1) that by (auto simp: http_inv_def http_item_inv_def)
  with assms(2,3) show ?thesis by (simp add: http_implements_def http_moves_def)
qed

lemma store_lt: "http_inv s \<Longrightarrow> p \<in> snd ` set (hc_messageStore s) \<Longrightarrow> p < length (hc_items s)"
  by (auto simp: http_inv_def http_item_inv_def)

lemma store_not_delivered:
  assumes "http_inv s" and "p \<in> snd ` set (hc_messageStore s)"
  shows "p \<notin> hd_item ` set (hc_delivered s)"
proof -
  have eq: "mset (map snd (hc_messageStore s) @ map hd_item (hc_delivered s)) = mset [0..<length (hc_items s)]"
    using assms(1) by (simp add: http_inv_def)
  show ?thesis using mset_eq_imp_distinct_iff [OF eq] assms(2) by auto
qed

lemma implements_send:
  assumes inv: "http_inv s" and sim: "http_implements s a" and ids: "hc_ticketId s \<noteq> -1" and rc: "rc \<noteq> CURLM_BAD_SOCKET"
    and r: "http_createRequestItem calls rc dest (req\<lparr>r_messageID := hc_ticketId s + 1\<rparr>) cb
      (s\<lparr>hc_ticketId := hc_ticketId s + 1\<rparr>) = Inr s'"
  shows "http_implements s' (a\<lparr>sv_sent := sv_sent a @ [(cb, req\<lparr>r_messageID := hc_ticketId s + 1\<rparr>)]\<rparr>)"
proof -
  have c: "http_inv s'" "length (hc_items s') = Suc (length (hc_items s))" "hc_delivered s' = hc_delivered s"
    "\<forall>p < length (hc_items s). hi_request (hc_items s' ! p) = hi_request (hc_items s ! p) \<and>
       hi_callback (hc_items s' ! p) = hi_callback (hc_items s ! p)"
    "hi_request (hc_items s' ! length (hc_items s)) = Some (req\<lparr>r_messageID := hc_ticketId s + 1\<rparr>)"
    "co_cb (hi_callback (hc_items s' ! length (hc_items s))) = Some cb"
    using http_create_inv [OF inv ids rc r] by simp_all
  have old: "p \<in> snd ` set (hc_messageStore s)" if "p \<in> snd ` set (hc_messageStore s')" "p \<noteq> length (hc_items s)" for p
  proof -
    have "p < length (hc_items s)" using store_lt [OF c(1) that(1)] c(2) that(2) by simp
    moreover have "p \<notin> hd_item ` set (hc_delivered s)" using store_not_delivered [OF c(1) that(1)] c(3) by simp
    moreover have eq: "mset (map snd (hc_messageStore s) @ map hd_item (hc_delivered s)) = mset [0..<length (hc_items s)]"
      using inv by (simp add: http_inv_def)
    ultimately show ?thesis using mset_eq_setD [OF eq] by auto
  qed
  have "co_cb (hi_callback (hc_items s' ! p)) = Some (fst ((sv_sent a @ [(cb, req\<lparr>r_messageID := hc_ticketId s + 1\<rparr>)]) ! p)) \<and>
      hi_request (hc_items s' ! p) = Some (snd ((sv_sent a @ [(cb, req\<lparr>r_messageID := hc_ticketId s + 1\<rparr>)]) ! p))"
    if "p \<in> snd ` set (hc_messageStore s')" for p
  proof (cases "p = length (hc_items s)")
    case True
    with c sim show ?thesis by (simp add: http_implements_def nth_append)
  next
    case False
    from old [OF that this] store_lt [OF inv old [OF that this]] c(4) sim show ?thesis
      by (auto simp: http_implements_def nth_append)
  qed
  with c(2,3) sim show ?thesis by (simp add: http_implements_def)
qed

lemma http_outcome_response:
  "fst (http_outcome rc code item r) = 0 \<longleftrightarrow> snd (http_outcome rc code item r) \<noteq> None"
  by (cases rc) (simp_all add: http_outcome_def)

lemma implements_result:
  assumes inv: "http_inv s" and sim: "http_implements s a" and t: "Done_Task p rc \<in> set (cm_posted s)"
    and h: "http_handle (Http_Done_Task p rc code) s = Inr s'"
  shows "\<exists>a'. service_step a a' \<and> http_implements s' a'"
proof -
  obtain s'' r where s'': "http_handle (Http_Done_Task p rc code) s = Inr s''" "hi_request (hc_items s ! p) = Some r"
    "hc_messageStore s'' = removeByID (r_messageID r) (hc_messageStore s)"
    "findByID (r_messageID r) (hc_messageStore s) = Some p"
    "hc_delivered s'' = hc_delivered s @ [\<lparr>hd_item = p,
      hd_callback = the (co_cb (hi_callback (hc_items s ! p))),
      hd_error = fst (http_outcome rc code (hc_items s ! p) r), hd_request = Some r,
      hd_response = snd (http_outcome rc code (hc_items s ! p) r)\<rparr>]"
    "length (hc_items s'') = length (hc_items s)" "\<forall>q. q \<noteq> p \<longrightarrow> hc_items s'' ! q = hc_items s ! q"
    and inv'': "http_inv s''"
    by (rule handleResult_spec [OF inv t, of code])
  have eq: "s'' = s'" using s''(1) h by simp
  have m: "map_inv (hc_messageStore s)" using inv by (simp add: http_inv_def)
  have p: "p \<in> snd ` set (hc_messageStore s)"
    using s''(4) by (force simp: findByID_def map_find_set [OF m])
  obtain cb req where sent: "sv_sent a ! p = (cb, req)" by fastforce
  then have cb: "co_cb (hi_callback (hc_items s ! p)) = Some cb" "req = r"
    using sim p s''(2) by (auto simp: http_implements_def)
  let ?a = "a\<lparr>sv_answers := sv_answers a @ [\<lparr>an_item = p, an_callback = cb, an_request = r,
     an_error = fst (http_outcome rc code (hc_items s ! p) r),
     an_response = snd (http_outcome rc code (hc_items s ! p) r)\<rparr>]\<rparr>"
  have "an_item ` set (sv_answers a) = hd_item ` set (hc_delivered s)"
    using sim by (simp add: http_implements_def image_image answer_of_def)
  then have "service_step a ?a"
    using store_not_delivered [OF inv p] store_lt [OF inv p] sim sent cb(2)
    by (intro service_step.answer) (simp_all add: http_implements_def answer_ok_def http_outcome_response)
  moreover have "http_implements s' ?a"
  proof -
    have "q \<noteq> p \<and> q \<in> snd ` set (hc_messageStore s)" if q: "q \<in> snd ` set (hc_messageStore s')" for q
    proof -
      have "q \<notin> hd_item ` set (hc_delivered s')" using store_not_delivered [OF inv''] q eq by simp
      then have "q \<noteq> p" using s''(5) eq by auto
      moreover have "set (hc_messageStore s') \<subseteq> set (hc_messageStore s)"
        using s''(3) set_erase eq by (auto simp: removeByID_def)
      ultimately show ?thesis using q by blast
    qed
    then have "co_cb (hi_callback (hc_items s' ! q)) = Some (fst (sv_sent a ! q)) \<and>
        hi_request (hc_items s' ! q) = Some (snd (sv_sent a ! q))" if "q \<in> snd ` set (hc_messageStore s')" for q
      using implements_item [OF sim, of q] that s''(7) eq by simp
    with sim s''(5,6) cb show ?thesis
      unfolding eq by (simp add: http_implements_def answer_of_def)
  qed
  ultimately show ?thesis by blast
qed

lemma implements_fields:
  "hc_items s' = hc_items s \<Longrightarrow> hc_delivered s' = hc_delivered s \<Longrightarrow> hc_messageStore s' = hc_messageStore s \<Longrightarrow>
     http_implements s a \<Longrightarrow> http_implements s' a"
  by (simp add: http_implements_def)

lemma timer_implements:
  assumes inv: "http_inv s" and sim: "http_implements s a" and ok: "reply_ok reply t"
    and t: "cm_inv t" "CurlMultiAsio.more t = CurlMultiAsio.more s"
    and h: "timer_cb http_data e reply t = Inr s' \<or> event_cb http_data sock ac e reply t = Inr s'"
  shows "http_implements s' a"
proof -
  have "http_moves t s'" using timer_event_moves [OF t(1) ok] h by blast
  moreover have "http_implements t a"
    using implements_fields [OF more_eq(4,5,3) [OF t(2)] sim] .
  moreover have "p < length (hc_items t)" if "p \<in> snd ` set (hc_messageStore t)" for p
    using store_lt [OF inv] that more_eq(3,4) [OF t(2)] by simp
  ultimately show ?thesis by (simp add: http_implements_def http_moves_def)
qed

lemma http_send_implements:
  assumes inv: "http_inv s" and sim: "http_implements s a" and en: "http_enabled (Http_Send calls rc r cb) s"
    and h: "http_handle (Http_Send calls rc r cb) s = Inr s'"
  shows "\<exists>a'. service_step\<^sup>*\<^sup>* a a' \<and> http_implements s' a'"
proof -
  let ?s = "s\<lparr>hc_ticketId := hc_ticketId s + 1\<rparr>" and ?r = "r\<lparr>r_messageID := hc_ticketId s + 1\<rparr>"
  consider "s' = s \<or> s' = ?s" | dest where "http_createRequestItem calls rc dest ?r cb ?s = Inr s'"
    using h by (auto simp: http_sendRequest_def queueRequest_def Let_def split: sum.splits if_splits)
  then show ?thesis
  proof cases
    case 1
    then have "http_implements s' a" using implements_fields [of s' s a] sim by auto
    then show ?thesis by blast
  next
    case 2
    have "http_implements s' (a\<lparr>sv_sent := sv_sent a @ [(cb, ?r)]\<rparr>)"
      by (rule implements_send [OF inv sim _ _ 2]) (use en in simp_all)
    then show ?thesis
      using r_into_rtranclp [of service_step, OF service_step.submit [of a cb ?r]] by blast
  qed
qed

lemma handle_implements:
  assumes inv: "http_inv s" and sim: "http_implements s a" and en: "http_enabled ev s" and h: "http_handle ev s = Inr s'"
  shows "\<exists>a'. service_step\<^sup>*\<^sup>* a a' \<and> http_implements s' a'"
proof -
  have cm: "cm_inv s" using inv by (simp add: http_inv_def)
  have same: ?thesis if "http_implements s' a" using that by blast
  show ?thesis
  proof (cases ev)
    case (Http_Send calls rc r cb)
    with http_send_implements [OF inv sim] en h show ?thesis by blast
  next
    case (Http_Done_Task p rc code)
    then show ?thesis
      using implements_result [OF inv sim, of p rc code s'] en h by auto
  next
    case (Http_Timer_Task reply)
    show ?thesis
      by (rule same, rule timer_implements [OF inv sim, of reply "s\<lparr>cm_posted := remove1 Timer_Task (cm_posted s)\<rparr>" False s'])
        (use Http_Timer_Task en h cm in \<open>simp_all add: reply_ok_def\<close>)
  next
    case (Http_Timer e reply)
    show ?thesis
      by (rule same, rule timer_implements [OF inv sim, of reply "s\<lparr>cm_timer_waits := cm_timer_waits s - 1\<rparr>" e s'])
        (use Http_Timer en h cm in \<open>simp_all add: reply_ok_def\<close>)
  next
    case (Http_Socket sock ac e reply)
    show ?thesis
      by (rule same, rule timer_implements [OF inv sim, of reply "s\<lparr>cm_watches := remove1 (sock, ac) (cm_watches s)\<rparr>" e s' sock ac])
        (use Http_Socket en h cm in \<open>simp_all add: reply_ok_def\<close>)
  next
    case Http_Ticket
    with h sim have "http_implements s' a" using implements_fields [of s' s a] by auto
    then show ?thesis by (rule same)
  qed
qed

lemma http_new_implements: "HttpConnection_new conf ticket True = Inr s \<Longrightarrow> http_implements s service_init"
  by (auto simp: http_implements_def service_init_def HttpConnection_new_def CurlMultiAsio_new_def check_def
      CurlMultiAsio.extend_def)

interpretation http_provider: service_provider "\<lambda>s. \<exists>ticket. HttpConnection_new conf ticket True = Inr s"
    "\<lambda>s s'. \<exists>ev. http_enabled ev s \<and> http_handle ev s = Inr s'" "http_reachable conf" http_implements
  for conf
proof (unfold_locales, goal_cases)
  case (1 s)
  then show ?case using http_reachable.http_started http_new_implements by blast
next
  case (2 s s' a)
  then obtain ev where "http_enabled ev s" "http_handle ev s = Inr s'" by blast
  with 2 http_reachable.http_step handle_implements [OF http_reachable_inv] show ?case by metis
qed

section \<open>Properties\<close>

text \<open>
  C26: the HTTP connection refines the abstract service. From every reachable state that implements a
  state of the service, each event of the connection (new requests, timers, sockets, results) ends
  in a state that implements one the service reaches by its own steps; a new connection implements
  the service that has taken nothing. So each submission is answered at most once, with its own
  callback and request, and with a response exactly when there is no error.
\<close>

theorem http_refines_service:
  assumes "http_reachable conf s" and "http_implements s a" and "http_enabled ev s" and "http_handle ev s = Inr s'"
  shows "(\<exists>a'. service_step\<^sup>*\<^sup>* a a' \<and> http_implements s' a') \<and>
    (HttpConnection_new conf' ticket True = Inr s0 \<longrightarrow> http_implements s0 service_init)"
  using http_provider.move_implements [OF assms(1) _ assms(2)] assms(3,4) http_new_implements by blast

theorem http_refines_service_witness:
  "\<exists>a'. service_step\<^sup>*\<^sup>* service_init a' \<and> http_implements http_busy a'"
proof -
  have i: "http_implements http_idle service_init"
    by (simp add: http_implements_def service_init_def http_idle_def HttpConnection_new_def CurlMultiAsio_new_def
        check_def CurlMultiAsio.extend_def)
  have en: "http_enabled (Http_Send [Timer_Function 0] CURLM_OK http_sample_request 7) http_idle"
    by (simp add: http_idle_def HttpConnection_new_def CurlMultiAsio_new_def check_def CurlMultiAsio.extend_def)
  have h: "http_handle (Http_Send [Timer_Function 0] CURLM_OK http_sample_request 7) http_idle = Inr http_busy"
    by (simp add: http_busy_send)
  show ?thesis
    using conjunct1 [OF http_refines_service [OF http_idle_reachable i en h]] .
qed

end
