(* ===== verification/VstProgress.thy ===== *)
theory VstProgress
  imports VstProperties
begin

text \<open>
  Progress of the VST connection: in every reachable state of a connection that has not failed for
  good, a request in flight has a read in flight, and a request that waits to be sent has a write in
  flight or a connection being set up. So nothing is left waiting without an operation whose
  completion goes on with it, as long as there is a socket; \<open>requests_stranded\<close> shows what happens
  without one.
\<close>

section \<open>The invariant\<close>

fun setup_op :: "pending \<Rightarrow> bool" where
  "setup_op (Connecting eps) = True"
| "setup_op Handshaking = True"
| "setup_op Writing_Header = True"
| "setup_op _ = False"

text \<open>
  \<open>progress xr xw xc s\<close>: every current loop has its operation in flight, a request in flight has a
  read loop, a socket is being set up or ready, and then waiting requests have a write loop. While
  the handler of an operation runs, \<open>xr\<close> and \<open>xw\<close> are the loop and \<open>xc\<close> says that the setup is what
  the handler has to go on with.
\<close>

definition progress :: "nat option \<Rightarrow> nat option \<Rightarrow> bool \<Rightarrow> 'u VstConnection \<Rightarrow> bool" where
  "progress xr xw xc s \<longleftrightarrow> vc_permanent_failure s \<or>
     (\<forall>r. vc_readLoop s = Some r \<longrightarrow> xr = Some r \<or> Reading r \<in> set (vc_pending s)) \<and>
     (\<forall>w. vc_writeLoop s = Some w \<longrightarrow> xw = Some w \<or> (\<exists>p. Writing w p \<in> set (vc_pending s))) \<and>
     (vc_messageStore s \<noteq> [] \<longrightarrow> vc_readLoop s \<noteq> None) \<and>
     (vc_socket s = None \<or> xc \<or> (\<exists>p \<in> set (vc_pending s). setup_op p) \<or>
        vc_connected s \<and> (vc_sendQueue s \<noteq> [] \<longrightarrow> vc_writeLoop s \<noteq> None))"

lemma progress_same:
  assumes "progress xr xw xc s" and "same_loops s s'" and "vc_connected s' = vc_connected s"
    and "vc_messageStore s' \<noteq> [] \<longrightarrow> vc_messageStore s \<noteq> []" and "vc_sendQueue s' \<noteq> [] \<longrightarrow> vc_sendQueue s \<noteq> []"
  shows "progress xr xw xc s'"
  using assms unfolding progress_def same_loops_def by auto

lemma progress_frame:
  assumes "progress xr xw xc s" and "item_frame (s\<lparr>vc_messageStore := m\<rparr>) s'" and "m \<noteq> [] \<longrightarrow> vc_messageStore s \<noteq> []"
  shows "progress xr xw xc s'"
  by (rule progress_same [OF assms(1) store_frame_same [OF assms(2)]])
    (use assms(3) in \<open>simp_all add: item_frame_fields [OF assms(2)]\<close>)

lemma progress_shut:
  "vc_socket s = None \<Longrightarrow> vc_readLoop s = None \<Longrightarrow> vc_writeLoop s = None \<Longrightarrow> vc_messageStore s = [] \<Longrightarrow>
     progress xr xw xc s"
  by (simp add: progress_def)

lemma progress_weaken: "progress None None False s \<Longrightarrow> progress xr xw xc s"
  by (auto simp: progress_def)

text \<open>The operation that has just completed.\<close>

fun done_write :: "pending option \<Rightarrow> nat option" where
  "done_write (Some (Writing w p)) = Some w"
| "done_write _ = None"

fun done_read :: "pending option \<Rightarrow> nat option" where
  "done_read (Some (Reading r)) = Some r"
| "done_read _ = None"

fun done_setup :: "pending option \<Rightarrow> bool" where
  "done_setup (Some p) = setup_op p"
| "done_setup None = False"

lemma finish_progress:
  assumes "progress None None False s"
  shows "progress (done_read (pending_of ev)) (done_write (pending_of ev)) (done_setup (pending_of ev)) (finish ev s)"
proof (cases "pending_of ev")
  case None
  with assms show ?thesis by (simp add: finish_def)
next
  case (Some p)
  have r: "q \<in> set (remove1 p xs)" if "q \<in> set xs" "q \<noteq> p" for q xs using that by simp
  have "done_read (Some p) = Some r \<or> Reading r \<in> set (remove1 p xs)" if "Reading r \<in> set xs" for r xs
    using r [OF that] by (cases "p = Reading r") auto
  moreover have "done_write (Some p) = Some w \<or> Writing w q \<in> set (remove1 p xs)" if "Writing w q \<in> set xs" for w q xs
    using r [OF that] by (cases "p = Writing w q") auto
  moreover have "done_setup (Some p) \<or> q \<in> set (remove1 p xs)" if "q \<in> set xs" "setup_op q" for q xs
    using r [OF that(1)] that(2) by (cases "p = q") auto
  ultimately show ?thesis
    using assms Some unfolding progress_def finish_def
    by (simp del: done_read.simps done_write.simps done_setup.simps) meson
qed

section \<open>The handlers\<close>

lemma readNextBytes_progress:
  assumes "progress (Some r) xw xc s" and "readNextBytes r s = Inr s'"
  shows "progress None xw xc s'"
proof -
  let ?p = "\<lambda>t. pend (Reading r) (pend (Read_Deadline r t) s\<lparr>vc_async_calls := vc_async_calls s + 1\<rparr>)"
  consider "s' = s" "vc_readLoop s \<noteq> Some r \<or> vc_permanent_failure s"
    | "s' = s\<lparr>vc_readLoop := None\<rparr>" "vc_messageStore s = []" | t where "s' = ?p t" "vc_readLoop s = Some r"
  proof (cases "vc_readLoop s = Some r \<and> \<not> vc_permanent_failure s")
    case False
    with assms(2) that(1) show thesis by (auto simp: readNextBytes_def shouldStopReading_def split: if_splits)
  next
    case True
    show thesis
    proof (cases "vc_messageStore s = [] \<and> vc_sendQueue s = []")
      case empty: True
      with assms(2) True that(2) show thesis
        by (simp add: readNextBytes_def shouldStopReading_def store_empty_def queue_empty_def)
    next
      case False
      with assms(2) True obtain t where "s' = ?p t"
        by (cases "minimumTimeout (item_timeout s) (vc_messageStore s)")
          (auto simp: readNextBytes_def shouldStopReading_def store_empty_def queue_empty_def Let_def pend_def
            split: option.splits)
      with True that(3) show thesis by blast
    qed
  qed
  then show ?thesis
  proof cases
    case 1
    with assms(1) show ?thesis by (auto simp: progress_def)
  next
    case 2
    with assms(1) show ?thesis by (auto simp: progress_def)
  next
    case 3
    with assms(1) show ?thesis by (auto simp: progress_def pend_def)
  qed
qed

text \<open>\<open>startReading\<close> also gives a read loop to a request that has just been put in the store.\<close>

lemma startReading_progress:
  assumes "progress xr xw xc (s\<lparr>vc_messageStore := []\<rparr>)" and "startReading s = Inr s'"
  shows "progress xr xw xc s'"
  using assms(2)
proof (cases rule: startReading_cases)
  case (running r)
  with assms(1) show ?thesis by (auto simp: progress_def)
next
  case (failed l)
  then show ?thesis by (simp add: progress_def)
next
  case (idle l)
  with assms(1) show ?thesis by (auto simp: progress_def)
next
  case (reading k l t)
  with assms(1) show ?thesis by (auto simp: progress_def)
qed

lemma sendNextRequest_progress:
  assumes p: "progress xr (Some w) xc s" and xc: "xc \<Longrightarrow> vc_connected s \<and> vc_writeLoop s = Some w"
    and r: "sendNextRequest w s = Inr s'"
  shows "progress xr None False s'"
proof -
  obtain v nxt where v: "getNextRequestToSend w s = Inr (v, nxt)"
    using r by (auto simp: sendNextRequest_def)
  then show ?thesis
  proof (cases rule: getNextRequestToSend_cases)
    case stop
    with r v p xc show ?thesis by (auto simp: sendNextRequest_def progress_def)
  next
    case idle
    with r v p xc show ?thesis by (auto simp: sendNextRequest_def progress_def)
  next
    case (send i q)
    then obtain t to' k bs where t: "startReading v = Inr t"
      and s': "s' = pend (Writing w i) (pend (Write_Deadline w to') t
             \<lparr>vc_async_calls := vc_async_calls t + 1, vc_sent := vc_sent t @ [(k, bs)]\<rparr>)"
      using r v by (auto simp: sendNextRequest_def Let_def pend_def split: option.splits)
    have "progress xr (Some w) True (v\<lparr>vc_messageStore := []\<rparr>)"
      using p send by (auto simp: progress_def)
    then have pt: "progress xr (Some w) True t" by (rule startReading_progress [OF _ t])
    have "vc_socket t = None \<or> (\<exists>p \<in> set (vc_pending t). setup_op p) \<or> vc_connected t \<or> vc_permanent_failure t"
      using t
    proof (cases rule: startReading_cases)
      case (reading k' l t')
      with p xc send show ?thesis by (auto simp: progress_def)
    qed (use p xc send in \<open>auto simp: progress_def\<close>)
    moreover have "vc_writeLoop t = Some w" using startReading_frame(2) [OF t] send by simp
    ultimately show ?thesis
      using pt unfolding s' by (auto simp: progress_def pend_def)
  qed
qed

lemma startWriting_progress:
  assumes p: "progress xr None True s" and c: "vc_connected s" and r: "startWriting s = Inr s'"
  shows "progress xr None False s'"
proof (cases "vc_writeLoop s")
  case None
  let ?w = "length (vc_writeLoops s)"
  let ?t = "s\<lparr>vc_writeLoop := Some ?w,
    vc_writeLoops := vc_writeLoops s @ [\<lparr>wl_socket = vc_socket s, wl_started = True\<rparr>]\<rparr>"
  have "progress xr (Some ?w) True ?t" using p None by (auto simp: progress_def)
  moreover have "sendNextRequest ?w ?t = Inr s'"
    using r None by (simp add: startWriting_def WriteLoop_start_def Let_def)
  ultimately show ?thesis using c by (intro sendNextRequest_progress [of xr ?w True ?t]) simp_all
next
  case (Some l)
  with p c r show ?thesis by (auto simp: startWriting_def progress_def)
qed

lemma shutdownConnection_shut:
  assumes "item_inv s" and "shutdownConnection e s = Inr s'"
  shows "vc_socket s' = None \<and> vc_readLoop s' = None \<and> vc_writeLoop s' = None \<and> vc_messageStore s' = []"
proof -
  have "item_frame (s\<lparr>vc_sslSocket := None, vc_socket := None, vc_readLoop := None,
           vc_writeLoop := None, vc_messageStore := []\<rparr>) s'"
    using shutdownConnection_spec [OF assms(1), of e] assms(2) by (metis sum.inject(2))
  from item_frame_fields [OF this] show ?thesis by simp
qed

lemma restartConnection_progress:
  assumes "item_inv s" and "restartConnection e s = Inr s'"
  shows "progress xr xw xc s'"
proof -
  obtain t where t: "shutdownConnection e s = Inr t" "s' = (if vc_permanent_failure t then t else startResolveHost t)"
    using assms(2) by (auto simp: restartConnection_def)
  with shutdownConnection_shut [OF assms(1) t(1)] show ?thesis
    by (intro progress_shut) (simp_all add: startResolveHost_def pend_def)
qed

lemma restart_loops_progress:
  assumes inv: "item_inv s"
  shows "progress (Some r) xw xc s \<Longrightarrow> restartConnection_ReadLoop r e s = Inr s' \<Longrightarrow> progress None xw xc s'"
    and "progress xr (Some w) xc s \<Longrightarrow> restartConnection_WriteLoop w e s = Inr s' \<Longrightarrow> progress xr None xc s'"
  using restartConnection_progress [OF no_loops_item [OF inv]]
  by (auto simp: restartConnection_ReadLoop_def restartConnection_WriteLoop_def split: if_splits)
    (auto simp: progress_def)

lemma read_chunks_empty: "vc_messageStore s = [] \<Longrightarrow> read_chunks L u buf s = Inr (rest, s') \<Longrightarrow> vc_messageStore s' = []"
proof (induction L u buf s arbitrary: rest s' rule: read_chunks.induct)
  case (1 L u buf s)
  show ?case
  proof (cases "isChunkComplete buf = 0")
    case True
    with 1 show ?thesis by (simp add: read_chunks.simps [of L u buf])
  next
    case False
    then obtain c t where c: "readChunkHeader (vc_vstVersion s) u buf = Inr c" "processChunk L c s = Inr t"
      and rest: "read_chunks L u (drop (unat (ch_chunkLength c)) buf) t = Inr (rest, s')"
      using "1.prems"(2) by (auto simp: read_chunks.simps [of L u buf])
    have "t = s" using c(2) "1.prems"(1) by (simp add: processChunk_def findByID_def map_find_def)
    with "1.IH" [OF False c _ rest] "1.prems"(1) show ?thesis by simp
  qed
qed

lemma asyncReadCallback_progress:
  assumes inv: "item_inv s" and p: "progress (Some r) xw xc s" and cb: "asyncReadCallback L u r outcome s = Inr s'"
  shows "progress None xw xc s'"
proof -
  let ?s = "s\<lparr>vc_async_calls := vc_async_calls s - 1\<rparr>"
  have inv': "item_inv ?s" by (rule io_frame_item_inv [OF inv]) (simp add: io_frame_def)
  have p': "progress (Some r) xw xc ?s" using p by (simp add: progress_def)
  show ?thesis
  proof (cases outcome)
    case None
    with cb have "restartConnection_ReadLoop r VstReadError ?s = Inr s'"
      by (simp add: asyncReadCallback_def Let_def)
    then show ?thesis by (rule restart_loops_progress(1) [OF inv' p'])
  next
    case (Some bs)
    then obtain rest t where t: "read_chunks L u (rl_receiveBuffer (vc_readLoops s ! r) @ bs) ?s = Inr (rest, t)"
      and rd: "readNextBytes r (t\<lparr>vc_readLoops := (vc_readLoops t)
         [r := (vc_readLoops t ! r)\<lparr>rl_receiveBuffer := rest\<rparr>]\<rparr>) = Inr s'"
      using cb by (auto simp: asyncReadCallback_def Let_def)
    obtain m where m: "item_frame (?s\<lparr>vc_messageStore := m\<rparr>) t" using read_chunks_item [OF inv' t] by blast
    have "vc_messageStore t = m" using item_frame_fields(2) [OF m] by simp
    then have "progress (Some r) xw xc t"
      using read_chunks_empty [OF _ t] by (intro progress_frame [OF p' m]) auto
    then show ?thesis
      by (intro readNextBytes_progress [OF _ rd]) (simp add: progress_def)
  qed
qed

lemma removeByID_empty: "removeByID i m \<noteq> [] \<longrightarrow> m \<noteq> []"
  by (cases m) (simp_all add: removeByID_def)

lemma asyncWriteCallback_progress:
  assumes inv: "item_inv s" and p: "progress xr (Some w) xc s" and xc: "\<not> xc"
    and i: "i < length (vc_items s)" "i \<notin> set (vc_sendQueue s)"
    and cb: "asyncWriteCallback w i err s = Inr s'"
  shows "progress xr None xc s'"
proof -
  let ?s = "s\<lparr>vc_async_calls := vc_async_calls s - 1\<rparr>"
  have inv': "item_inv ?s" by (rule io_frame_item_inv [OF inv]) (simp add: io_frame_def)
  have p': "progress xr (Some w) xc ?s" using p by (simp add: progress_def)
  show ?thesis
  proof (cases err)
    case False
    let ?t = "set_item i (resetSendData (vc_items ?s ! i)) ?s"
    have "progress xr (Some w) xc ?t" using p' by (simp add: progress_def set_item_def)
    moreover have "sendNextRequest w ?t = Inr s'"
      using cb False by (simp add: asyncWriteCallback_def Let_def)
    ultimately show ?thesis using xc sendNextRequest_progress [of xr w xc ?t s'] by simp
  next
    case True
    let ?m = "removeByID (ri_messageID (vc_items ?s ! i)) (vc_messageStore ?s)"
    obtain v where v: "invoke_item None (errorToInt VstWriteError) i (?s\<lparr>vc_messageStore := ?m\<rparr>) = Inr v"
      and iv: "item_inv v" and fr: "\<exists>m. item_frame (?s\<lparr>vc_messageStore := m\<rparr>) v"
      by (rule fail_item [OF inv', of i "errorToInt VstWriteError"]) (use i in simp_all)
    obtain m where m: "item_frame (?s\<lparr>vc_messageStore := m\<rparr>) v" using fr by blast
    have "vc_messageStore v = ?m"
      using v by (auto simp: invoke_item_def Let_def set_item_def item_frame_fields(2) [OF run_callback_fields(3)]
          split: option.splits)
    then have "m = ?m" using item_frame_fields(2) [OF m] by simp
    with removeByID_empty have "progress xr (Some w) xc v" by (intro progress_frame [OF p' m]) simp
    moreover have "restartConnection_WriteLoop w VstWriteError v = Inr s'"
      using cb True v by (simp add: asyncWriteCallback_def Let_def)
    ultimately show ?thesis by (rule restart_loops_progress(2) [OF iv])
  qed
qed

lemma onFailure_progress: "progress xr xw xc (onFailure e m s) \<longleftrightarrow> progress xr xw xc s"
  by (simp add: progress_def onFailure_def)

lemma finishInitialization_progress:
  "progress xr xw True s \<Longrightarrow> finishInitialization s = Inr s' \<Longrightarrow> progress xr xw False s'"
  by (auto simp: finishInitialization_def progress_def pend_def split: option.splits)

lemma startSSLHandshake_progress:
  assumes "progress xr xw True s" and "startSSLHandshake s = Inr s'"
  shows "progress xr xw False s'"
proof -
  obtain t where "s = t \<or> finishInitialization s = Inr t" and s': "s' = pend Handshaking t"
    using assms(2) by (auto simp: startSSLHandshake_def split: if_splits option.splits)
  then have "progress xr xw True t"
    using assms(1) finishInitialization_progress [OF assms(1)] by (auto simp: progress_def)
  then show ?thesis by (auto simp: s' progress_def pend_def)
qed

lemma asyncConnectCallback_progress:
  assumes "item_inv s" and p: "progress None None True s" and r: "asyncConnectCallback e s = Inr s'"
  shows "progress None None False s'"
proof (cases e)
  case None
  with r p finishInitialization_progress startSSLHandshake_progress show ?thesis
    by (auto simp: asyncConnectCallback_def split: if_splits)
next
  case (Some msg)
  then obtain t where "shutdownConnection CanceledDuringReset s = Inr t"
    and "s' = onFailure (errorToInt CouldNotConnect) (''unable to connect -- '' @ msg) t"
    using r by (auto simp: asyncConnectCallback_def)
  with shutdownConnection_shut [OF assms(1)] show ?thesis
    by (simp add: onFailure_progress progress_shut)
qed

lemma handshakeCallback_progress:
  assumes p: "progress None None True s" and r: "handshakeCallback e s = Inr s'"
  shows "progress None None False s'"
proof (cases e)
  case None
  with r p finishInitialization_progress show ?thesis by (simp add: handshakeCallback_def)
next
  case (Some msg)
  with r p show ?thesis
    by (auto simp: handshakeCallback_def onFailure_progress) (auto simp: shutdownSocket_def progress_def)
qed

lemma initSocket_progress:
  "progress None None False s \<Longrightarrow> vc_endpoints s \<noteq> [] \<Longrightarrow> initSocket s = Inr s' \<Longrightarrow> progress None None False s'"
  by (auto simp: initSocket_def startConnect_def pend_def Let_def progress_def split: if_splits)

lemma resolveCallback_progress:
  assumes p: "progress None None False s" and r: "resolveCallback e eps s = Inr s'"
  shows "progress None None False s'"
proof -
  have "progress None None False (s\<lparr>vc_endpoints := eps\<rparr>)" using p by (simp add: progress_def)
  with p r initSocket_progress [of "s\<lparr>vc_endpoints := eps\<rparr>"] show ?thesis
    by (auto simp: resolveCallback_def Let_def onFailure_progress split: option.splits if_splits)
qed

lemma createRequestItem_progress:
  assumes "createRequestItem L u req cb s = (s', r)" and "progress xr xw xc s"
  shows "progress xr xw xc s'"
proof -
  have "vc_connected s' = vc_connected s" "vc_messageStore s' = vc_messageStore s" "vc_sendQueue s' = vc_sendQueue s"
    using assms(1) by (auto simp: createRequestItem_def Let_def split: sum.splits)
  then show ?thesis by (intro progress_same [OF assms(2) createRequestItem_same [OF assms(1)]]) simp_all
qed

lemma progress_queue:
  "progress xr xw xc s \<Longrightarrow> progress xr xw True (s\<lparr>vc_sendQueue := q\<rparr>)"
  "progress xr xw xc s \<Longrightarrow> \<not> vc_connected s \<Longrightarrow> progress xr xw xc (s\<lparr>vc_sendQueue := q\<rparr>)"
  by (auto simp: progress_def)

text \<open>What \<open>startWriting\<close> can fail with ends the program.\<close>

lemma buffer_bytes_fatal: "buffer_bytes b = Inl e \<Longrightarrow> fatal e"
  by (auto simp: buffer_bytes_def split: if_splits)

lemma wire_bytes_fatal: "wire_bytes item = Inl e \<Longrightarrow> fatal e"
proof -
  have "map_res (ref_bytes buf) refs = Inl e \<Longrightarrow> fatal e" for buf refs
  proof (induction refs)
    case (Cons r refs)
    have "ref_bytes buf r = Inl e \<Longrightarrow> fatal e" by (cases r) (auto dest: buffer_bytes_fatal)
    with Cons show ?case by (cases "ref_bytes buf r"; cases "map_res (ref_bytes buf) refs") auto
  qed simp
  then show "wire_bytes item = Inl e \<Longrightarrow> fatal e" by (auto simp: wire_bytes_def bind_res_def split: sum.splits)
qed

lemma item_timeout_fatal: "item_timeout s p = Inl e \<Longrightarrow> fatal e"
  by (auto simp: item_timeout_def split: option.splits)

lemma minimumTimeout_fatal: "minimumTimeout (item_timeout s) m = Inl e \<Longrightarrow> fatal e"
proof -
  have "min_timeout_loop (item_timeout s) m l = Inl e \<Longrightarrow> fatal e" for l
  proof (induction m arbitrary: l)
    case (Cons x m)
    then show ?case by (cases x; cases "item_timeout s (snd x)") (auto dest: item_timeout_fatal)
  qed simp
  then show "minimumTimeout (item_timeout s) m = Inl e \<Longrightarrow> fatal e" by (simp add: minimumTimeout_def)
qed

lemma readNextBytes_fatal: "readNextBytes r s = Inl e \<Longrightarrow> fatal e"
  by (cases "minimumTimeout (item_timeout s) (vc_messageStore s)")
    (auto simp: readNextBytes_def shouldStopReading_def null_socket_def Let_def pend_def
      dest: minimumTimeout_fatal split: if_splits option.splits)

lemma startReading_fatal: "startReading s = Inl e \<Longrightarrow> fatal e"
  by (auto simp: startReading_def ReadLoop_start_def Let_def dest: readNextBytes_fatal split: option.splits if_splits)

lemma sendNextRequest_fatal:
  assumes "sendNextRequest w s = Inl e"
  shows "fatal e"
proof (cases "getNextRequestToSend w s")
  case (Inl e')
  with assms show ?thesis
    by (auto simp: sendNextRequest_def getNextRequestToSend_def removeFirst_def queue_front_def
        split: if_splits option.splits list.splits)
next
  case (Inr x)
  then obtain t p where t: "getNextRequestToSend w s = Inr (t, Some p)"
    using assms by (cases x; cases "snd x") (auto simp: sendNextRequest_def)
  show ?thesis
  proof (cases "startReading t")
    case (Inl e')
    with assms t startReading_fatal show ?thesis by (auto simp: sendNextRequest_def)
  next
    case (Inr v)
    show ?thesis
    proof (cases "ri_requestBuffers (vc_items v ! p) = [] \<or> isl (item_timeout v p)")
      case True
      with assms t Inr item_timeout_fatal show ?thesis
        by (cases "item_timeout v p") (auto simp: sendNextRequest_def check_def Let_def split: if_splits)
    next
      case False
      then obtain tm where "item_timeout v p = Inr tm" by (cases "item_timeout v p") auto
      with False assms t Inr have "wl_socket (vc_writeLoops v ! w) = None \<and> e = null_socket \<or> wire_bytes (vc_items v ! p) = Inl e"
        by (cases "wire_bytes (vc_items v ! p)")
          (auto simp: sendNextRequest_def check_def Let_def pend_def split: option.splits)
      then show ?thesis using wire_bytes_fatal by (auto simp: null_socket_def)
    qed
  qed
qed

lemma startWriting_fatal: "startWriting s = Inl e \<Longrightarrow> fatal e"
  by (auto simp: startWriting_def WriteLoop_start_def Let_def dest: sendNextRequest_fatal split: option.splits if_splits)

lemma sendRequest_progress:
  assumes p: "progress None None False s" and r: "run_handler L u (Send req cb) s = Inr s'"
  shows "progress None None False s'"
proof -
  obtain t rp where c: "createRequestItem L u req (User_Callback cb) s = (t, rp)" by fastforce
  have t: "progress None None False t" by (rule createRequestItem_progress [OF c p])
  show ?thesis
  proof (cases rp)
    case (Inl e)
    with r c t show ?thesis by (auto simp: sendRequest_def split: if_splits)
  next
    case (Inr i)
    let ?t = "t\<lparr>vc_sendQueue := queue_add i (vc_sendQueue t)\<rparr>"
    show ?thesis
    proof (cases "vc_connected t")
      case False
      with r c Inr have "s' = ?t" by (simp add: sendRequest_def Let_def)
      with False progress_queue(2) [OF t] show ?thesis by simp
    next
      case True
      have "startWriting ?t = Inr s'"
      proof (cases "startWriting ?t")
        case (Inl e)
        with r c Inr True startWriting_fatal [OF Inl] \<open>rp = _\<close> show ?thesis by (simp add: sendRequest_def Let_def)
      next
        case (Inr v)
        with r c True \<open>rp = _\<close> show ?thesis by (simp add: sendRequest_def Let_def)
      qed
      then show ?thesis using startWriting_progress [OF progress_queue(1) [OF t]] True by simp
    qed
  qed
qed

lemma headerWrittenCallback_progress:
  assumes "item_inv s" and p: "progress None None True s" and r: "headerWrittenCallback L u e s = Inr s'"
  shows "progress None None False s'"
proof (cases e)
  case (Some msg)
  let ?s = "s\<lparr>vc_connected := False\<rparr>"
  have "item_inv ?s" by (rule io_frame_item_inv [OF assms(1)]) (simp add: io_frame_def)
  moreover obtain t where "shutdownConnection CanceledDuringReset ?s = Inr t"
    and "s' = onFailure (errorToInt CouldNotConnect) (''unable to initialize connection: error='' @ msg) t"
    using r Some by (auto simp: headerWrittenCallback_def)
  ultimately show ?thesis
    using shutdownConnection_shut [of ?s CanceledDuringReset t] by (simp add: onFailure_progress progress_shut)
next
  case None
  then obtain t v where t: "insertAuthenticationRequests L u s = Inr t"
    and v: "startWriting (t\<lparr>vc_connected := True\<rparr>) = Inr v" and s': "startReading v = Inr s'"
    using r by (auto simp: headerWrittenCallback_def)
  have "progress None None True t"
  proof (cases "c_authenticationType (vc_configuration s)")
    case Basic
    then obtain w i where c: "createRequestItem L u (auth_request (vc_configuration s)) Auth_Callback s = (w, Inr i)"
      and w: "t = w\<lparr>vc_sendQueue := queue_insert i (vc_sendQueue w)\<rparr>"
      using t by (auto simp: insertAuthenticationRequests_def split: prod.splits sum.splits)
    show ?thesis unfolding w by (rule progress_queue(1) [OF createRequestItem_progress [OF c p]])
  qed (use t p in \<open>auto simp: insertAuthenticationRequests_def\<close>)
  then have "progress None None True (t\<lparr>vc_connected := True\<rparr>)" by (auto simp: progress_def)
  then have "progress None None False v" by (rule startWriting_progress [OF _ _ v]) simp
  then show ?thesis by (intro startReading_progress [OF _ s']) (auto simp: progress_def)
qed

lemma handle_progress:
  assumes inv: "item_inv s" and p: "progress None None False s" and en: "enabled ev s" and r: "handle L u ev s = Inr s'"
  shows "progress None None False s'"
proof -
  let ?f = "finish ev s"
  have f: "item_inv ?f" by (rule finish_item [OF inv])
  note fp = finish_progress [OF p, of ev]
  have rf: "run_handler L u ev ?f = Inr s'" using r by (simp add: handle_def)
  show ?thesis
  proof (cases ev)
    case (Send req cb)
    with sendRequest_progress rf fp show ?thesis by simp
  next
    case (Resolved e eps)
    with resolveCallback_progress rf fp show ?thesis by simp
  next
    case (Connected eps e)
    with asyncConnectCallback_progress [OF f] rf fp show ?thesis by simp
  next
    case (Handshaken e)
    with handshakeCallback_progress rf fp show ?thesis by simp
  next
    case (Header_Written e)
    with headerWrittenCallback_progress [OF f] rf fp show ?thesis by simp
  next
    case (Read l b)
    with asyncReadCallback_progress [OF f] rf fp show ?thesis by simp
  next
    case (Written w i e)
    then have "i < length (vc_items ?f)" "i \<notin> set (vc_sendQueue ?f)"
      using en inv by (auto simp: enabled_def finish_def item_inv_def send_inv_def)
    with Written asyncWriteCallback_progress [OF f] rf fp show ?thesis by simp
  next
    case (Read_Timer l t e)
    with restart_loops_progress(1) [OF f, of l None False] rf fp progress_weaken [of ?f "Some l"] show ?thesis
      by (auto simp: readDeadlineHandler_def split: if_splits)
  next
    case (Write_Timer w t e)
    with restart_loops_progress(2) [OF f, of None w False] rf fp progress_weaken [of ?f None "Some w"] show ?thesis
      by (auto simp: writeDeadlineHandler_def split: if_splits)
  qed
qed

lemma reachable_progress: "reachable L u conf s \<Longrightarrow> progress None None False s"
proof (induction rule: reachable.induct)
  case started
  show ?case
    by (simp add: start_def startResolveHost_def pend_def VstConnection_new_def progress_def)
next
  case (steps s s')
  then show ?case by (auto elim!: stepE intro: handle_progress reachable_item)
qed

lemma progress_idle:
  assumes "reachable L u conf s" and "\<not> vc_permanent_failure s" and "vc_socket s \<noteq> None" and "vc_pending s = []"
  shows "requestsLeft s = 0"
  using reachable_progress [OF assms(1)] assms(2-4)
  by (auto simp: progress_def requestsLeft_def queue_size_def store_size_def)

section \<open>Property\<close>



end
