(* ===== verification/EventLoop.thy ===== *)
theory EventLoop
  imports VstProgress
begin

text \<open>
  \<open>include/fuerte/loop.h\<close>, \<open>src/loop.cpp\<close> and \<open>src/VpackInit.h\<close>: the global initialisation, the service whose
  threads run the event loop, and what happens when a handler of a connection throws.
  \<^item> Calls of VelocyPack and of libcurl are listed in the order they are made (\<open>global_call\<close>).
  \<^item> \<open>io_service::run\<close> of \<open>boost::asio\<close> runs the handlers of completed operations one after the other until
    nothing is pending and no work object is left; an exception of a handler leaves \<open>run\<close>. For a
    VST connection its outcome is the function \<open>run\<close> of \<open>VstProperties\<close> on the events that
    happen.
\<close>

section \<open>Global initialisation\<close>

datatype global_call =
    Translator_add string byte
  | Translator_seal
  | Set_attributeTranslator
  | Curl_global_init
  | Curl_global_cleanup

definition VpackInit :: "global_call list" where
  "VpackInit =
     [Translator_add ''_key'' 1, Translator_add ''_rev'' 2, Translator_add ''_id'' 3,
      Translator_add ''_from'' 4, Translator_add ''_to'' 5, Translator_seal, Set_attributeTranslator]"

definition GlobalService_new :: "global_call list" where
  "GlobalService_new = VpackInit @ [Curl_global_init]"

definition GlobalService_destroy :: "global_call list" where
  "GlobalService_destroy = [Curl_global_cleanup]"

text \<open>The process: whether the static \<open>service\<close> of \<open>get\<close> exists, and the global calls made so far.\<close>

record process =
  ps_service :: bool
  ps_calls :: "global_call list"

definition GlobalService_get :: "process \<Rightarrow> process" where
  "GlobalService_get p =
     (if ps_service p then p else p\<lparr>ps_service := True, ps_calls := ps_calls p @ GlobalService_new\<rparr>)"

section \<open>The service\<close>

record EventLoopService =
  el_threads :: nat
  el_working :: bool
  el_stopped :: bool

fun start_threads :: "nat \<Rightarrow> EventLoopService \<Rightarrow> EventLoopService" where
  "start_threads 0 s = s"
| "start_threads (Suc threadCount) s = start_threads threadCount (s\<lparr>el_threads := el_threads s + 1\<rparr>)"

definition EventLoopService_new :: "nat \<Rightarrow> process \<Rightarrow> EventLoopService \<times> process" where
  "EventLoopService_new threadCount p =
     (start_threads threadCount \<lparr>el_threads = 0, el_working = True, el_stopped = False\<rparr>, GlobalService_get p)"

text \<open>
  The destructor: without the work object a thread returns once nothing is pending (\<open>idle\<close>); until then
  \<open>join_all\<close> blocks, which is \<open>None\<close>.
\<close>

definition EventLoopService_destroy :: "bool \<Rightarrow> EventLoopService \<Rightarrow> EventLoopService option" where
  "EventLoopService_destroy idle s =
     (let s = s\<lparr>el_working := False\<rparr>
      in if el_threads s = 0 \<or> idle then Some (s\<lparr>el_threads := 0, el_stopped := True\<rparr>) else None)"

section \<open>A thread\<close>

text \<open>How a thread, and with it the process, goes on after \<open>run\<close>.\<close>

datatype 's thread_end = Returned 's | Exited int string | Terminated exn

text \<open>The failures that are objects of a class derived from \<open>std::exception\<close>.\<close>

definition std_exception :: "exn \<Rightarrow> bool" where
  "std_exception e \<longleftrightarrow> \<not> fatal e \<and> (\<forall>i. e \<noteq> Thrown_error i)"

definition EXIT_FAILURE :: int where
  "EXIT_FAILURE = 1"

definition handleRunException :: "exn \<Rightarrow> 's thread_end" where
  "handleRunException ex = Exited EXIT_FAILURE (''exception: '' @ exn_what ex @ [CHR 0x0A])"

definition EventLoopService_run :: "'s res \<Rightarrow> 's thread_end" where
  "EventLoopService_run io_service_run =
     (case io_service_run of
        Inr s \<Rightarrow> Returned s
      | Inl ex \<Rightarrow> if std_exception ex then handleRunException ex else Terminated ex)"

section \<open>Lemmas\<close>

lemma GlobalService_once: "GlobalService_get (GlobalService_get p) = GlobalService_get p"
  by (simp add: GlobalService_get_def)

lemma start_threads_eq: "start_threads n s = s\<lparr>el_threads := el_threads s + n\<rparr>"
  by (induction n arbitrary: s) simp_all

lemma run_returns: "EventLoopService_run r = Returned s \<longleftrightarrow> r = Inr s"
  by (cases r) (simp_all add: EventLoopService_run_def handleRunException_def)

lemma run_exits:
  "std_exception e \<Longrightarrow> EventLoopService_run (Inl e) =
     Exited EXIT_FAILURE (''exception: '' @ exn_what e @ [CHR 0x0A])"
  by (simp add: EventLoopService_run_def handleRunException_def)

section \<open>Properties\<close>

text \<open>
  The event loop waits for its connection. The threads of a service with at least one thread
  return, and the destructor with them, only in reachable states of the connection; while the
  connection has a socket, has not failed for good and has requests left, something is pending, so
  the destructor blocks until they are answered or the socket is gone.
\<close>

theorem destructor_waits:
  assumes "reachable L u conf s" and "EventLoopService_run (run L u evs s) = Returned t" and "0 < n"
    and "\<not> vc_permanent_failure t" and "vc_socket t \<noteq> None"
  shows "reachable L u conf t \<and>
    (if requestsLeft t = 0 then True
     else EventLoopService_destroy (vc_pending t = []) (fst (EventLoopService_new n p)) = None)"
proof -
  have "run L u evs s = Inr t" using assms(2) by (simp add: run_returns)
  then have t: "reachable L u conf t" by (rule run_reachable [OF assms(1)])
  have "vc_pending t \<noteq> []" if "requestsLeft t \<noteq> 0"
    using progress_idle [OF t assms(4,5)] that by blast
  with t assms(3) show ?thesis
    by (simp add: EventLoopService_destroy_def EventLoopService_new_def start_threads_eq)
qed

theorem destructor_waits_witness:
  "EventLoopService_destroy (vc_pending sample_busy = [])
     (fst (EventLoopService_new 2 \<lparr>ps_service = False, ps_calls = []\<rparr>)) = None"
proof -
  have r: "EventLoopService_run (run sized_vpack sample_chunk [Send sample_request 7] sample_idle) = Returned sample_busy"
    using sample_send by (simp add: run_returns enabled_def ids_left_def sample_idle_def)
  show ?thesis
    using destructor_waits [OF sample_idle_reachable r, of 2 "\<lparr>ps_service = False, ps_calls = []\<rparr>"]
    by (simp add: requestsLeft_def queue_size_def store_size_def)
qed

text \<open>
  C32: a server can end the process of the client. When the bytes that are read complete the response
  to a request in flight and its header cannot be decoded, the exception of \<open>createResponse\<close> leaves
  the handler and \<open>io_service::run\<close>, and the thread calls \<open>exit(EXIT_FAILURE)\<close>: neither the request nor any
  other one is told, and no later handler runs.
\<close>

theorem malformed_response_exits:
  assumes "reachable L u conf s" and "ids_left s" and "Reading r \<in> set (vc_pending s)"
    and "message_chunks mid cs data" and "response_of L mid data = Inl e" and "std_exception e"
    and "\<forall>c \<in> set (rs1 @ rs2). data_ok c \<and> length (wire_chunk (vc_vstVersion s) c) < 2 ^ 32 \<and> ch_messageID c = mid"
    and "mset (map chunk_key (rs1 @ rs2)) = mset (map chunk_key cs)" and "rs2 \<noteq> []"
    and "findByID mid (vc_messageStore s) = Some p" and "received (vc_items s ! p) rs1"
    and "rl_receiveBuffer (vc_readLoops s ! r) @ bytes = concat (map (wire_chunk (vc_vstVersion s)) rs2) @ tail"
  shows "EventLoopService_run (run L u (Read r (Some bytes) # evs) s) =
    Exited EXIT_FAILURE (''exception: '' @ exn_what e @ [CHR 0x0A])"
proof -
  let ?f = "(finish (Read r (Some bytes)) s)\<lparr>vc_async_calls := vc_async_calls s - 1\<rparr>"
  have f: "?f = s\<lparr>vc_pending := remove1 (Reading r) (vc_pending s), vc_async_calls := vc_async_calls s - 1\<rparr>"
    by (simp add: finish_def)
  have "item_inv ?f"
    by (rule io_frame_item_inv [OF finish_item [OF reachable_item [OF assms(1)], of "Read r (Some bytes)"]])
      (simp add: io_frame_def)
  then have "read_chunks L u (concat (map (wire_chunk (vc_vstVersion s)) rs2) @ tail) ?f = Inl e"
    by (rule read_bad_response [OF assms(4,5,7,8,9)]) (use assms(10,11) in \<open>simp_all add: f\<close>)
  then have "handle L u (Read r (Some bytes)) s = Inl e"
    using assms(12) by (simp add: handle_def asyncReadCallback_def Let_def f finish_def)
  with assms(2,3,6) show ?thesis by (simp add: enabled_def run_exits)
qed

definition empty_chunk :: ChunkHeader where
  "empty_chunk = sample_chunk\<lparr>ch_chunkX := 3, ch_messageID := 1, ch_data := \<lparr>cb_mem = [], cb_size = 0\<rparr>\<rparr>"

theorem malformed_response_exits_witness:
  "EventLoopService_run (run sized_vpack sample_chunk [Read 1 (Some (wire_chunk VST1_0 empty_chunk))] sample_busy) =
     Exited 1 (''exception: empty'' @ [CHR 0x0A])"
proof -
  let ?c = empty_chunk
  have mc: "message_chunks 1 [?c] []"
    by (simp add: message_chunks_def empty_chunk_def isFirst_def index_def numberOfChunks_def buffer_bytes_def)
  have ok: "data_ok ?c" "ch_messageID ?c = 1" by (simp_all add: empty_chunk_def)
  then have c: "\<forall>c \<in> set ([] @ [?c]). data_ok c \<and> length (wire_chunk (vc_vstVersion sample_busy) c) < 2 ^ 32 \<and> ch_messageID c = 1"
    using length_wire_chunk [OF ok(1), of VST1_0] length_header_bytes_le [of VST1_0 ?c]
    by (simp add: empty_chunk_def)
  have f: "findByID 1 (vc_messageStore sample_busy) = Some 0"
    by (simp add: findByID_def map_find_def)
  have r: "received (vc_items sample_busy ! 0) []"
    using sample_prepared(7,8) by (simp add: received_def announced_def)
  have e: "response_of sized_vpack 1 [] = Inl (Vpack_exception ''empty'')"
    by (simp add: response_of_def validateAndExtractMessageHeader_def size_byte_def)
  have x: "std_exception (Vpack_exception ''empty'')" by (simp add: std_exception_def)
  have b: "rl_receiveBuffer (vc_readLoops sample_busy ! 1) @ wire_chunk VST1_0 ?c =
      concat (map (wire_chunk (vc_vstVersion sample_busy)) [?c]) @ []"
    by (simp add: sample_busy_def sample_idle_def Let_def)
  have i: "ids_left sample_busy" "Reading 1 \<in> set (vc_pending sample_busy)" by (simp_all add: ids_left_def)
  show ?thesis
    using malformed_response_exits [OF sample_busy_reachable i mc e x c _ _ f r b, of "[]"]
    by (simp del: run.simps add: EXIT_FAILURE_def)
qed

end
