(* ===== verification/Requests.thy ===== *)
theory Requests
  imports HttpSafety VstItem
begin

text \<open>
  \<open>src/include/fuerte/requests.h\<close> and \<open>src/src/requests.cpp\<close>: the functions that create requests. The
  overloads of \<open>createRequest\<close> are told apart by a suffix; \<open>checked\<close> and \<open>L\<close> are those of
  \<open>addVPack\<close>.
\<close>

definition createRequest_base :: "MessageHeader \<Rightarrow> StringMap \<Rightarrow> RestVerb \<Rightarrow> ContentType \<Rightarrow> Request res" where
  "createRequest_base messageHeader headerStrings verb content =
     (let request = Request_new messageHeader headerStrings;
          request = request\<lparr>r_header := (r_header request)\<lparr>h_restVerb := Some verb\<rparr>\<rparr>;
          request = (if h_type (r_header request) = None
                     then request\<lparr>r_header := (r_header request)\<lparr>h_type := Some Request_Type\<rparr>\<rparr>
                     else request)
      in bind_res (Request_contentType content request) (Request_acceptType VPack))"

text \<open>
  The wrapper for constant parameters calls \<open>createRequest\<close> with five arguments. The only overload
  with five parameters is the wrapper itself, so the call is a recursion.
\<close>

partial_function (option) createRequest_const ::
  "MessageHeader \<Rightarrow> StringMap \<Rightarrow> string \<Rightarrow> RestVerb \<Rightarrow> ContentType \<Rightarrow> Request res option"
where
  "createRequest_const messageHeader headerStrings database verb content =
     (let header = messageHeader; strings = headerStrings
      in createRequest_const header strings database verb content)"

definition createRequest_verb :: "RestVerb \<Rightarrow> ContentType \<Rightarrow> Request res" where
  "createRequest_verb verb content = createRequest_base MessageHeader_new [] verb content"

definition createRequest :: "RestVerb \<Rightarrow> string \<Rightarrow> StringMap \<Rightarrow> Request res" where
  "createRequest verb path parameters =
     bind_res (createRequest_verb verb VPack) (\<lambda>request.
     Inr (request\<lparr>r_header := (r_header request)\<lparr>h_path := Some path, h_parameters := Some parameters\<rparr>\<rparr>))"

definition createRequest_buffer ::
  "bool \<Rightarrow> velocypack \<Rightarrow> RestVerb \<Rightarrow> string \<Rightarrow> StringMap \<Rightarrow> VBuffer \<Rightarrow> Request res"
where
  "createRequest_buffer checked L verb path parameters payload =
     bind_res (createRequest_verb verb VPack) (\<lambda>request.
     addVPack_move checked L payload
       (request\<lparr>r_header := (r_header request)\<lparr>h_path := Some path, h_parameters := Some parameters\<rparr>\<rparr>))"

definition createRequest_slice ::
  "bool \<Rightarrow> velocypack \<Rightarrow> RestVerb \<Rightarrow> string \<Rightarrow> StringMap \<Rightarrow> VSlice \<Rightarrow> Request res"
where
  "createRequest_slice checked L verb path parameters payload =
     bind_res (createRequest_verb verb VPack) (\<lambda>request.
     addVPack_slice checked L payload
       (request\<lparr>r_header := (r_header request)\<lparr>h_path := Some path, h_parameters := Some parameters\<rparr>\<rparr>))"

section \<open>The header of a created request\<close>

definition vpack_meta :: StringMap where
  "vpack_meta = [(fu_accept_key, fu_content_type_vpack), (fu_content_type_key, fu_content_type_vpack)]"

definition created_header :: "RestVerb \<Rightarrow> string \<Rightarrow> StringMap \<Rightarrow> MessageHeader" where
  "created_header verb path parameters =
     MessageHeader_new\<lparr>h_type := Some Request_Type, h_restVerb := Some verb, h_path := Some path,
       h_parameters := Some parameters, h_meta := Some vpack_meta\<rparr>"

lemma key_order [simp]:
  "fu_accept_key < fu_content_type_key" "fu_accept_key \<noteq> fu_content_type_key"
  "\<not> fu_content_type_key < fu_accept_key" "fu_content_type_key \<noteq> fu_accept_key"
  by (simp_all add: fu_accept_key_def fu_content_type_key_def less_char_def)

lemma assign_meta:
  "map_assign fu_accept_key fu_content_type_vpack (map_assign fu_content_type_key fu_content_type_vpack []) = vpack_meta"
  "map_assign fu_content_type_key fu_content_type_vpack vpack_meta = vpack_meta"
  by (simp_all add: vpack_meta_def)

lemma createRequest_eq:
  "createRequest verb path parameters =
     Inr ((Request_new MessageHeader_new [])\<lparr>r_header := created_header verb path parameters\<rparr>)"
  by (simp add: createRequest_def createRequest_verb_def createRequest_base_def Request_new_def
      Message_header_def MessageHeader_new_def Request_acceptType_def set_acceptType_def
      set_acceptTypeString_def addMeta_def Let_def vpack_meta_def created_header_def)

lemma createRequest_slice_eq:
  "createRequest_slice checked L verb path parameters sl =
     bind_res (createRequest verb path parameters) (addVPack_slice checked L sl)"
  by (simp add: createRequest_slice_def createRequest_def createRequest_verb_def bind_res_def split: sum.split)

lemma createRequest_buffer_eq:
  "createRequest_buffer checked L verb path parameters b =
     bind_res (createRequest verb path parameters) (addVPack_move checked L b)"
  by (simp add: createRequest_buffer_def createRequest_def createRequest_verb_def bind_res_def split: sum.split)

lemma created_header_content [simp]:
  "addMeta fu_content_type_key fu_content_type_vpack (created_header verb path ps) = created_header verb path ps"
  by (simp add: addMeta_def created_header_def assign_meta)

lemma created_header_inv: "map_inv ps \<Longrightarrow> header_inv (created_header verb path ps)"
  by (simp add: header_inv_def created_header_def MessageHeader_new_def vpack_meta_def map_inv_def)

lemma addVPack_slice_header:
  "addVPack_slice checked L sl r = Inr r' \<Longrightarrow>
     r_header r' = addMeta fu_content_type_key fu_content_type_vpack (r_header r)"
  by (auto simp: addVPack_slice_def Let_def split: if_splits)

section \<open>Well-formed requests\<close>

text \<open>What the client code of the library can do to a request before it sends it.\<close>

datatype request_op =
    Op_VPack VSlice | Op_VPack_Move VBuffer | Op_Binary "byte list" | Op_Binary_Single VBuffer
  | Op_ContentType ContentType | Op_AcceptType ContentType | Op_Parameter string string | Op_Meta string string
  | Op_Timeout int | Op_Slices

fun apply_op :: "bool \<Rightarrow> velocypack \<Rightarrow> request_op \<Rightarrow> Request \<Rightarrow> Request res" where
  "apply_op checked L (Op_VPack sl) r = addVPack_slice checked L sl r"
| "apply_op checked L (Op_VPack_Move b) r = addVPack_move checked L b r"
| "apply_op checked L (Op_Binary d) r = Inr (addBinary L d r)"
| "apply_op checked L (Op_Binary_Single b) r = Inr (addBinarySingle L b r)"
| "apply_op checked L (Op_ContentType t) r = Request_contentType t r"
| "apply_op checked L (Op_AcceptType t) r = Request_acceptType t r"
| "apply_op checked L (Op_Parameter k v) r = Inr (r\<lparr>r_header := addParameter k v (r_header r)\<rparr>)"
| "apply_op checked L (Op_Meta k v) r = Inr (r\<lparr>r_header := addMeta k v (r_header r)\<rparr>)"
| "apply_op checked L (Op_Timeout t) r = Inr (set_timeout t r)"
| "apply_op checked L Op_Slices r = bind_res (Request_slices L r) (\<lambda>(_, r). Inr r)"

fun apply_ops :: "bool \<Rightarrow> velocypack \<Rightarrow> request_op list \<Rightarrow> Request \<Rightarrow> Request res" where
  "apply_ops checked L [] r = Inr r"
| "apply_ops checked L (op # ops) r = bind_res (apply_op checked L op r) (apply_ops checked L ops)"

text \<open>The operations that keep the length of a request right: slices in memory, and no \<open>addBinarySingle\<close>.\<close>

fun op_ok :: "velocypack \<Rightarrow> request_op \<Rightarrow> bool" where
  "op_ok L (Op_VPack sl) \<longleftrightarrow> slice_ok L sl"
| "op_ok L (Op_Binary_Single b) \<longleftrightarrow> False"
| "op_ok L op \<longleftrightarrow> True"

definition request_wf :: "Request \<Rightarrow> bool" where
  "request_wf r \<longleftrightarrow> request_inv r \<and> header_inv (r_header r) \<and> h_type (r_header r) = Some Request_Type \<and>
     h_path (r_header r) \<noteq> None \<and> h_restVerb (r_header r) \<noteq> None"

lemma addMeta_fields [simp]:
  "h_type (addMeta k v h) = h_type h" "h_path (addMeta k v h) = h_path h"
  "h_restVerb (addMeta k v h) = h_restVerb h" "h_parameters (addMeta k v h) = h_parameters h"
  "h_type (addParameter k v h) = h_type h" "h_path (addParameter k v h) = h_path h"
  "h_restVerb (addParameter k v h) = h_restVerb h"
  by (simp_all add: addMeta_def addParameter_def Let_def)

lemma request_wf_content:
  "request_wf r \<Longrightarrow> Request_contentType t r = Inr r' \<Longrightarrow> request_wf r'"
  "request_wf r \<Longrightarrow> Request_acceptType t r = Inr r' \<Longrightarrow> request_wf r'"
  by (auto simp: request_wf_def request_inv_def Request_contentType_def Request_acceptType_def
      set_contentType_def set_acceptType_def set_contentTypeString_def set_acceptTypeString_def inv_intros)

lemma request_inv_addVPack_slice:
  assumes "vpack_ok L" and "slice_ok L sl" and "request_inv r" and "addVPack_slice checked L sl r = Inr r'"
  shows "request_inv r'"
proof -
  obtain n where n: "vp_byteSize L sl = Inr n" "n \<le> length sl" "slice_bytes L sl = take n sl"
    using assms(2) by (rule slice_okE)
  have "checked_validate checked L (Inr (slice_bytes L sl)) = Inr ()" "\<not> r_sealed r" "r_isVpack r \<noteq> Some False"
    using assms(4) n by (auto simp: addVPack_slice_def buffer_bytes_def split: if_splits)
  from addVPack_slice_ok [OF assms(1-3) this] assms(4) show ?thesis by simp
qed

lemma addVPack_move_header:
  "addVPack_move checked L b r = Inr r' \<Longrightarrow>
     r_header r' = addMeta fu_content_type_key fu_content_type_vpack (r_header r)"
  by (auto simp: addVPack_move_def Let_def split: if_splits)

lemma request_wf_op:
  assumes "vpack_ok L" and "op_ok L op" and "request_wf r" and "apply_op checked L op r = Inr r'"
  shows "request_wf r'"
proof (cases op)
  case (Op_VPack sl)
  with assms request_inv_addVPack_slice [of L sl r checked r'] addVPack_slice_header [of checked L sl r r']
  show ?thesis by (simp add: request_wf_def inv_intros)
next
  case (Op_VPack_Move b)
  with assms request_inv_addVPack_move [of L r checked b r'] addVPack_move_header [of checked L b r r']
  show ?thesis by (simp add: request_wf_def inv_intros)
next
  case (Op_Binary d)
  have "r_header (addBinary L d r) = r_header r" by (simp add: addBinary_def Let_def)
  with Op_Binary assms request_inv_addBinary [of L r d] show ?thesis by (auto simp: request_wf_def)
next
  case Op_Slices
  with assms show ?thesis
    by (auto simp: request_wf_def request_inv_def Request_slices_def simp del: slices_loop.simps split: if_splits)
next
  case (Op_ContentType t)
  with assms request_wf_content(1) show ?thesis by simp
next
  case (Op_AcceptType t)
  with assms request_wf_content(2) show ?thesis by simp
qed (use assms in \<open>auto simp: request_wf_def request_inv_def set_timeout_def intro: inv_intros\<close>)

lemma request_wf_ops:
  "vpack_ok L \<Longrightarrow> list_all (op_ok L) ops \<Longrightarrow> request_wf r \<Longrightarrow> apply_ops checked L ops r = Inr r' \<Longrightarrow> request_wf r'"
proof (induction ops arbitrary: r)
  case (Cons op ops)
  then show ?case using request_wf_op [of L op r checked] by auto
qed simp

lemma created_wf:
  "map_inv ps \<Longrightarrow> createRequest verb path ps = Inr r \<Longrightarrow> request_wf r"
  by (auto simp: createRequest_eq request_wf_def request_inv_def Request_new_def created_header_inv)
    (simp_all add: created_header_def)

section \<open>Properties\<close>



lemma created_header_transports:
  "createVstMessageHeader_calls (network_header (created_header verb path parameters)) =
     Inr ([OpenArray, AddInt 1, AddInt 1, AddString ''_system'', AddInt (RestVerb_to_int verb), AddString path,
           OpenObject] @ map (\<lambda>(k, v). AddKeyString k v) parameters @ [CloseCompound,
           OpenObject, AddKeyString ''accept'' ''application/x-velocypack'',
           AddKeyString ''content-type'' ''application/x-velocypack'', CloseCompound, CloseCompound])"
  "destination_of conf (created_header verb path parameters) =
     bind_res (add_parameters ''?'' parameters) (\<lambda>query.
       Inr ((if c_ssl conf then ''https://'' else ''http://'') @ c_host conf @ '':'' @ c_port conf @ path @ query))"
  "header_lines (created_header verb path parameters) =
     [''accept: application/x-velocypack'', ''content-type: application/x-velocypack'']"
  by (simp_all add: createVstMessageHeader_calls_def network_header_def created_header_def MessageHeader_new_def
      string_map_calls_def vpack_meta_def fu_accept_key_def fu_content_type_key_def fu_content_type_vpack_def
      destination_of_def header_lines_def c_str_def Let_def)

lemma created_item_options:
  assumes "verb \<noteq> Illegal" and "c_authenticationType conf \<noteq> Jwt"
    and "r_header r = created_header verb path parameters"
    and "Request_payload r = \<lparr>cb_mem = bytes, cb_size = length bytes\<rparr>" and "bytes \<noteq> []"
  shows "\<exists>opts. item_options conf p item r = Inr opts \<and> CURLOPT_COPYPOSTFIELDS bytes \<in> set opts"
proof -
  have "\<exists>vo. verb_options verb = Inr vo" using assms(1) by (cases verb) auto
  moreover have "\<exists>ao. auth_options conf = Inr ao"
    using assms(2) by (cases "c_authenticationType conf") (auto simp: auth_options_def)
  moreover have "body_options r = Inr [CURLOPT_POSTFIELDSIZE (length bytes), CURLOPT_COPYPOSTFIELDS bytes]"
    using assms(4,5) by (simp add: body_options_def)
  ultimately show ?thesis
    using assms(3) by (auto simp: item_options_def created_header_def Let_def)
qed

text \<open>
  C21: a created request can be sent over both transports. \<open>createRequest\<close> with a VelocyPack payload
  gives a request that holds exactly that payload; its VST message header is the array of the
  version, the type, the default database, the verb, the path, the parameters and the two content
  types; and over HTTP it has a destination with the same path, and the same two header fields.
\<close>

theorem created_request_transports:
  assumes "vpack_ok L" and "slice_ok L sl" and "verb \<noteq> Illegal"
    and "checked_validate checked L (Inr (slice_bytes L sl)) = Inr ()"
    and "c_authenticationType conf \<noteq> Jwt"
  shows "\<exists>r. createRequest_slice checked L verb path parameters sl = Inr r \<and>
    r_payload r = slice_bytes L sl \<and>
    createVstMessageHeader_calls (network_header (r_header r)) =
      Inr ([OpenArray, AddInt 1, AddInt 1, AddString ''_system'', AddInt (RestVerb_to_int verb), AddString path,
            OpenObject] @ map (\<lambda>(k, v). AddKeyString k v) parameters @ [CloseCompound,
            OpenObject, AddKeyString ''accept'' ''application/x-velocypack'',
            AddKeyString ''content-type'' ''application/x-velocypack'', CloseCompound, CloseCompound]) \<and>
    destination_of conf (r_header r) =
      bind_res (add_parameters ''?'' parameters) (\<lambda>query.
        Inr ((if c_ssl conf then ''https://'' else ''http://'') @ c_host conf @ '':'' @ c_port conf @ path @ query)) \<and>
    header_lines (r_header r) = [''accept: application/x-velocypack'', ''content-type: application/x-velocypack''] \<and>
    (\<exists>opts. item_options conf p item r = Inr opts \<and> CURLOPT_COPYPOSTFIELDS (slice_bytes L sl) \<in> set opts)"
proof -
  let ?r0 = "(Request_new MessageHeader_new [])\<lparr>r_header := created_header verb path parameters\<rparr>"
  have inv: "request_inv ?r0" "\<not> r_sealed ?r0" "r_isVpack ?r0 \<noteq> Some False" "r_payload ?r0 = []"
    by (simp_all add: request_inv_def Request_new_def)
  obtain r where r: "addVPack_slice checked L sl ?r0 = Inr r" "request_inv r" "r_payload r = slice_bytes L sl"
    using addVPack_slice_ok [OF assms(1,2) inv(1) assms(4) inv(2,3)] inv(4) by auto
  have h: "r_header r = created_header verb path parameters"
    using addVPack_slice_header [OF r(1)] by simp
  have pay: "Request_payload r = \<lparr>cb_mem = slice_bytes L sl, cb_size = length (slice_bytes L sl)\<rparr>"
    using r(2,3) by (simp add: request_inv_def Request_payload_def)
  have "slice_bytes L sl \<noteq> []" using slice_length_pos [OF assms(1,2)] by auto
  with r(1,3) h created_item_options [OF assms(3,5) h pay] show ?thesis
    by (simp add: createRequest_slice_eq createRequest_eq created_header_transports)
qed

theorem created_request_transports_witness:
  "\<exists>r. createRequest_slice False sized_vpack Get ''/_api/version'' [] [2, 7, 7] = Inr r \<and>
     r_payload r = [2, 7] \<and>
     destination_of http_conf (r_header r) =
       Inr ''http://localhost:8529/_api/version''"
proof -
  have ok: "slice_ok sized_vpack [2, 7, 7]" "slice_bytes sized_vpack [2, 7, 7] = [2, 7]"
    by (simp_all add: slice_ok_def slice_bytes_def size_byte_def)
  have conf: "c_authenticationType http_conf \<noteq> Jwt" "c_ssl http_conf = False" "c_host http_conf = ''localhost''"
    "c_port http_conf = ''8529''"
    by (simp_all add: http_conf_def ConnectionConfiguration_default_def)
  have cv: "checked_validate False sized_vpack (Inr (slice_bytes sized_vpack [2, 7, 7])) = Inr ()"
    by (simp add: checked_validate_def)
  obtain r where r: "createRequest_slice False sized_vpack Get ''/_api/version'' [] [2, 7, 7] = Inr r"
    "r_payload r = slice_bytes sized_vpack [2, 7, 7]"
    "destination_of http_conf (r_header r) =
      bind_res (add_parameters ''?'' []) (\<lambda>query.
        Inr ((if c_ssl http_conf then ''https://'' else ''http://'') @ c_host http_conf @ '':'' @ c_port http_conf @
          ''/_api/version'' @ query))"
    using created_request_transports [OF sized_vpack_ok ok(1) _ cv conf(1), of Get "''/_api/version''" "[]" 0
        "HttpItem_new 0 [] (Request_new MessageHeader_new []) (0 :: nat)"] by blast
  have "destination_of http_conf (r_header r) = Inr ''http://localhost:8529/_api/version''"
    unfolding r(3) add_parameters.simps bind_res_simps conf by simp
  with r(1,2) ok(2) show ?thesis by auto
qed

text \<open>
  The \<open>createRequest\<close> overload that takes a database never returns: it calls itself with the same
  arguments.
\<close>

theorem createRequest_const_never_returns:
  "createRequest_const messageHeader headerStrings database verb content = None"
proof (rule ccontr)
  assume "createRequest_const messageHeader headerStrings database verb content \<noteq> None"
  then obtain r where "createRequest_const messageHeader headerStrings database verb content = Some r" by auto
  then show False
    by (rule createRequest_const.raw_induct [where P = "\<lambda>_ _ _ _ _ _. False", rotated]) (auto simp: Let_def)
qed

end
