(* ===== verification/Client.thy ===== *)
theory Client
  imports Requests VstProperties
begin

text \<open>
  What the users of the library see of a connection: \<open>src/src/ConnectionBuilder.cpp\<close> with the builder of
  \<open>src/include/fuerte/connection.h\<close>, the wait groups of \<open>src/include/fuerte/waitgroup.h\<close>, and the
  synchronous \<open>sendRequest\<close> of \<open>src/src/connection.cpp\<close>, which works over either transport. The locale
  \<open>request_service\<close> is what a synchronous call needs of a transport; it is interpreted on both.
\<close>

section \<open>The connection builder\<close>

type_synonym ConnectionBuilder = ConnectionConfiguration

definition builder_transport :: "string \<Rightarrow> (TransportType \<times> bool) res" where
  "builder_transport proto =
     (if proto = ''vst'' then Inr (Vst, False)
      else if proto = ''vsts'' then Inr (Vst, True)
      else if proto = ''http'' then Inr (Http, False)
      else if proto = ''https'' then Inr (Http, True)
      else Inl (Runtime_error (''invalid protocol: '' @ proto)))"

text \<open>\<open>operator[]\<close> on a vector of fewer elements is undefined.\<close>

definition builder_host :: "string \<Rightarrow> ConnectionBuilder \<Rightarrow> ConnectionBuilder res" where
  "builder_host str conf =
     (let strings = split_on (CHR '':'') str
      in bind_res (builder_transport (strings ! 0)) (\<lambda>(connType, ssl).
         bind_res (check (1 < length strings) (Undefined ''strings[1]'')) (\<lambda>_.
         bind_res (check (2 < length strings) (Undefined ''strings[2]'')) (\<lambda>_.
         Inr (conf\<lparr>c_connType := connType, c_ssl := ssl, c_host := drop 2 (strings ! 1),
                   c_port := strings ! 2\<rparr>)))))"

definition builder_authenticationType :: "AuthenticationType \<Rightarrow> ConnectionBuilder \<Rightarrow> ConnectionBuilder" where
  "builder_authenticationType t conf = conf\<lparr>c_authenticationType := t\<rparr>"

definition builder_user :: "string \<Rightarrow> ConnectionBuilder \<Rightarrow> ConnectionBuilder" where
  "builder_user u conf = conf\<lparr>c_user := u\<rparr>"

definition builder_password :: "string \<Rightarrow> ConnectionBuilder \<Rightarrow> ConnectionBuilder" where
  "builder_password p conf = conf\<lparr>c_password := p\<rparr>"

definition builder_maxChunkSize :: "u64 \<Rightarrow> ConnectionBuilder \<Rightarrow> ConnectionBuilder" where
  "builder_maxChunkSize c conf = conf\<lparr>c_maxChunkSize := c\<rparr>"

definition builder_vstVersion :: "VSTVersion \<Rightarrow> ConnectionBuilder \<Rightarrow> ConnectionBuilder" where
  "builder_vstVersion v conf = conf\<lparr>c_vstVersion := v\<rparr>"

definition builder_onFailure :: "ConnectionBuilder \<Rightarrow> ConnectionBuilder" where
  "builder_onFailure conf = conf\<lparr>c_onFailure := True\<rparr>"

datatype 'u Connection = Vst_Connection "'u VstConnection" | Http_Connection "'u HttpConnection"

text \<open>
  \<open>connect\<close>; the HTTP connection does not override \<open>start\<close>. \<open>ticket\<close> and \<open>multi_init\<close> are the ticket
  counter and whether \<open>curl_multi_init\<close> succeeds.
\<close>

definition connect :: "u64 \<Rightarrow> bool \<Rightarrow> ConnectionBuilder \<Rightarrow> 'u Connection res" where
  "connect ticket multi_init conf =
     (if c_connType conf = Vst then Inr (Vst_Connection (start (VstConnection_new conf)))
      else bind_res (HttpConnection_new conf ticket multi_init) (\<lambda>s. Inr (Http_Connection s)))"

section \<open>Wait groups\<close>

text \<open>
  The counter is an \<open>int\<close> that \<open>add\<close> changes in unsigned arithmetic. \<open>done\<close> also answers whether it
  wakes the waiting threads. \<open>wait\<close> and \<open>wait_for\<close> answer \<open>None\<close> while they block.
\<close>

record WaitGroup =
  wg_counter :: u32

definition WaitGroup_new :: WaitGroup where
  "WaitGroup_new = \<lparr>wg_counter = 0\<rparr>"

definition wg_add :: "u32 \<Rightarrow> WaitGroup \<Rightarrow> WaitGroup res" where
  "wg_add increment wg =
     bind_res (check (0 < increment) (Assertion ''increment > 0'')) (\<lambda>_.
     Inr (wg\<lparr>wg_counter := wg_counter wg + increment\<rparr>))"

definition wg_done :: "WaitGroup \<Rightarrow> WaitGroup \<times> bool" where
  "wg_done wg = (let n = wg_counter wg - 1 in (wg\<lparr>wg_counter := n\<rparr>, n = 0))"

definition wg_wait :: "WaitGroup \<Rightarrow> unit option" where
  "wg_wait wg = (if wg_counter wg = 0 then Some () else None)"

definition wg_wait_for :: "bool \<Rightarrow> WaitGroup \<Rightarrow> bool option" where
  "wg_wait_for expired wg =
     (if wg_counter wg = 0 then Some True else if expired then Some False else None)"

section \<open>Synchronous requests\<close>

text \<open>The local variables of the synchronous \<open>sendRequest\<close>, which its callback captures by reference.\<close>

record SyncCall =
  sc_wg :: WaitGroup
  sc_rv :: "Response option"
  sc_error :: Error

definition sync_start :: "SyncCall res" where
  "sync_start =
     bind_res (wg_add 1 WaitGroup_new) (\<lambda>wg. Inr \<lparr>sc_wg = wg, sc_rv = None, sc_error = 0\<rparr>)"

definition sync_callback :: "Error \<Rightarrow> Response option \<Rightarrow> SyncCall \<Rightarrow> SyncCall" where
  "sync_callback e response s =
     (let s = s\<lparr>sc_rv := response, sc_error := e\<rparr> in s\<lparr>sc_wg := fst (wg_done (sc_wg s))\<rparr>)"

text \<open>From \<open>wait\<close> on: \<open>None\<close> while the call blocks. An error is thrown as an \<open>ErrorCondition\<close>.\<close>

definition sync_result :: "bool \<Rightarrow> Error \<Rightarrow> Response option \<Rightarrow> Response option res" where
  "sync_result devbuild e response =
     (if e \<noteq> 0 then bind_res (intToError devbuild e) (\<lambda>c. Inl (Thrown_error (errorToInt c)))
      else Inr response)"

definition sync_end :: "bool \<Rightarrow> SyncCall \<Rightarrow> Response option res option" where
  "sync_end devbuild s =
     (case wg_wait (sc_wg s) of None \<Rightarrow> None | Some _ \<Rightarrow> Some (sync_result devbuild (sc_error s) (sc_rv s)))"

type_synonym answer = "nat \<times> Error \<times> Response option"

text \<open>The call whose request became item \<open>p\<close>, after the transport has made the calls of \<open>answers\<close>.\<close>

fun sync_answers :: "nat \<Rightarrow> answer list \<Rightarrow> SyncCall \<Rightarrow> SyncCall" where
  "sync_answers p [] s = s"
| "sync_answers p ((q, e, response) # as) s =
     sync_answers p as (if q = p then sync_callback e response s else s)"

definition sync_call :: "bool \<Rightarrow> nat \<Rightarrow> answer list \<Rightarrow> Response option res option" where
  "sync_call devbuild p as =
     (case sync_start of Inl e \<Rightarrow> Some (Inl e) | Inr s \<Rightarrow> sync_end devbuild (sync_answers p as s))"

lemma sync_answers_absent: "p \<notin> fst ` set as \<Longrightarrow> sync_answers p as s = s"
  by (induction p as s rule: sync_answers.induct) auto

lemma sync_answers_append: "sync_answers p (as @ bs) s = sync_answers p bs (sync_answers p as s)"
  by (induction p as s rule: sync_answers.induct) auto

lemma sync_answers_once:
  assumes "distinct (map fst as)" and "(p, e, resp) \<in> set as"
  shows "sync_answers p as s = sync_callback e resp s"
proof -
  obtain xs ys where as: "as = xs @ (p, e, resp) # ys" using split_list [OF assms(2)] by blast
  with assms(1) have "p \<notin> fst ` set xs" and "p \<notin> fst ` set ys" by auto
  with as show ?thesis by (simp add: sync_answers_append sync_answers_absent)
qed

lemma sync_start_eq: "sync_start = Inr \<lparr>sc_wg = \<lparr>wg_counter = 1\<rparr>, sc_rv = None, sc_error = 0\<rparr>"
  by (simp add: sync_start_def wg_add_def WaitGroup_new_def)

lemma sync_call_absent: "p \<notin> fst ` set as \<Longrightarrow> sync_call devbuild p as = None"
  by (simp add: sync_call_def sync_start_eq sync_answers_absent sync_end_def wg_wait_def)

lemma sync_call_once:
  "distinct (map fst as) \<Longrightarrow> (p, e, resp) \<in> set as \<Longrightarrow> sync_call devbuild p as = Some (sync_result devbuild e resp)"
  by (simp add: sync_call_def sync_start_eq sync_answers_once sync_callback_def wg_done_def sync_end_def wg_wait_def Let_def)

text \<open>What a synchronous call needs of a transport: each request it took is waiting or answered, once.\<close>

locale request_service =
  fixes reach :: "'s \<Rightarrow> bool"
    and issued :: "'s \<Rightarrow> nat"
    and waiting :: "'s \<Rightarrow> nat multiset"
    and answers :: "'s \<Rightarrow> answer list"
  assumes accounted: "reach s \<Longrightarrow> waiting s + mset (map fst (answers s)) = mset [0..<issued s]"
begin

lemma accounted_list:
  assumes "reach s"
  obtains ws where "mset ws = waiting s" and "distinct (ws @ map fst (answers s))"
    and "set (ws @ map fst (answers s)) = {..<issued s}"
proof -
  obtain ws where ws: "mset ws = waiting s" using ex_mset by blast
  with accounted [OF assms] have eq: "mset (ws @ map fst (answers s)) = mset [0..<issued s]" by simp
  show thesis
    by (rule that [OF ws]) (use mset_eq_imp_distinct_iff [OF eq] mset_eq_setD [OF eq] in auto)
qed

lemma answers_once: "reach s \<Longrightarrow> distinct (map fst (answers s))"
  by (erule accounted_list) simp

lemma waiting_iff:
  assumes "reach s" and "p < issued s"
  shows "p \<in># waiting s \<longleftrightarrow> p \<notin> fst ` set (answers s)"
proof (rule accounted_list [OF assms(1)])
  fix ws
  assume ws: "mset ws = waiting s" and d: "distinct (ws @ map fst (answers s))"
    and st: "set (ws @ map fst (answers s)) = {..<issued s}"
  have "p \<in># waiting s \<longleftrightarrow> p \<in> set ws" unfolding ws [symmetric] by simp
  moreover have "p \<in> set (ws @ map fst (answers s))" unfolding st using assms(2) by simp
  ultimately show ?thesis using d by auto
qed

lemma sync_blocks:
  "reach s \<Longrightarrow> p < issued s \<Longrightarrow> p \<in># waiting s \<Longrightarrow> sync_call devbuild p (answers s) = None"
  by (rule sync_call_absent) (simp add: waiting_iff)

lemma sync_returns:
  "reach s \<Longrightarrow> (p, e, resp) \<in> set (answers s) \<Longrightarrow>
     sync_call devbuild p (answers s) = Some (sync_result devbuild e resp)"
  by (rule sync_call_once [OF answers_once])

lemma sync_iff:
  "reach s \<Longrightarrow> p < issued s \<Longrightarrow> sync_call devbuild p (answers s) = None \<longleftrightarrow> p \<in># waiting s"
proof (cases "p \<in># waiting s")
  case False
  assume *: "reach s" "p < issued s"
  with False have "p \<in> fst ` set (answers s)" by (simp add: waiting_iff)
  then obtain e resp where "(p, e, resp) \<in> set (answers s)" by auto
  with sync_returns [OF *(1)] False show ?thesis by simp
qed (simp add: sync_blocks)

end

definition vst_answers :: "'u VstConnection \<Rightarrow> answer list" where
  "vst_answers s = map (\<lambda>d. (d_item d, d_error d, d_response d)) (vc_delivered s)"

definition http_answers :: "'u HttpConnection \<Rightarrow> answer list" where
  "http_answers s = map (\<lambda>d. (hd_item d, hd_error d, hd_response d)) (hc_delivered s)"

interpretation vst_service: request_service "reachable L u conf" "\<lambda>s. length (vc_items s)" waiting vst_answers
proof (unfold_locales, goal_cases)
  case (1 s)
  have "map fst (vst_answers s) = map d_item (vc_delivered s)" by (simp add: vst_answers_def)
  with reachable_item [OF 1] show ?case by (simp add: item_inv_def pool_inv_def)
qed

interpretation http_service: request_service "http_reachable conf" "\<lambda>s. length (hc_items s)"
    "\<lambda>s. mset (map snd (hc_messageStore s))" http_answers
proof (unfold_locales, goal_cases)
  case (1 s)
  have "map fst (http_answers s) = map hd_item (hc_delivered s)" by (simp add: http_answers_def)
  with http_reachable_inv [OF 1] show ?case by (simp add: http_inv_def)
qed

section \<open>Properties\<close>

text \<open>
  C27: synchronous requests. Over both transports, in every reachable state, a synchronous call blocks
  exactly as long as its request waits in the transport, and once the callback has been called it
  returns the response, or throws the error, of that one call.
\<close>

theorem sync_call_returns:
  assumes "reachable L u conf s" and "p < length (vc_items s)"
    and "http_reachable conf' t" and "q < length (hc_items t)"
  shows "(sync_call devbuild p (vst_answers s) = None \<longleftrightarrow> p \<in># waiting s) \<and>
    list_all (\<lambda>d. d_item d = p \<longrightarrow>
      sync_call devbuild p (vst_answers s) = Some (sync_result devbuild (d_error d) (d_response d))) (vc_delivered s) \<and>
    (sync_call devbuild q (http_answers t) = None \<longleftrightarrow> q \<in> snd ` set (hc_messageStore t)) \<and>
    list_all (\<lambda>d. hd_item d = q \<longrightarrow>
      sync_call devbuild q (http_answers t) = Some (sync_result devbuild (hd_error d) (hd_response d))) (hc_delivered t)"
proof (intro conjI)
  show "sync_call devbuild p (vst_answers s) = None \<longleftrightarrow> p \<in># waiting s"
    by (rule vst_service.sync_iff [OF assms(1,2)])
  show "sync_call devbuild q (http_answers t) = None \<longleftrightarrow> q \<in> snd ` set (hc_messageStore t)"
    using http_service.sync_iff [OF assms(3,4)] by simp
  have "sync_call devbuild p (vst_answers s) = Some (sync_result devbuild (d_error d) (d_response d))"
    if "d \<in> set (vc_delivered s)" "d_item d = p" for d
    by (rule vst_service.sync_returns [OF assms(1)]) (use that in \<open>force simp: vst_answers_def\<close>)
  then show "list_all (\<lambda>d. d_item d = p \<longrightarrow>
      sync_call devbuild p (vst_answers s) = Some (sync_result devbuild (d_error d) (d_response d))) (vc_delivered s)"
    by (simp add: list_all_iff)
  have "sync_call devbuild q (http_answers t) = Some (sync_result devbuild (hd_error d) (hd_response d))"
    if "d \<in> set (hc_delivered t)" "hd_item d = q" for d
    by (rule http_service.sync_returns [OF assms(3)]) (use that in \<open>force simp: http_answers_def\<close>)
  then show "list_all (\<lambda>d. hd_item d = q \<longrightarrow>
      sync_call devbuild q (http_answers t) = Some (sync_result devbuild (hd_error d) (hd_response d))) (hc_delivered t)"
    by (simp add: list_all_iff)
qed

theorem sync_call_returns_witness:
  "sync_call False 0 (vst_answers sample_busy) = None \<and> sync_call False 0 (http_answers http_busy) = None"
proof -
  have q: "0 < length (hc_items http_busy)" "0 \<in> snd ` set (hc_messageStore http_busy)"
    using http_busy_send by simp_all
  have p: "0 < length (vc_items sample_busy)" "0 \<in># waiting sample_busy"
    by (simp_all add: waiting_def)
  show ?thesis
    using sync_call_returns [OF sample_busy_reachable p(1) http_busy_reachable q(1), of False] p(2) q(2) by blast
qed

text \<open>The URL of the host, port, protocol and encryption of a configuration.\<close>

definition host_scheme :: "ConnectionConfiguration \<Rightarrow> string" where
  "host_scheme conf = (if c_connType conf = Vst then ''vst'' else ''http'') @ (if c_ssl conf then ''s'' else '''')"

definition host_url :: "ConnectionConfiguration \<Rightarrow> string" where
  "host_url conf = host_scheme conf @ ''://'' @ c_host conf @ '':'' @ c_port conf"

lemma host_scheme_transport:
  "c_connType conf \<noteq> Undefined_Transport \<Longrightarrow>
     builder_transport (host_scheme conf) = Inr (c_connType conf, c_ssl conf) \<and> CHR '':'' \<notin> set (host_scheme conf)"
  by (cases "c_connType conf") (auto simp: host_scheme_def builder_transport_def)

lemma split_host_url:
  assumes "CHR '':'' \<notin> set sch" and "CHR '':'' \<notin> set h" and "CHR '':'' \<notin> set p"
  shows "split_on (CHR '':'') (sch @ ''://'' @ h @ '':'' @ p) = [sch, ''//'' @ h, p]"
    and "split_on (CHR '':'') (sch @ ''://'' @ h) = [sch, ''//'' @ h]"
proof -
  have sl: "CHR '':'' \<notin> set (''//'' @ h)" using assms(2) by simp
  show "split_on (CHR '':'') (sch @ ''://'' @ h @ '':'' @ p) = [sch, ''//'' @ h, p]"
    using split_on_append [OF assms(1), of "''//'' @ h @ '':'' @ p"] split_on_append [OF sl, of p]
      split_on_plain [OF assms(3)] by simp
  show "split_on (CHR '':'') (sch @ ''://'' @ h) = [sch, ''//'' @ h]"
    using split_on_append [OF assms(1), of "''//'' @ h"] split_on_plain [OF sl] by simp
qed

text \<open>
  C22: the URL given to the builder. \<open>host\<close> reads the URL of a configuration back: exactly the
  protocol, the encryption, the host and the port are set; the destination of a plain HTTP request
  is then that URL followed by the path. When the port is missing, \<open>host\<close> reads past the end of the
  vector of the parts, which is undefined.
\<close>

theorem host_roundtrip:
  assumes "c_connType conf \<noteq> Undefined_Transport"
    and "CHR '':'' \<notin> set (c_host conf)" and "CHR '':'' \<notin> set (c_port conf)"
  shows "builder_host (host_url conf) b =
      Inr (b\<lparr>c_connType := c_connType conf, c_ssl := c_ssl conf, c_host := c_host conf, c_port := c_port conf\<rparr>) \<and>
    (c_connType conf = Http \<longrightarrow> destination_of conf (MessageHeader_new\<lparr>h_path := Some path\<rparr>) = Inr (host_url conf @ path)) \<and>
    builder_host (host_scheme conf @ ''://'' @ c_host conf) b = Inl (Undefined ''strings[2]'')"
proof -
  note sch = host_scheme_transport [OF assms(1)]
  note sp = split_host_url [OF conjunct2 [OF sch] assms(2,3)]
  have "builder_host (host_url conf) b =
      Inr (b\<lparr>c_connType := c_connType conf, c_ssl := c_ssl conf, c_host := c_host conf, c_port := c_port conf\<rparr>)"
    unfolding builder_host_def host_url_def sp Let_def using sch by (simp add: check_def)
  moreover have "builder_host (host_scheme conf @ ''://'' @ c_host conf) b = Inl (Undefined ''strings[2]'')"
    unfolding builder_host_def sp Let_def using sch by (simp add: check_def)
  moreover have "c_connType conf = Http \<longrightarrow>
      destination_of conf (MessageHeader_new\<lparr>h_path := Some path\<rparr>) = Inr (host_url conf @ path)"
    by (simp add: destination_of_def host_url_def host_scheme_def MessageHeader_new_def Let_def)
  ultimately show ?thesis by blast
qed

theorem host_roundtrip_witness:
  "\<exists>c. builder_host ''http://127.0.0.1:8529'' ConnectionConfiguration_default = Inr c \<and> c_port c = ''8529'' \<and>
     c_connType c = Http"
proof -
  let ?conf = "ConnectionConfiguration_default\<lparr>c_connType := Http, c_ssl := False, c_host := ''127.0.0.1'', c_port := ''8529''\<rparr>"
  have url: "host_url ?conf = ''http://127.0.0.1:8529''" by (simp add: host_url_def host_scheme_def)
  show ?thesis
    using host_roundtrip [of ?conf ConnectionConfiguration_default "[]"] unfolding url by simp
qed

end
