(* ===== verification/FuerteGet.thy ===== *)
theory FuerteGet
  imports Client
begin

text \<open>
  The command line tool \<open>src/tools/fuerte-get.cpp\<close>: its argument loop, the request it makes, and the texts
  it prints. \<open>argv\<close> is the vector of arguments with the program name first. Leaving the program is \<open>Exit\<close>
  with its status.
\<close>

record get_options =
  g_method :: RestVerb
  g_host :: string
  g_path :: string
  g_parameter :: StringMap
  g_meta :: StringMap

definition get_options_default :: get_options where
  "get_options_default =
     \<lparr>g_method = Get, g_host = ''http://127.0.0.1:8529'', g_path = ''/_api/version'', g_parameter = [], g_meta = []\<rparr>"

definition isOption :: "string \<Rightarrow> string \<Rightarrow> bool" where
  "isOption arg expected = (arg = expected)"

text \<open>The argument after position \<open>i\<close> and its position.\<close>

definition parseString :: "string list \<Rightarrow> nat \<Rightarrow> (string \<times> nat) res" where
  "parseString argv i = (let i = Suc i in if length argv \<le> i then Inl (Exit 1) else Inr (argv ! i, i))"

definition parseMethod :: "string list \<Rightarrow> nat \<Rightarrow> (RestVerb \<times> nat) res" where
  "parseMethod argv i = bind_res (parseString argv i) (\<lambda>(s, i). Inr (to_RestVerb s, i))"

text \<open>One pass of the loop: the flag, the position and the options after it.\<close>

definition parse_step ::
  "string list \<Rightarrow> bool \<Rightarrow> nat \<Rightarrow> get_options \<Rightarrow> (bool \<times> nat \<times> get_options) res"
where
  "parse_step argv allowFlags i opts =
     (let p = argv ! i
      in if allowFlags \<and> isOption p ''--help'' then Inl (Exit 0)
         else if allowFlags \<and> (isOption p ''-X'' \<or> isOption p ''--method'') then
           bind_res (parseMethod argv i) (\<lambda>(m, i). Inr (allowFlags, Suc i, opts\<lparr>g_method := m\<rparr>))
         else if allowFlags \<and> (isOption p ''-H'' \<or> isOption p ''--host'') then
           bind_res (parseString argv i) (\<lambda>(h, i). Inr (allowFlags, Suc i, opts\<lparr>g_host := h\<rparr>))
         else if allowFlags \<and> (isOption p ''-p'' \<or> isOption p ''--path'') then
           bind_res (parseString argv i) (\<lambda>(s, i). Inr (allowFlags, Suc i, opts\<lparr>g_path := s\<rparr>))
         else if allowFlags \<and> (isOption p ''-P'' \<or> isOption p ''--parameter'') then
           bind_res (parseString argv i) (\<lambda>(key, i).
           bind_res (parseString argv i) (\<lambda>(val, i).
           Inr (allowFlags, Suc i, opts\<lparr>g_parameter := map_assign key val (g_parameter opts)\<rparr>)))
         else if allowFlags \<and> (isOption p ''-M'' \<or> isOption p ''--meta'') then
           bind_res (parseString argv i) (\<lambda>(key, i).
           bind_res (parseString argv i) (\<lambda>(val, i).
           Inr (allowFlags, Suc i, opts\<lparr>g_meta := map_assign key val (g_meta opts)\<rparr>)))
         else if allowFlags \<and> isOption p ''--'' then Inr (False, Suc i, opts)
         else Inl (Exit 1))"

lemma parseString_pos: "parseString argv i = Inr (s, j) \<Longrightarrow> i < j \<and> j < length argv \<and> s = argv ! j"
  by (auto simp: parseString_def Let_def split: if_splits)

lemma parse_step_pos: "parse_step argv allowFlags i opts = Inr (f, j, opts') \<Longrightarrow> i < j"
  by (auto simp: parse_step_def parseMethod_def Let_def dest!: parseString_pos split: if_splits prod.splits)

function parse_loop :: "string list \<Rightarrow> bool \<Rightarrow> nat \<Rightarrow> get_options \<Rightarrow> get_options res" where
  "parse_loop argv allowFlags i opts =
     (if i < length argv then
        case parse_step argv allowFlags i opts of
          Inl e \<Rightarrow> Inl e
        | Inr (allowFlags', i', opts') \<Rightarrow> parse_loop argv allowFlags' i' opts'
      else Inr opts)"
  by pat_completeness auto
termination
  by (relation "measure (\<lambda>(argv, f, i, opts). length argv - i)") (auto dest!: parse_step_pos)

declare parse_loop.simps [simp del]

lemma parse_loop_end: "length argv \<le> i \<Longrightarrow> parse_loop argv allowFlags i opts = Inr opts"
  by (simp add: parse_loop.simps)

definition parse_args :: "string list \<Rightarrow> get_options res" where
  "parse_args argv = parse_loop argv True 1 get_options_default"

text \<open>A \<open>std::exception\<close> ends the program with status 1.\<close>

definition catch_exit :: "'a res \<Rightarrow> 'a res" where
  "catch_exit r = (case r of Inl e \<Rightarrow> if fatal e then Inl e else Inl (Exit 1) | Inr x \<Rightarrow> Inr x)"

text \<open>\<open>main\<close> up to \<open>sendRequest\<close>: the builder, the connection it starts and the request to send.\<close>

definition get_builder :: "get_options \<Rightarrow> ConnectionBuilder res" where
  "get_builder opts =
     bind_res (catch_exit (builder_host (g_host opts) ConnectionConfiguration_default)) (\<lambda>builder.
     Inr (builder_password '''' (builder_user '''' builder)))"

definition get_request :: "bool \<Rightarrow> velocypack \<Rightarrow> get_options \<Rightarrow> Request res" where
  "get_request checked L opts =
     (let slice = vp_build L [OpenObject, AddKeyString ''name'' ''superdb'', CloseCompound]
      in catch_exit (createRequest_slice checked L (g_method opts) (g_path opts) (g_parameter opts) slice))"

definition fuerte_get ::
  "bool \<Rightarrow> velocypack \<Rightarrow> bool \<Rightarrow> string list \<Rightarrow> ('u Connection \<times> Request) res"
where
  "fuerte_get checked L multi_init argv =
     bind_res (parse_args argv) (\<lambda>opts.
     bind_res (get_builder opts) (\<lambda>builder.
     bind_res (connect 0 multi_init builder) (\<lambda>connection.
     bind_res (get_request checked L opts) (\<lambda>request.
     Inr (connection, request)))))"

section \<open>Output\<close>

definition usage :: "string \<Rightarrow> string" where
  "usage name =
     ''Usage: '' @ name @ '' [OPTIONS] server-url'' @ endl @ endl @
     ''OPTIONS:'' @ endl @
     ''  --host tcp://127.0.0.1:8529'' @ endl @
     ''  --path /_api/version'' @ endl @
     ''  --method GET|PUT|...'' @ endl @
     ''  --parameter force true'' @ endl @
     ''  --meta x-arango-async store'' @ endl @
     '' example: fuerte-get --host vst://127.0.0.1:8530 --path /_api/document/profiles/P45476 --method GET'' @ endl"

definition response_text :: "velocypack \<Rightarrow> Response option \<Rightarrow> string res" where
  "response_text L response =
     (case response of
        None \<Rightarrow> Inr ''no response''
      | Some r \<Rightarrow> to_string_Message L (s_messageID r) (s_header r)
          (bind_res (Response_slices L r) (\<lambda>(ss, r). Inr ss)) (bind_res (Response_payload r) payloadAsString))"

text \<open>What the callback of the request prints; \<open>None\<close> is a null pointer.\<close>

definition get_callback :: "velocypack \<Rightarrow> Error \<Rightarrow> Request option \<Rightarrow> Response option \<Rightarrow> string res" where
  "get_callback L err request response =
     (let line = replicate 74 (CHR ''-'') @ endl
      in if err \<noteq> 0 then
           (case request of
              None \<Rightarrow> Inl (Undefined ''null request'')
            | Some r \<Rightarrow> bind_res (response_text L response) (\<lambda>text.
                Inr (line @ ''received error: '' @ show_nat (unat err) @ endl @ to_string_MessageHeader (r_header r) @
                     ''request payload:'' @ text @ endl)))
         else bind_res (response_text L response) (\<lambda>text.
           Inr (line @ ''received result:'' @ endl @ text @ endl)))"

text \<open>An answer of a connection with an error has its request and no response: it is always printed.\<close>

lemma get_callback_error:
  "err \<noteq> 0 \<Longrightarrow> get_callback L err (Some r) None =
     Inr (replicate 74 (CHR ''-'') @ endl @ ''received error: '' @ show_nat (unat err) @ endl @
       to_string_MessageHeader (r_header r) @ ''request payload:no response'' @ endl)"
  by (simp add: get_callback_def response_text_def Let_def)

section \<open>Parsing what was printed\<close>

lemma parse_step_method:
  "i < length argv \<Longrightarrow> Suc i < length argv \<Longrightarrow> argv ! i = ''--method'' \<Longrightarrow>
     parse_loop argv True i opts = parse_loop argv True (i + 2) (opts\<lparr>g_method := to_RestVerb (argv ! Suc i)\<rparr>)"
  by (simp add: parse_loop.simps [of argv True i] parse_step_def isOption_def parseMethod_def parseString_def)

lemma parse_step_host:
  "i < length argv \<Longrightarrow> Suc i < length argv \<Longrightarrow> argv ! i = ''--host'' \<Longrightarrow>
     parse_loop argv True i opts = parse_loop argv True (i + 2) (opts\<lparr>g_host := argv ! Suc i\<rparr>)"
  by (simp add: parse_loop.simps [of argv True i] parse_step_def isOption_def parseString_def)

lemma parse_step_path:
  "i < length argv \<Longrightarrow> Suc i < length argv \<Longrightarrow> argv ! i = ''--path'' \<Longrightarrow>
     parse_loop argv True i opts = parse_loop argv True (i + 2) (opts\<lparr>g_path := argv ! Suc i\<rparr>)"
  by (simp add: parse_loop.simps [of argv True i] parse_step_def isOption_def parseString_def)

lemma parse_step_parameter:
  "i + 2 < length argv \<Longrightarrow> argv ! i = ''--parameter'' \<Longrightarrow>
     parse_loop argv True i opts = parse_loop argv True (i + 3)
       (opts\<lparr>g_parameter := map_assign (argv ! (i + 1)) (argv ! (i + 2)) (g_parameter opts)\<rparr>)"
  by (simp add: parse_loop.simps [of argv True i] parse_step_def isOption_def parseString_def eval_nat_numeral)

lemma parse_step_meta:
  "i + 2 < length argv \<Longrightarrow> argv ! i = ''--meta'' \<Longrightarrow>
     parse_loop argv True i opts = parse_loop argv True (i + 3)
       (opts\<lparr>g_meta := map_assign (argv ! (i + 1)) (argv ! (i + 2)) (g_meta opts)\<rparr>)"
  by (simp add: parse_loop.simps [of argv True i] parse_step_def isOption_def parseString_def eval_nat_numeral)

definition pair_args :: "string \<Rightarrow> StringMap \<Rightarrow> string list" where
  "pair_args flag ps = concat (map (\<lambda>(k, v). [flag, k, v]) ps)"

definition assign_all :: "StringMap \<Rightarrow> StringMap \<Rightarrow> StringMap" where
  "assign_all m ps = foldl (\<lambda>m (k, v). map_assign k v m) m ps"

lemma assign_all_simps [simp]:
  "assign_all m [] = m" "assign_all m ((k, v) # ps) = assign_all (map_assign k v m) ps"
  by (simp_all add: assign_all_def)

lemma assign_last: "map_inv (m @ [(k, v)]) \<Longrightarrow> map_assign k v m = m @ [(k, v)]"
  by (induction k v m rule: map_assign.induct) (auto simp: map_inv_Cons)

lemma assign_all_sorted: "map_inv (m @ ps) \<Longrightarrow> assign_all m ps = m @ ps"
proof (induction ps arbitrary: m)
  case (Cons p ps)
  obtain k v where p: "p = (k, v)" by (cases p)
  have "map_inv (m @ [(k, v)])"
    using Cons.prems by (simp add: map_inv_def p sorted_wrt_append)
  then have "map_assign k v m = m @ [(k, v)]" by (rule assign_last)
  with Cons p show ?case by simp
qed simp

lemma parse_parameters:
  "argv = pre @ pair_args ''--parameter'' ps @ rest \<Longrightarrow>
     parse_loop argv True (length pre) opts =
     parse_loop argv True (length pre + 3 * length ps) (opts\<lparr>g_parameter := assign_all (g_parameter opts) ps\<rparr>)"
proof (induction ps arbitrary: pre opts)
  case (Cons p ps)
  obtain k v where p: "p = (k, v)" by (cases p)
  have a: "argv = (pre @ [''--parameter'', k, v]) @ pair_args ''--parameter'' ps @ rest"
    using Cons.prems by (simp add: p pair_args_def)
  then have "parse_loop argv True (length pre) opts =
      parse_loop argv True (length pre + 3) (opts\<lparr>g_parameter := map_assign k v (g_parameter opts)\<rparr>)"
    by (subst parse_step_parameter) (simp_all add: nth_append eval_nat_numeral)
  also have "\<dots> = parse_loop argv True (length pre + 3 * length (p # ps))
      (opts\<lparr>g_parameter := assign_all (g_parameter opts) (p # ps)\<rparr>)"
    using Cons.IH [OF a] by (simp add: p eval_nat_numeral)
  finally show ?case .
qed simp

lemma parse_meta:
  "argv = pre @ pair_args ''--meta'' ps @ rest \<Longrightarrow>
     parse_loop argv True (length pre) opts =
     parse_loop argv True (length pre + 3 * length ps) (opts\<lparr>g_meta := assign_all (g_meta opts) ps\<rparr>)"
proof (induction ps arbitrary: pre opts)
  case (Cons p ps)
  obtain k v where p: "p = (k, v)" by (cases p)
  have a: "argv = (pre @ [''--meta'', k, v]) @ pair_args ''--meta'' ps @ rest"
    using Cons.prems by (simp add: p pair_args_def)
  then have "parse_loop argv True (length pre) opts =
      parse_loop argv True (length pre + 3) (opts\<lparr>g_meta := map_assign k v (g_meta opts)\<rparr>)"
    by (subst parse_step_meta) (simp_all add: nth_append eval_nat_numeral)
  also have "\<dots> = parse_loop argv True (length pre + 3 * length (p # ps))
      (opts\<lparr>g_meta := assign_all (g_meta opts) (p # ps)\<rparr>)"
    using Cons.IH [OF a] by (simp add: p eval_nat_numeral)
  finally show ?case .
qed simp

lemma length_pair_args: "length (pair_args flag ps) = 3 * length ps"
  by (induction ps) (auto simp: pair_args_def)

definition args_of :: "string \<Rightarrow> string \<Rightarrow> string \<Rightarrow> StringMap \<Rightarrow> StringMap \<Rightarrow> string list" where
  "args_of method host path parameter meta =
     [''--method'', method, ''--host'', host, ''--path'', path] @ pair_args ''--parameter'' parameter @ pair_args ''--meta'' meta"

section \<open>Properties\<close>

text \<open>
  The command line of \<open>fuerte-get\<close>. Printing options as arguments and parsing them gives the
  options back, whatever strings the values are; the request that is sent has the method, the path
  and the parameters, and does not depend on the \<open>--meta\<close> options, which the tool reads and drops.
  The host of its own usage text, \<open>tcp://127.0.0.1:8529\<close>, is rejected.
\<close>

theorem fuerte_get_args:
  assumes "map_inv parameter" and "map_inv meta"
  shows "parse_args (prog # args_of method host path parameter meta) =
      Inr \<lparr>g_method = to_RestVerb method, g_host = host, g_path = path, g_parameter = parameter, g_meta = meta\<rparr> \<and>
    (fuerte_get checked L multi_init (prog # args_of method host path parameter meta) :: ('u Connection \<times> Request) res) =
      fuerte_get checked L multi_init (prog # args_of method host path parameter []) \<and>
    (fuerte_get checked L multi_init (prog # args_of method ''tcp://127.0.0.1:8529'' path parameter meta) ::
      ('u Connection \<times> Request) res) = Inl (Exit 1)"
proof -
  have parse: "parse_args (prog # args_of method host path parameter meta) =
      Inr \<lparr>g_method = to_RestVerb method, g_host = host, g_path = path, g_parameter = parameter, g_meta = meta\<rparr>"
    if m: "map_inv meta" for host meta
  proof -
    let ?pre = "[prog, ''--method'', method, ''--host'', host, ''--path'', path]"
    let ?argv = "?pre @ pair_args ''--parameter'' parameter @ pair_args ''--meta'' meta @ []"
    let ?o = "\<lparr>g_method = to_RestVerb method, g_host = host, g_path = path, g_parameter = [], g_meta = []\<rparr>"
    have "parse_loop ?argv True 1 get_options_default = parse_loop ?argv True (length ?pre) ?o"
      by (simp add: parse_step_method parse_step_host parse_step_path get_options_default_def)
    also have "\<dots> = parse_loop ?argv True (length (?pre @ pair_args ''--parameter'' parameter)) (?o\<lparr>g_parameter := parameter\<rparr>)"
      using parse_parameters [of ?argv ?pre parameter "pair_args ''--meta'' meta @ []" ?o] assign_all_sorted [of "[]" parameter] assms(1)
      by (simp add: length_pair_args)
    also have "\<dots> = parse_loop ?argv True (length ?argv) (?o\<lparr>g_parameter := parameter, g_meta := meta\<rparr>)"
      using parse_meta [of ?argv "?pre @ pair_args ''--parameter'' parameter" meta "[]" "?o\<lparr>g_parameter := parameter\<rparr>"]
        assign_all_sorted [of "[]" meta] m
      by (simp add: length_pair_args)
    also have "\<dots> = Inr (?o\<lparr>g_parameter := parameter, g_meta := meta\<rparr>)"
      by (rule parse_loop_end) simp
    finally show ?thesis by (simp add: parse_args_def args_of_def)
  qed
  have "split_on (CHR '':'') ''tcp://127.0.0.1:8529'' ! 0 = ''tcp''"
    using split_on_append [of "CHR '':''" "''tcp''" "''//127.0.0.1:8529''"] by (simp del: split_on.simps)
  then have "builder_host ''tcp://127.0.0.1:8529'' ConnectionConfiguration_default = Inl (Runtime_error ''invalid protocol: tcp'')"
    unfolding builder_host_def Let_def by (simp add: builder_transport_def del: split_on.simps)
  then have "catch_exit (builder_host ''tcp://127.0.0.1:8529'' ConnectionConfiguration_default) = Inl (Exit 1)"
    by (simp add: catch_exit_def)
  with parse [OF assms(2)] parse [OF map_inv_Nil] show ?thesis
    by (simp add: fuerte_get_def get_builder_def get_request_def)
qed

theorem fuerte_get_args_witness:
  "parse_args [''fuerte-get'', ''--method'', ''PUT'', ''--host'', ''vst://localhost:8530'', ''--path'', ''/x'',
      ''--parameter'', ''force'', ''true'', ''--meta'', ''x-arango-async'', ''--help''] =
     Inr \<lparr>g_method = Put, g_host = ''vst://localhost:8530'', g_path = ''/x'', g_parameter = [(''force'', ''true'')],
       g_meta = [(''x-arango-async'', ''--help'')]\<rparr>"
proof -
  have m: "map_inv [(''force'', ''true'')]" "map_inv [(''x-arango-async'', ''--help'')]" by (simp_all add: map_inv_def)
  have v: "to_RestVerb ''PUT'' = Put" by code_simp
  show ?thesis
    using conjunct1 [OF fuerte_get_args [OF m, of "''fuerte-get''" "''PUT''" "''vst://localhost:8530''" "''/x''"]] v
    by (simp add: args_of_def pair_args_def)
qed

end
