(* ===== verification/Database.thy ===== *)
theory Database
  imports Client
begin

text \<open>
  \<open>include/fuerte/database.h\<close>, \<open>src/database.cpp\<close>, \<open>include/fuerte/collection.h\<close> and \<open>src/collection.cpp\<close>: a
  database refers to its connection and a collection to its database. None of the operations sends a
  request: the connection is only kept.
\<close>

record 'c Database =
  db_conn :: 'c
  db_name :: string

record 'c Collection =
  col_db :: "'c Database"
  col_name :: string

definition Database_new :: "'c \<Rightarrow> string \<Rightarrow> 'c Database" where
  "Database_new conn name = \<lparr>db_conn = conn, db_name = name\<rparr>"

definition Collection_new :: "'c Database \<Rightarrow> string \<Rightarrow> 'c Collection" where
  "Collection_new db name = \<lparr>col_db = db, col_name = name\<rparr>"

definition getCollection :: "string \<Rightarrow> 'c Database \<Rightarrow> 'c Collection" where
  "getCollection name db = Collection_new db name"

definition createCollection :: "string \<Rightarrow> 'c Database \<Rightarrow> 'c Collection" where
  "createCollection name db = Collection_new db name"

definition deleteCollection :: "string \<Rightarrow> 'c Database \<Rightarrow> bool" where
  "deleteCollection name db = False"

definition collection_insert :: "string \<Rightarrow> 'c Collection \<Rightarrow> 'c Collection \<times> bool" where
  "collection_insert document c = (c, False)"

text \<open>\<open>drop\<close>, \<open>dropAll\<close> and \<open>find\<close>, and \<open>update\<close> and \<open>replace\<close>: empty bodies.\<close>

definition collection_drop :: "string \<Rightarrow> 'c Collection \<Rightarrow> 'c Collection" where
  "collection_drop document c = c"

definition collection_update :: "string \<Rightarrow> string \<Rightarrow> 'c Collection \<Rightarrow> 'c Collection" where
  "collection_update old new c = c"

text \<open>Getting, creating and deleting a collection cannot be told apart by what the database does.\<close>

lemma collections_alike:
  "createCollection name db = getCollection name db"
  "db_conn (col_db (getCollection name (Database_new conn d))) = conn"
  "\<not> deleteCollection name db" "snd (collection_insert doc c) = deleteCollection name db"
  by (simp_all add: createCollection_def getCollection_def Collection_new_def Database_new_def deleteCollection_def
      collection_insert_def)

end
