(* ===== verification/Spec2Isabelle.thy ===== *)
theory Spec2Isabelle
  imports VstService VstRaceBugs HttpService EventLoop FuerteGet Database
begin

text \<open>
  A verification library for \<^bold>\<open>fuerte\<close>, the C++ driver for ArangoDB: a client that sends
  requests to a server over VelocyStream (VST) or HTTP and calls a callback with each response.

  \<^bold>\<open>Parts of the program, and the theories that model them\<close> (paths under \<open>src/\<close>)

  \<^item> \<open>Prelude\<close>: machine integers (\<open>u32\<close>, \<open>u64\<close>), C++ failures as values of \<open>'a res\<close>, the operations
    of \<open>std::string\<close> and of the C string functions; \<open>StdMap\<close>: \<open>std::map\<close> as a sorted association
    list with its contract, the locale \<open>ordered_map\<close>.
  \<^item> \<open>Endian\<close>: \<open>src/portable_endian.h\<close>, all conversions. \<open>Types\<close>: \<open>include/fuerte/types.h\<close> and \<open>src/types.cpp\<close>.
  \<^item> \<open>Velocypack\<close>: the boundary to the VelocyPack library, a record of functions that every user of it
    takes as an argument, with the documented behaviour \<open>vpack_ok\<close>.
  \<^item> \<open>Message\<close>: headers, requests and responses (\<open>include/fuerte/message.h\<close>, \<open>src/message.cpp\<close>, and
    \<open>validateAndCount\<close> of \<open>src/vst.cpp\<close>). \<open>Requests\<close>: \<open>createRequest\<close> (\<open>src/requests.cpp\<close>).
  \<^item> \<open>Helper\<close>: printing and the URL codec (\<open>src/helper.cpp\<close>, \<open>include/fuerte/helper.h\<close>).
  \<^item> \<open>VstChunk\<close>: chunk headers and splitting; \<open>VstItem\<close>: VST message headers, the send buffers of a
    request item and the reassembly of a response (\<open>src/vst.h\<close>, \<open>src/vst.cpp\<close>); \<open>CallOnce\<close>:
    \<open>src/CallOnceRequestCallback.h\<close>.
  \<^item> \<open>MessageStore\<close>: \<open>src/MessageStore.h\<close> and the send queue of \<open>src/VstConnection.h\<close>.
  \<^item> \<open>VstConnection\<close>: \<open>src/VstConnection.cpp\<close>, one definition per handler on the record \<open>VstConnection\<close>,
    whose fields are those of the class, its loops and its request items, plus the pending
    asynchronous operations and a log of the callbacks called. \<open>VstThreads\<close> splits its handlers into
    the sections that one mutex makes indivisible, and interleaves the sections of several threads
    as long as nothing fails. \<open>VstRaces\<close> splits all handlers, failures, timeouts and restarts included,
    at each mutex and each callback (\<open>section_step\<close>, \<open>event_sections\<close>), \<open>VstRaceCalls\<close> interleaves these
    sections (\<open>race_step\<close>); which mutexes are held over several sections follows from the stacks of
    the threads. \<open>Interleaving\<close>: threads as a list of stacks, the locale \<open>interleaved\<close>.
  \<^item> \<open>CurlMulti\<close>: \<open>src/CurlMultiAsio.cpp\<close>; \<open>HttpItem\<close>: the request item of the HTTP transport, the URL
    and the options of a transfer, header and body callbacks; \<open>HttpConnection\<close>:
    \<open>src/HttpConnection.cpp\<close>. The record \<open>HttpConnection\<close> extends \<open>CurlMultiAsio\<close>, which it owns.
  \<^item> \<open>Client\<close>: the builder (\<open>src/ConnectionBuilder.cpp\<close>, \<open>include/fuerte/connection.h\<close>), wait groups
    (\<open>include/fuerte/waitgroup.h\<close>), the synchronous \<open>sendRequest\<close> (\<open>src/connection.cpp\<close>);
    \<open>FuerteGet\<close>: \<open>tools/fuerte-get.cpp\<close>; \<open>Database\<close>: databases and collections, which send nothing.
  \<^item> \<open>EventLoop\<close>: \<open>include/fuerte/loop.h\<close>, \<open>src/loop.cpp\<close>, \<open>src/VpackInit.h\<close>: the global initialisation, the
    threads of the event loop and what an exception of a handler does to the process.
  \<^item> \<open>Service\<close>: no code, but what both connections promise, as an abstract transition system.

  \<^bold>\<open>How the parts interact.\<close> \<open>createRequest\<close> makes a \<open>Request\<close>. \<open>sendRequest\<close> of the VST connection
  turns it into a request item (\<open>prepareForNetwork\<close>), queues it, and the write loop moves it to the
  message store and sends it; the read loop cuts the stream into chunks, finds the item by its
  message id, and delivers the reassembled response to the callback. The HTTP connection hands an
  item to libcurl through \<open>CurlMultiAsio\<close>, whose callbacks fill the item, and delivers it when the
  posted result is handled. Both connections are transition systems: an event is a call of a user
  or the completion of a pending operation with an arbitrary outcome (\<open>VstSafety.reachable\<close>,
  \<open>HttpConnection.http_reachable\<close>).

  \<^bold>\<open>What the lemmas show\<close>
  \<^item> \<open>VstSafety\<close>: where each request item is (queue, store, delivered), message ids; \<open>VstLoops\<close>: the
    loops and the counter of asynchronous calls; \<open>VstStream\<close>: reading chunks from a stream;
    \<open>VstProperties\<close>: the resulting properties of the VST connection, its failure handling, and two
    defects (a null socket after a reconnect, requests stranded after a failed resolve).
  \<^item> \<open>VstProgress\<close>: nothing is left waiting while there is a socket. \<open>VstThreads\<close>: without failures, each
    loop is run by one thread at a time and no wake-up is lost, whatever the interleaving; the
    handlers are the sequences of their tasks. \<open>EventLoop\<close>: a malformed response ends the process.
  \<^item> \<open>VstRaces\<close>: the handlers are the sequences of their sections, restarts included.
    \<open>VstRaceCalls\<close>, \<open>VstRaceAccount\<close>: whatever the interleaving, callbacks are called at most once and no
    request is lost (connections without authentication). \<open>VstRaceBugs\<close>: runs of two threads, or of one
    with a callback that sends a request, to a failed assertion, a null pointer, and a deadlock.
  \<^item> \<open>HttpSafety\<close>: the same for the HTTP connection: no item lost or used after deletion, no socket
    deleted twice, results delivered, and the leak of \<open>open_socket\<close>.
  \<^item> \<open>VstService\<close>, \<open>HttpService\<close>: both connections refine the abstract service, which answers each
    submission at most once, with its own callback and request.
  \<^item> The codecs are inverse to each other: chunks, URLs, queries, host URLs, command lines.

  \<^bold>\<open>Interfaces.\<close> \<open>ordered_map\<close> (StdMap), the store and queue contracts (MessageStore),
  \<open>easy_callbacks\<close> (CurlMulti: what the user of the adapter owes it, given by the HTTP
  connection), \<open>interleaved\<close> (Interleaving: an invariant of threads that does not depend on which
  thread does what, given by those of \<open>VstThreads\<close>, \<open>VstRaceCalls\<close> and \<open>VstRaceAccount\<close>),
  \<open>request_service\<close> (Client: what a synchronous call needs of a transport, given by
  both connections), and \<open>service_provider\<close> (Service: a transition system that implements the abstract
  service step by step, given by both connections). Each is interpreted on the definitions of the
  model.

  \<^bold>\<open>Bounds and fuel.\<close> \<open>slices_loop\<close>, \<open>validate_loop\<close> and \<open>addVPack_loop\<close> take one more unit of fuel than
  the buffer has bytes: a value has at least one byte, so under \<open>vpack_ok\<close> they never run out (when
  they do, the C++ loop makes no progress, the result \<open>No_return\<close>). All other loops are structural
  or have a termination proof. Message ids are followed until the 64 bit counter wraps
  (\<open>ids_left\<close>); chunk numbers are kept in 32 bits and their wrap-around is stated.

  \<^bold>\<open>Assumptions on the environment\<close> are arguments and predicates: \<open>vpack_ok\<close> for VelocyPack,
  \<open>reply_ok\<close> and \<open>http_enabled\<close> for libcurl (callbacks only for handles that were added, each
  transfer reported once), and that an asynchronous operation completes at most once. A handler runs
  to its end before the next event, except in \<open>VstThreads\<close> and \<open>VstRaces\<close>, where the sections of handlers
  interleave; the first covers the loops of runs in which nothing fails or times out, the second
  callbacks and requests in all runs. Sections are sequentially consistent: what C++ leaves undefined
  because two threads access a field without a mutex shows as an order of sections. User callbacks
  do not throw, and call back into the connection only in \<open>VstRaces\<close>.

  \<^bold>\<open>Not modelled\<close>: logging (\<open>FuerteLogger.h\<close>, off by default), \<open>xxhash.h\<close> (declarations that nothing
  uses), the tests, and the vendored GoogleTest.
\<close>

end
